(* ===== verification/Prelude.thy ===== *)
theory Prelude
  imports Main "HOL-Library.Word" "HOL-Library.Multiset"
begin

text \<open>
  Shared vocabulary of the development: the names of the machine types, the
  collections of simplification and introduction rules the component theories
  fill and use, and the generic facts on lists, options and words that several
  components need.

  Byte strings.  A Rust \<open>&[u8]\<close>, \<open>Bytes\<close>, \<open>BytesMut\<close> or \<open>String\<close> is a list of
  \<open>char\<close>: a HOL character is exactly one byte (0 to 255), so a Rust \<open>String\<close> is
  its UTF-8 encoding and \<open>length\<close> counts bytes as \<open>len()\<close> does.
\<close>

type_synonym bytes = string
type_synonym u16 = "16 word"
type_synonym u64 = "64 word"
type_synonym usize = "64 word"

text \<open>An \<open>Instant\<close> is the number of nanoseconds on the monotonic clock.\<close>

type_synonym instant = nat

text \<open>
  The successive readings of \<open>Instant::now()\<close> inside one operation: the \<open>i\<close>-th
  call reads \<open>clk i\<close>.  The monotonic clock of the standard library is the
  hypothesis \<open>mono clk\<close>.
\<close>

type_synonym clock = "nat \<Rightarrow> instant"

text \<open>
  What the program takes from the toolchain and the crates it is built with, and the
  sources do not fix: the hash that \<open>DefaultHasher::new()\<close> gives a string, the layout
  sizes \<open>size_of::<Entry>()\<close> and \<open>size_of::<Value>()\<close>, the arrangement of a
  \<open>HashMap\<close> after an insertion, and whether the build checks arithmetic overflow
  (a debug build panics, a release build wraps).
\<close>

record platform =
  hash_str :: "string \<Rightarrow> u64"
  size_of_entry :: usize
  size_of_value :: nat
  bucket_order :: "string list \<Rightarrow> string list"
  overflow_checks :: bool

text \<open>A concrete platform, on which the examples of the development are evaluated.\<close>

definition sample_platform :: platform where
  "sample_platform = \<lparr>hash_str = (\<lambda>s. of_nat (sum_list (map of_char s))), size_of_entry = 80,
     size_of_value = 32, bucket_order = (\<lambda>ks. ks), overflow_checks = True\<rparr>"

text \<open>
  \<open>a + b\<close> on \<open>u16\<close>: \<open>None\<close> is the overflow panic of a build with overflow checks; without
  them the sum wraps.
\<close>

definition add_u16 :: "platform \<Rightarrow> u16 \<Rightarrow> u16 \<Rightarrow> u16 option" where
  "add_u16 P a b = (if overflow_checks P \<and> unat a + unat b \<ge> 2 ^ 16 then None else Some (a + b))"

text \<open>The largest allocation \<open>Vec\<close> admits, \<open>isize::MAX\<close> bytes.\<close>

abbreviation isize_max :: nat where "isize_max \<equiv> 2 ^ 63 - 1"

named_theorems std_simps \<open>equations of the standard-library model\<close>
named_theorems inv_intros \<open>preservation of component invariants\<close>
named_theorems frame_simps \<open>what an operation leaves unchanged\<close>

definition byte :: "char \<Rightarrow> nat" where
  "byte c = of_char c"

lemma byte_less_256 [simp]: "byte c < 256"
  by (simp add: byte_def nat_of_char_less_256)

lemma byte_inject [simp]: "byte c = byte d \<longleftrightarrow> c = d"
  by (simp add: byte_def)

definition crlf :: bytes where
  "crlf = [CHR 0x0D, CHR 0x0A]"

lemma length_crlf [simp]: "length crlf = 2"
  by (simp add: crlf_def)

lemma crlf_not_Nil [simp]: "crlf \<noteq> []"
  by (simp add: crlf_def)

section \<open>Lists\<close>

lemma mset_eq_distinct_map_fst:
  assumes "mset xs = mset ys" "distinct (map fst ys)"
  shows "distinct (map fst xs)"
proof -
  have "mset (map fst xs) = mset (map fst ys)" using assms(1) by simp
  then show ?thesis using assms(2) mset_eq_imp_distinct_iff by blast
qed

lemma map_of_eq_of_mset_eq:
  assumes "mset xs = mset ys" "distinct (map fst ys)"
  shows "map_of xs = map_of ys"
proof -
  have "set xs = set ys" using assms(1) mset_eq_setD by blast
  then show ?thesis
    using assms mset_eq_distinct_map_fst map_of_inject_set by blast
qed

lemma sum_list_mset_eq:
  fixes f :: "'a \<Rightarrow> 'b::comm_monoid_add"
  assumes "mset xs = mset ys"
  shows "sum_list (map f xs) = sum_list (map f ys)"
proof -
  have "mset (map f xs) = mset (map f ys)" using assms by simp
  then show ?thesis by (metis sum_mset_sum_list)
qed

lemma sum_list_update_group:
  fixes f :: "'a \<Rightarrow> 'b::ab_group_add"
  assumes "i < length xs"
  shows "sum_list (map f (xs[i := y])) = sum_list (map f xs) - f (xs ! i) + f y"
  using assms by (induction xs arbitrary: i) (auto split: nat.split simp: algebra_simps)

lemma set_list_update_iff:
  assumes "i < length xs"
  shows "(\<forall>x \<in> set (xs[i := y]). Q x) \<longleftrightarrow> Q y \<and> (\<forall>j < length xs. j \<noteq> i \<longrightarrow> Q (xs ! j))"
  using assms by (auto simp: all_set_conv_all_nth nth_list_update)

lemma sum_list_length_update:
  "i < length xs \<Longrightarrow> sum_list (map length (xs[i := y])) + length (xs ! i) = sum_list (map length xs) + length y"
  by (induction xs arbitrary: i) (auto split: nat.split)

lemma distinct_concat_index:
  fixes g :: "'b \<Rightarrow> nat"
  assumes "\<And>i. i < length ss \<Longrightarrow> distinct (f (ss ! i))"
    "\<And>i x. i < length ss \<Longrightarrow> x \<in> set (f (ss ! i)) \<Longrightarrow> g x = n + i"
  shows "distinct (concat (map f ss))"
  using assms
proof (induction ss arbitrary: n)
  case (Cons s ss)
  have later: "distinct (f (ss ! i))" "x \<in> set (f (ss ! i)) \<Longrightarrow> g x = Suc n + i" if "i < length ss" for i x
    using that Cons.prems(1) [of "Suc i"] Cons.prems(2) [of "Suc i" x] by auto
  have "distinct (concat (map f ss))" using Cons.IH [of "Suc n"] later by blast
  moreover have "g x \<noteq> n" if x: "x \<in> set (concat (map f ss))" for x
  proof -
    obtain i where "i < length ss" "x \<in> set (f (ss ! i))"
      using x by (auto simp: set_conv_nth [of ss])
    then show ?thesis using later(2) [of i x] by simp
  qed
  moreover have "distinct (f s)" "\<And>x. x \<in> set (f s) \<Longrightarrow> g x = n"
    using Cons.prems(1) [of 0] Cons.prems(2) [of 0] by auto
  ultimately show ?case by auto
qed simp

lemma drop_suffix: "b = p @ r \<Longrightarrow> drop (length b - length r) b = r"
  by simp

section \<open>Words\<close>

lemma unat_and_mask:
  fixes w :: "'a::len word"
  shows "unat (and w (mask n)) = unat w mod 2 ^ n"
  by (simp only: take_bit_eq_mask [symmetric] unsigned_take_bit_eq) (simp add: take_bit_eq_mod)

lemma unat_of_nat_less:
  assumes "n < 2 ^ LENGTH('a)"
  shows "unat (of_nat n :: 'a::len word) = n"
  using assms by (simp add: unsigned_of_nat take_bit_nat_eq_self)

end
