(* ===== verification/Hash_Map.thy ===== *)
theory Hash_Map
  imports Prelude
begin

text \<open>
  \<open>std::collections::HashMap<String, V>\<close>.  A map is the association list of its
  entries in iteration order.  The iteration order of a Rust \<open>HashMap\<close> is not
  specified: inserting a new key may rearrange the whole table.  The arrangement is
  the parameter \<open>ord\<close>, a function on key lists; the only fact about it is
  \<open>permutes ord\<close>, that it neither loses nor invents keys.  Replacing the value of a
  present key and removing a key keep the order of the others.

  The locale \<open>string_map\<close> is the contract the storage and the cluster topology rely
  on; it is interpreted below on these definitions.
\<close>

type_synonym 'v hmap = "(string \<times> 'v) list"

definition permutes :: "(string list \<Rightarrow> string list) \<Rightarrow> bool" where
  "permutes ord \<longleftrightarrow> (\<forall>ks. mset (ord ks) = mset ks)"

definition hm_keys :: "'v hmap \<Rightarrow> string list" where
  "hm_keys m = map fst m"

definition hm_wf :: "'v hmap \<Rightarrow> bool" where
  "hm_wf m \<longleftrightarrow> distinct (hm_keys m)"

definition hm_get :: "'v hmap \<Rightarrow> string \<Rightarrow> 'v option" where
  "hm_get m k = map_of m k"

text \<open>Writing through \<open>get_mut\<close>, and \<open>insert\<close> of a present key.\<close>

definition hm_put :: "'v hmap \<Rightarrow> string \<Rightarrow> 'v \<Rightarrow> 'v hmap" where
  "hm_put m k v = map (\<lambda>p. if fst p = k then (k, v) else p) m"

definition hm_arrange :: "(string list \<Rightarrow> string list) \<Rightarrow> 'v hmap \<Rightarrow> 'v hmap" where
  "hm_arrange ord m = map (\<lambda>k. (k, the (map_of m k))) (ord (hm_keys m))"

definition hm_insert :: "(string list \<Rightarrow> string list) \<Rightarrow> 'v hmap \<Rightarrow> string \<Rightarrow> 'v \<Rightarrow> 'v hmap" where
  "hm_insert ord m k v =
     (if k \<in> set (hm_keys m) then hm_put m k v else hm_arrange ord (m @ [(k, v)]))"

definition hm_remove :: "'v hmap \<Rightarrow> string \<Rightarrow> 'v hmap" where
  "hm_remove m k = filter (\<lambda>p. fst p \<noteq> k) m"

lemma hm_get_Nil [simp]: "hm_get [] = Map.empty"
  by (simp add: hm_get_def fun_eq_iff)

lemma hm_wf_Nil [simp]: "hm_wf []"
  by (simp add: hm_wf_def hm_keys_def)

lemma hm_keys_put [simp]: "hm_keys (hm_put m k v) = hm_keys m"
  by (induction m) (auto simp: hm_keys_def hm_put_def)

lemma hm_wf_put [simp]: "hm_wf (hm_put m k v) = hm_wf m"
  by (simp add: hm_wf_def)

lemma hm_get_put: "hm_get (hm_put m k v) k' =
    (if k' = k \<and> k \<in> set (hm_keys m) then Some v else hm_get m k')"
proof (induction m)
  case (Cons p m)
  then show ?case by (cases p; cases "k' = k") (auto simp: hm_get_def hm_put_def hm_keys_def)
qed (simp add: hm_get_def hm_put_def hm_keys_def)

lemma hm_keys_remove: "hm_keys (hm_remove m k) = filter (\<lambda>k'. k' \<noteq> k) (hm_keys m)"
  by (induction m) (auto simp: hm_keys_def hm_remove_def)

lemma hm_wf_remove [simp]: "hm_wf m \<Longrightarrow> hm_wf (hm_remove m k)"
  by (simp add: hm_wf_def hm_keys_remove)

lemma hm_get_remove: "hm_get (hm_remove m k) k' = (if k' = k then None else hm_get m k')"
  by (induction m) (auto simp: hm_get_def hm_remove_def)

lemma hm_get_None: "hm_get m k = None \<longleftrightarrow> k \<notin> set (hm_keys m)"
  by (auto simp: hm_get_def hm_keys_def map_of_eq_None_iff)

lemma hm_get_Some_key: "hm_get m k = Some v \<Longrightarrow> k \<in> set (hm_keys m)"
  by (metis hm_get_None option.distinct(1))

lemma hm_get_in: "hm_get m k = Some v \<Longrightarrow> (k, v) \<in> set m"
  by (simp add: hm_get_def map_of_SomeD)

lemma hm_get_iff: "hm_wf m \<Longrightarrow> hm_get m k = Some v \<longleftrightarrow> (k, v) \<in> set m"
  by (simp add: hm_get_def hm_wf_def hm_keys_def)

lemma mset_arrange:
  assumes "permutes ord" "hm_wf m"
  shows "mset (hm_arrange ord m) = mset m"
proof -
  let ?f = "\<lambda>k. (k, the (map_of m k))"
  have "mset (hm_arrange ord m) = mset (map ?f (hm_keys m))"
    using assms(1) by (simp add: hm_arrange_def permutes_def)
  also have "map ?f (hm_keys m) = m"
    using assms(2) by (auto simp: hm_wf_def hm_keys_def intro!: map_idI)
  finally show ?thesis .
qed

lemma mset_insert_new:
  assumes "permutes ord" "hm_wf m" "k \<notin> set (hm_keys m)"
  shows "mset (hm_insert ord m k v) = add_mset (k, v) (mset m)"
proof -
  have "hm_wf (m @ [(k, v)])" using assms(2,3) by (auto simp: hm_wf_def hm_keys_def)
  then show ?thesis using assms mset_arrange [of ord "m @ [(k, v)]"] by (simp add: hm_insert_def)
qed

lemma hm_wf_insert:
  assumes "permutes ord" "hm_wf m"
  shows "hm_wf (hm_insert ord m k v)"
proof (cases "k \<in> set (hm_keys m)")
  case True
  then show ?thesis using assms by (simp add: hm_insert_def)
next
  case False
  have "distinct (map fst (m @ [(k, v)]))" using assms(2) False by (auto simp: hm_wf_def hm_keys_def)
  moreover have "mset (hm_insert ord m k v) = mset (m @ [(k, v)])"
    using mset_insert_new [OF assms False, of v] by simp
  ultimately have "distinct (map fst (hm_insert ord m k v))"
    by (metis mset_eq_distinct_map_fst)
  then show ?thesis by (simp add: hm_wf_def hm_keys_def)
qed

lemma hm_get_insert:
  assumes "permutes ord" "hm_wf m"
  shows "hm_get (hm_insert ord m k v) k' = (if k' = k then Some v else hm_get m k')"
proof (cases "k \<in> set (hm_keys m)")
  case True
  then show ?thesis by (simp add: hm_insert_def hm_get_put)
next
  case False
  have d: "distinct (map fst (m @ [(k, v)]))" using assms(2) False by (auto simp: hm_wf_def hm_keys_def)
  have "mset (hm_insert ord m k v) = mset (m @ [(k, v)])"
    using mset_insert_new [OF assms False, of v] by simp
  then have "map_of (hm_insert ord m k v) = map_of (m @ [(k, v)])"
    using d map_of_eq_of_mset_eq by blast
  moreover have "map_of m k = None" using False by (simp add: hm_keys_def map_of_eq_None_iff)
  ultimately show ?thesis by (auto simp: hm_get_def map_add_def split: option.split)
qed

lemma hm_keys_insert:
  assumes "permutes ord" "hm_wf m"
  shows "set (hm_keys (hm_insert ord m k v)) = insert k (set (hm_keys m))"
proof -
  have "k' \<in> set (hm_keys (hm_insert ord m k v)) \<longleftrightarrow> k' \<in> insert k (set (hm_keys m))" for k'
    using hm_get_insert [OF assms, of k v k'] hm_get_None [of _ k'] by (metis insert_iff option.simps(3))
  then show ?thesis by blast
qed

lemma hm_forall_insert:
  assumes "permutes ord" "hm_wf m" "\<forall>(i, n) \<in> set m. Q i n" "Q k v"
  shows "\<forall>(i, n) \<in> set (hm_insert ord m k v). Q i n"
proof -
  have "Q i n" if "(i, n) \<in> set (hm_insert ord m k v)" for i n
  proof -
    have "hm_get (hm_insert ord m k v) i = Some n"
      using hm_get_iff [OF hm_wf_insert [OF assms(1,2)]] that by blast
    then show ?thesis
      using hm_get_insert [OF assms(1,2), of k v i] hm_get_in [of m i n] assms(3,4) by (auto split: if_splits)
  qed
  then show ?thesis by blast
qed

section \<open>Sums over the entries\<close>

definition hm_sum :: "('v \<Rightarrow> 'b::ab_group_add) \<Rightarrow> 'v hmap \<Rightarrow> 'b" where
  "hm_sum f m = sum_list (map (f \<circ> snd) m)"

lemma hm_sum_Nil [simp]: "hm_sum f [] = 0"
  by (simp add: hm_sum_def)

lemma hm_sum_remove_absent: "hm_get m k = None \<Longrightarrow> hm_sum f (hm_remove m k) = hm_sum f m"
  by (induction m) (auto simp: hm_sum_def hm_remove_def hm_get_def split: if_splits)

lemma hm_remove_absent: "hm_get m k = None \<Longrightarrow> hm_remove m k = m"
  by (induction m) (auto simp: hm_remove_def hm_get_def split: if_splits)

lemma hm_sum_remove:
  assumes "hm_wf m" "hm_get m k = Some v"
  shows "hm_sum f (hm_remove m k) = hm_sum f m - f v"
  using assms
proof (induction m)
  case (Cons p m)
  obtain k' v' where p: "p = (k', v')" by (cases p)
  show ?case
  proof (cases "k' = k")
    case True
    then have "hm_get m k = None" using Cons p by (auto simp: hm_wf_def hm_keys_def hm_get_def map_of_eq_None_iff)
    then show ?thesis using Cons p True hm_remove_absent [of m k]
      by (auto simp: hm_sum_def hm_remove_def hm_get_def)
  next
    case False
    then show ?thesis using Cons p
      by (auto simp: hm_sum_def hm_remove_def hm_get_def hm_wf_def hm_keys_def algebra_simps)
  qed
qed simp

lemma hm_put_absent: "k \<notin> set (hm_keys m) \<Longrightarrow> hm_put m k v = m"
  by (induction m) (auto simp: hm_put_def hm_keys_def)

lemma hm_sum_put:
  assumes "hm_wf m" "hm_get m k = Some v"
  shows "hm_sum f (hm_put m k w) = hm_sum f m - f v + f w"
  using assms
proof (induction m)
  case (Cons p m)
  obtain k' v' where p: "p = (k', v')" by (cases p)
  show ?case
  proof (cases "k' = k")
    case True
    then have "k \<notin> set (hm_keys m)" using Cons p by (auto simp: hm_wf_def hm_keys_def)
    then show ?thesis using Cons p True hm_put_absent [of k m]
      by (auto simp: hm_sum_def hm_put_def hm_get_def)
  next
    case False
    then show ?thesis using Cons p
      by (auto simp: hm_sum_def hm_put_def hm_get_def hm_wf_def hm_keys_def algebra_simps)
  qed
qed simp

lemma hm_sum_insert_new:
  assumes "permutes ord" "hm_wf m" "hm_get m k = None"
  shows "hm_sum f (hm_insert ord m k v) = hm_sum f m + f v"
proof -
  have "mset (hm_insert ord m k v) = mset ((k, v) # m)"
    using mset_insert_new [OF assms(1,2)] assms(3) by (simp add: hm_get_None)
  from sum_list_mset_eq [OF this, of "f \<circ> snd"] show ?thesis by (simp add: hm_sum_def algebra_simps)
qed

lemma hm_sum_insert:
  assumes "permutes ord" "hm_wf m"
  shows "hm_sum f (hm_insert ord m k v) =
    hm_sum f m - (case hm_get m k of None \<Rightarrow> 0 | Some old \<Rightarrow> f old) + f v"
proof (cases "hm_get m k")
  case None
  then show ?thesis using hm_sum_insert_new [OF assms None] by simp
next
  case (Some old)
  then show ?thesis
    using hm_sum_put [OF assms(2) Some] hm_get_Some_key [OF Some] by (simp add: hm_insert_def)
qed

lemma length_hm_remove:
  assumes "hm_wf m" "hm_get m k = Some v"
  shows "Suc (length (hm_remove m k)) = length m"
proof -
  have "hm_sum (\<lambda>_. 1 :: int) n = int (length n)" for n :: "'a hmap"
    by (induction n) (auto simp: hm_sum_def)
  then show ?thesis using hm_sum_remove [OF assms, of "\<lambda>_. 1 :: int"] by simp
qed

lemma length_hm_remove_less:
  assumes "hm_get m k = Some v"
  shows "length (hm_remove m k) < length m"
  using hm_get_in [OF assms] unfolding hm_remove_def by (intro length_filter_less) auto

section \<open>The contract\<close>

locale string_map =
  fixes lkp :: "'m \<Rightarrow> string \<Rightarrow> 'v option"
    and ins :: "'m \<Rightarrow> string \<Rightarrow> 'v \<Rightarrow> 'm"
    and rem :: "'m \<Rightarrow> string \<Rightarrow> 'm"
    and ok :: "'m \<Rightarrow> bool"
  assumes lkp_ins: "ok m \<Longrightarrow> lkp (ins m k v) k' = (if k' = k then Some v else lkp m k')"
    and lkp_rem: "ok m \<Longrightarrow> lkp (rem m k) k' = (if k' = k then None else lkp m k')"
    and ok_ins: "ok m \<Longrightarrow> ok (ins m k v)"
    and ok_rem: "ok m \<Longrightarrow> ok (rem m k)"
begin

lemma ins_fun: "ok m \<Longrightarrow> lkp (ins m k v) = (lkp m)(k \<mapsto> v)"
  by (rule ext) (simp add: lkp_ins)

lemma rem_fun: "ok m \<Longrightarrow> lkp (rem m k) = (lkp m)(k := None)"
  by (rule ext) (simp add: lkp_rem)

lemma dom_ins: "ok m \<Longrightarrow> dom (lkp (ins m k v)) = insert k (dom (lkp m))"
  by (simp add: ins_fun)

lemma ins_overwrites: "ok m \<Longrightarrow> lkp (ins (ins m k v) k w) = lkp (ins m k w)"
  by (simp add: ins_fun ok_ins)

end

interpretation hm: string_map hm_get "hm_insert ord" hm_remove "\<lambda>m. permutes ord \<and> hm_wf m" for ord
  by unfold_locales (auto simp: hm_get_insert hm_get_remove hm_wf_insert)

end
