(* ===== verification/Storage.thy ===== *)
theory Storage
  imports Hash_Map
begin

unbundle bit_operations_syntax

text \<open>
  \<open>src/storage\<close>: the entry, the sharded database with its memory accounting, lazy and
  active expiry, LRU eviction, and the background expiry task.

  A shard is the \<open>HashMap\<close> of one \<open>RwLock\<close>; each Rust operation is the sequence of its
  critical sections (\<open>get_hit\<close> and \<open>get_lazy\<close> for \<open>get\<close>, \<open>purge_scan\<close> and
  \<open>purge_remove\<close> for \<open>purge_expired_sample\<close>, and so on), composed here as one thread
  executes them.  \<open>used_memory\<close> is an \<open>AtomicUsize\<close>: \<open>fetch_add\<close> and \<open>fetch_sub\<close>
  wrap modulo \<open>2 ^ 64\<close>, as word arithmetic does.
\<close>

section \<open>Entries\<close>

record entry =
  entry_value :: bytes
  expires_at :: "instant option"
  last_accessed :: instant
  approx_size_bytes :: usize

definition entry_new :: "platform \<Rightarrow> instant \<Rightarrow> nat \<Rightarrow> bytes \<Rightarrow> instant option \<Rightarrow> entry" where
  "entry_new P now key_len v expires =
     \<lparr>entry_value = v, expires_at = expires, last_accessed = now,
      approx_size_bytes = of_nat key_len + of_nat (length v) + size_of_entry P\<rparr>"

definition is_expired :: "instant \<Rightarrow> entry \<Rightarrow> bool" where
  "is_expired now e = (case expires_at e of Some t \<Rightarrow> now \<ge> t | None \<Rightarrow> False)"

definition touch :: "instant \<Rightarrow> entry \<Rightarrow> entry" where
  "touch now e = e\<lparr>last_accessed := now\<rparr>"

section \<open>The database\<close>

record db =
  shards :: "entry hmap list"
  shard_mask :: usize
  used_memory :: usize
  max_memory_bytes :: usize

function next_pow2_from :: "nat \<Rightarrow> nat \<Rightarrow> nat" where
  "next_pow2_from k n = (if n \<le> 2 ^ k then 2 ^ k else next_pow2_from (Suc k) n)"
  by pat_completeness auto
termination
proof (relation "measure (\<lambda>(k, n). n - k)")
  fix k n :: nat assume "\<not> n \<le> 2 ^ k"
  moreover have "k < 2 ^ k" by simp
  ultimately have "k < n" by linarith
  then show "((Suc k, n), k, n) \<in> measure (\<lambda>(k, n). n - k)" by simp
qed simp

declare next_pow2_from.simps [simp del]

definition next_power_of_two :: "nat \<Rightarrow> nat" where
  "next_power_of_two n = next_pow2_from 0 n"

definition with_config :: "nat \<Rightarrow> usize \<Rightarrow> db" where
  "with_config shard_count max_memory =
     (let cnt = next_power_of_two (max shard_count 1)
      in \<lparr>shards = replicate cnt [], shard_mask = of_nat (cnt - 1), used_memory = 0,
          max_memory_bytes = max_memory\<rparr>)"

definition db_new :: db where
  "db_new = with_config 128 0"

definition shard_index :: "platform \<Rightarrow> db \<Rightarrow> string \<Rightarrow> nat" where
  "shard_index P d key = unat (hash_str P key AND shard_mask d)"

text \<open>
  \<open>shard.remove(key)\<close> on shard \<open>i\<close> followed by \<open>used_memory.fetch_sub(sz)\<close>: the
  removal that \<open>get\<close>, \<open>del\<close>, \<open>purge_expired_sample\<close> and
  \<open>ensure_memory_capacity\<close> perform under the shard's write lock.
\<close>

definition remove_entry :: "nat \<Rightarrow> string \<Rightarrow> usize \<Rightarrow> db \<Rightarrow> db" where
  "remove_entry i key sz d =
     d\<lparr>shards := (shards d)[i := hm_remove (shards d ! i) key],
       used_memory := used_memory d - sz\<rparr>"

text \<open>
  \<open>Db::get\<close>, first critical section: \<open>Some r\<close> is the return of \<open>r\<close>, \<open>None\<close> falls
  through to the second section.
\<close>

definition get_hit :: "platform \<Rightarrow> clock \<Rightarrow> string \<Rightarrow> db \<Rightarrow> bytes option option \<times> db" where
  "get_hit P clk key d =
     (let idx = shard_index P d key; shard = shards d ! idx
      in case hm_get shard key of
           Some e \<Rightarrow>
             if \<not> is_expired (clk 0) e
             then (Some (Some (entry_value e)),
                   d\<lparr>shards := (shards d)[idx := hm_put shard key (touch (clk 1) e)]\<rparr>)
             else (None, d)
         | None \<Rightarrow> (Some None, d))"

text \<open>\<open>Db::get\<close>, second critical section: lazy cleanup of an expired key.\<close>

definition get_lazy :: "platform \<Rightarrow> instant \<Rightarrow> string \<Rightarrow> db \<Rightarrow> db" where
  "get_lazy P now key d =
     (let idx = shard_index P d key; shard = shards d ! idx
      in case hm_get shard key of
           Some e \<Rightarrow>
             if is_expired now e
             then remove_entry idx key (approx_size_bytes e) d
             else d
         | None \<Rightarrow> d)"

definition db_get :: "platform \<Rightarrow> clock \<Rightarrow> string \<Rightarrow> db \<Rightarrow> bytes option \<times> db" where
  "db_get P clk key d =
     (case get_hit P clk key d of
        (Some r, d') \<Rightarrow> (r, d')
      | (None, d') \<Rightarrow> (None, get_lazy P (clk 2) key d'))"

definition db_exists :: "platform \<Rightarrow> clock \<Rightarrow> string \<Rightarrow> db \<Rightarrow> bool \<times> db" where
  "db_exists P clk key d = (case db_get P clk key d of (r, d') \<Rightarrow> (r \<noteq> None, d'))"

definition db_del :: "platform \<Rightarrow> string \<Rightarrow> db \<Rightarrow> bool \<times> db" where
  "db_del P key d =
     (let idx = shard_index P d key; shard = shards d ! idx
      in case hm_get shard key of
           Some e \<Rightarrow> (True, remove_entry idx key (approx_size_bytes e) d)
         | None \<Rightarrow> (False, d))"

definition db_keys :: "instant \<Rightarrow> db \<Rightarrow> string list" where
  "db_keys now d =
     concat (map (\<lambda>shard. map fst (filter (\<lambda>p. case expires_at (snd p) of
                                             None \<Rightarrow> True | Some t \<Rightarrow> t > now) shard))
               (shards d))"

definition memory_used :: "db \<Rightarrow> usize" where
  "memory_used d = used_memory d"

subsection \<open>Active expiry\<close>

definition purge_scan :: "instant \<Rightarrow> nat \<Rightarrow> entry hmap \<Rightarrow> (string \<times> usize) list" where
  "purge_scan now sample shard =
     map (\<lambda>(k, e). (k, approx_size_bytes e))
       (filter (\<lambda>(k, e). case expires_at e of None \<Rightarrow> False | Some t \<Rightarrow> t \<le> now)
         (take sample shard))"

text \<open>The loop over \<open>keys_to_remove\<close>, under the write lock of shard \<open>i\<close>.\<close>

fun purge_remove :: "nat \<Rightarrow> (string \<times> usize) list \<Rightarrow> nat \<times> db \<Rightarrow> nat \<times> db" where
  "purge_remove i [] s = s"
| "purge_remove i ((k, sz) # rest) (purged, d) =
     purge_remove i rest
       (if hm_get (shards d ! i) k \<noteq> None
        then (purged + 1, remove_entry i k sz d)
        else (purged, d))"

definition purge_shard :: "instant \<Rightarrow> nat \<Rightarrow> nat \<Rightarrow> nat \<times> db \<Rightarrow> nat \<times> db" where
  "purge_shard now sample i s =
     (let keys_to_remove = purge_scan now sample (shards (snd s) ! i)
      in if keys_to_remove \<noteq> [] then purge_remove i keys_to_remove s else s)"

definition purge_expired_sample :: "instant \<Rightarrow> nat \<Rightarrow> db \<Rightarrow> nat \<times> db" where
  "purge_expired_sample now sample d =
     fold (purge_shard now sample) [0..<length (shards d)] (0, d)"

text \<open>
  \<open>run_active_ttl_eviction\<close>: one round per expiry of the sleep; \<open>nows\<close> are the instants
  of the rounds executed so far.
\<close>

definition run_active_ttl_eviction :: "instant list \<Rightarrow> nat \<Rightarrow> db \<Rightarrow> db" where
  "run_active_ttl_eviction nows sample d =
     fold (\<lambda>now d. snd (purge_expired_sample now sample d)) nows d"

subsection \<open>LRU eviction and \<open>set\<close>\<close>

type_synonym oldest = "(nat \<times> string \<times> instant) option"

definition older :: "nat \<Rightarrow> string \<times> entry \<Rightarrow> oldest \<Rightarrow> oldest" where
  "older idx p old =
     (case old of
        None \<Rightarrow> Some (idx, fst p, last_accessed (snd p))
      | Some (_, _, ts) \<Rightarrow>
          if last_accessed (snd p) < ts then Some (idx, fst p, last_accessed (snd p)) else old)"

definition find_oldest :: "entry hmap list \<Rightarrow> oldest" where
  "find_oldest ss =
     fold (\<lambda>(idx, shard) old. fold (older idx) (take 5 shard) old) (enumerate 0 ss) None"

definition entry_count :: "db \<Rightarrow> nat" where
  "entry_count d = sum_list (map length (shards d))"

lemma older_cases: "older idx p old = Some (idx, fst p, last_accessed (snd p)) \<or> older idx p old = old \<and> old \<noteq> None"
  by (auto simp: older_def split: option.splits)

lemma fold_older_index:
  assumes "fold (older idx) ps old = Some (i, k, t)"
  shows "(i = idx \<and> (\<exists>e. (k, e) \<in> set ps \<and> t = last_accessed e)) \<or> old = Some (i, k, t)"
  using assms
proof (induction ps arbitrary: old)
  case (Cons p ps)
  from Cons.IH [of "older idx p old"] Cons.prems older_cases [of idx p old]
  show ?case by (cases p) auto
qed simp

lemma find_oldest_from:
  assumes "fold (\<lambda>(idx, shard) old. fold (older idx) (take 5 shard) old) (enumerate n ss) old = Some (i, k, t)"
  shows "(n \<le> i \<and> i < n + length ss \<and> (\<exists>e. (k, e) \<in> set (take 5 (ss ! (i - n))) \<and> t = last_accessed e))
    \<or> old = Some (i, k, t)"
  using assms
proof (induction ss arbitrary: n old)
  case (Cons s ss)
  let ?old = "fold (older n) (take 5 s) old"
  from Cons.prems have "fold (\<lambda>(idx, shard) old. fold (older idx) (take 5 shard) old) (enumerate (Suc n) ss) ?old
    = Some (i, k, t)" by simp
  from Cons.IH [OF this] consider
    (later) "Suc n \<le> i" "i < Suc n + length ss" "\<exists>e. (k, e) \<in> set (take 5 (ss ! (i - Suc n))) \<and> t = last_accessed e"
    | (here) "?old = Some (i, k, t)" by auto
  then show ?case
  proof cases
    case later
    then have "(s # ss) ! (i - n) = ss ! (i - Suc n)" by (simp add: nth_Cons')
    with later show ?thesis by auto
  next
    case here
    from fold_older_index [OF this] show ?thesis by auto
  qed
qed simp

lemma find_oldest_Some:
  assumes "find_oldest ss = Some (i, k, t)"
  shows "i < length ss \<and> (\<exists>e. (k, e) \<in> set (take 5 (ss ! i)) \<and> t = last_accessed e)"
  using find_oldest_from [of 0 ss None i k t] assms by (simp add: find_oldest_def)

lemma sum_list_update_less:
  fixes xs :: "nat list"
  shows "i < length xs \<Longrightarrow> y < xs ! i \<Longrightarrow> sum_list (xs[i := y]) < sum_list xs"
  by (induction xs arbitrary: i) (auto split: nat.splits)

function ensure_memory_capacity :: "db \<Rightarrow> db" where
  "ensure_memory_capacity d =
     (if used_memory d \<ge> max_memory_bytes d then
        (case find_oldest (shards d) of
           Some (idx, key, _) \<Rightarrow>
             (case hm_get (shards d ! idx) key of
                Some removed \<Rightarrow>
                  ensure_memory_capacity (remove_entry idx key (approx_size_bytes removed) d)
              | None \<Rightarrow> d)
         | None \<Rightarrow> d)
      else d)"
  by pat_completeness auto
termination
proof (relation "measure entry_count")
  fix d :: db and x idx y key t removed
  assume "find_oldest (shards d) = Some x" "(idx, y) = x" "(key, t) = y"
    and get: "hm_get (shards d ! idx) key = Some removed"
  then have "find_oldest (shards d) = Some (idx, key, t)" by simp
  then have "idx < length (shards d)" using find_oldest_Some by blast
  with length_hm_remove_less [OF get]
  show "(remove_entry idx key (approx_size_bytes removed) d, d) \<in> measure entry_count"
    by (simp add: entry_count_def remove_entry_def map_update sum_list_update_less)
qed simp

declare ensure_memory_capacity.simps [simp del]

text \<open>The insertion of \<open>set\<close>, under the write lock of the key's shard.\<close>

definition set_insert :: "platform \<Rightarrow> string \<Rightarrow> entry \<Rightarrow> db \<Rightarrow> db" where
  "set_insert P key new_entry d =
     (let idx = shard_index P d key; shard = shards d ! idx;
          used = (case hm_get shard key of
                    Some old \<Rightarrow> used_memory d - approx_size_bytes old
                  | None \<Rightarrow> used_memory d)
      in d\<lparr>shards := (shards d)[idx := hm_insert (bucket_order P) shard key new_entry],
           used_memory := used + approx_size_bytes new_entry\<rparr>)"

definition db_set :: "platform \<Rightarrow> clock \<Rightarrow> string \<Rightarrow> bytes \<Rightarrow> instant option \<Rightarrow> db \<Rightarrow> db" where
  "db_set P clk key v expires d =
     (let d1 = (if max_memory_bytes d > 0 then ensure_memory_capacity d else d)
      in set_insert P key (entry_new P (clk 0) (length key) v expires) d1)"

end
