(* ===== verification/Storage_Facts.thy ===== *)
theory Storage_Facts
  imports Storage
begin

unbundle bit_operations_syntax

text \<open>
  The invariant of the database and what every operation does to its contents.

  \<open>db_inv\<close> says that the shards partition the keys by the masked hash, that no key is
  stored twice, that every entry carries its own size, and that \<open>used_memory\<close> is the sum
  of the sizes of the stored entries.  \<open>db_lookup\<close> is the contents as a map from keys to
  entries; \<open>db_view\<close> is what a reader sees at an instant.

  The contract the command layer relies on, and the properties, are in \<open>Storage_Contract\<close>.
\<close>

section \<open>The invariant\<close>

definition db_lookup :: "platform \<Rightarrow> db \<Rightarrow> string \<Rightarrow> entry option" where
  "db_lookup P d k = hm_get (shards d ! shard_index P d k) k"

definition db_view :: "platform \<Rightarrow> instant \<Rightarrow> db \<Rightarrow> string \<Rightarrow> bytes option" where
  "db_view P now d k =
     (case db_lookup P d k of
        Some e \<Rightarrow> if is_expired now e then None else Some (entry_value e)
      | None \<Rightarrow> None)"

definition total_size :: "db \<Rightarrow> usize" where
  "total_size d = sum_list (map (hm_sum approx_size_bytes) (shards d))"

definition entry_sized :: "platform \<Rightarrow> string \<Rightarrow> entry \<Rightarrow> bool" where
  "entry_sized P k e \<longleftrightarrow>
     approx_size_bytes e = of_nat (length k) + of_nat (length (entry_value e)) + size_of_entry P"

definition db_shape :: "db \<Rightarrow> bool" where
  "db_shape d \<longleftrightarrow> (\<exists>k \<le> 63. length (shards d) = 2 ^ k \<and> shard_mask d = mask k)"

definition shard_ok :: "platform \<Rightarrow> db \<Rightarrow> nat \<Rightarrow> entry hmap \<Rightarrow> bool" where
  "shard_ok P d i s \<longleftrightarrow> hm_wf s \<and> (\<forall>(k, e) \<in> set s. shard_index P d k = i \<and> entry_sized P k e)"

definition db_inv :: "platform \<Rightarrow> db \<Rightarrow> bool" where
  "db_inv P d \<longleftrightarrow> permutes (bucket_order P) \<and> db_shape d
     \<and> (\<forall>i < length (shards d). shard_ok P d i (shards d ! i))
     \<and> used_memory d = total_size d"

section \<open>Sharding\<close>

lemma next_pow2_from_spec:
  "\<exists>j \<ge> k. next_pow2_from k n = 2 ^ j \<and> n \<le> 2 ^ j \<and> (\<forall>m. k \<le> m \<and> n \<le> 2 ^ m \<longrightarrow> j \<le> m)"
proof (induction k n rule: next_pow2_from.induct)
  case (1 k n)
  show ?case
  proof (cases "n \<le> 2 ^ k")
    case True
    then show ?thesis by (intro exI [of _ k]) (simp add: next_pow2_from.simps [of k n])
  next
    case False
    with 1 obtain j where j: "Suc k \<le> j" "next_pow2_from (Suc k) n = 2 ^ j" "n \<le> 2 ^ j"
      "\<forall>m. Suc k \<le> m \<and> n \<le> 2 ^ m \<longrightarrow> j \<le> m" by blast
    have "j \<le> m" if "k \<le> m" "n \<le> 2 ^ m" for m
      using j(4) that False by (cases "m = k") auto
    with j False show ?thesis by (intro exI [of _ j]) (simp add: next_pow2_from.simps [of k n])
  qed
qed

lemma next_power_of_two_spec:
  "\<exists>j. next_power_of_two n = 2 ^ j \<and> n \<le> 2 ^ j \<and> (\<forall>m. n \<le> 2 ^ m \<longrightarrow> j \<le> m)"
  using next_pow2_from_spec [of 0 n] by (auto simp: next_power_of_two_def)

lemma shard_index_mod:
  assumes "db_shape d"
  shows "shard_index P d k = unat (hash_str P k) mod length (shards d)"
  using assms unat_and_mask by (auto simp: db_shape_def shard_index_def)

lemma shard_index_less [simp]:
  assumes "db_shape d"
  shows "shard_index P d k < length (shards d)"
  using assms by (auto simp: shard_index_mod db_shape_def)

lemma shard_index_cong [simp]:
  "shard_index P (d\<lparr>shards := s\<rparr>) k = shard_index P d k"
  "shard_index P (d\<lparr>used_memory := u\<rparr>) k = shard_index P d k"
  by (simp_all add: shard_index_def)

lemma shard_index_remove_entry [simp]: "shard_index P (remove_entry i k sz d) k' = shard_index P d k'"
  by (simp add: remove_entry_def)

section \<open>Replacing one shard\<close>

lemma db_inv_shape: "db_inv P d \<Longrightarrow> db_shape d"
  by (simp add: db_inv_def)

lemma db_inv_shard: "db_inv P d \<Longrightarrow> i < length (shards d) \<Longrightarrow> shard_ok P d i (shards d ! i)"
  by (simp add: db_inv_def)

lemma db_inv_wf: "db_inv P d \<Longrightarrow> i < length (shards d) \<Longrightarrow> hm_wf (shards d ! i)"
  by (simp add: db_inv_def shard_ok_def)

lemma db_inv_key:
  assumes "db_inv P d" "i < length (shards d)" "hm_get (shards d ! i) k = Some e"
  shows "shard_index P d k = i \<and> entry_sized P k e"
  using db_inv_shard [OF assms(1,2)] hm_get_in [OF assms(3)] by (auto simp: shard_ok_def)

lemma db_inv_update:
  assumes "db_inv P d" "i < length (shards d)" "shard_ok P d i s"
    "u = used_memory d - hm_sum approx_size_bytes (shards d ! i) + hm_sum approx_size_bytes s"
  shows "db_inv P (d\<lparr>shards := (shards d)[i := s], used_memory := u\<rparr>)"
  using assms
  by (auto simp: db_inv_def db_shape_def shard_ok_def total_size_def nth_list_update
      map_update sum_list_update_group [of i _ id, simplified])

lemma db_lookup_update:
  assumes "db_shape d"
  shows "db_lookup P (d\<lparr>shards := (shards d)[i := s], used_memory := u\<rparr>) k =
    (if shard_index P d k = i then hm_get s k else db_lookup P d k)"
  using assms by (auto simp: db_lookup_def nth_list_update)

lemma db_inv_remove_entry:
  assumes "db_inv P d" "i < length (shards d)" "hm_get (shards d ! i) k = Some e"
  shows "db_inv P (remove_entry i k (approx_size_bytes e) d)"
  unfolding remove_entry_def
proof (rule db_inv_update [OF assms(1,2)])
  show "shard_ok P d i (hm_remove (shards d ! i) k)"
    using db_inv_shard [OF assms(1,2)] by (auto simp: shard_ok_def hm_remove_def hm_wf_def hm_keys_def
        distinct_map_filter)
  show "used_memory d - approx_size_bytes e = used_memory d - hm_sum approx_size_bytes (shards d ! i)
      + hm_sum approx_size_bytes (hm_remove (shards d ! i) k)"
    using hm_sum_remove [OF db_inv_wf [OF assms(1,2)] assms(3), of approx_size_bytes] by simp
qed

lemma db_lookup_remove_entry:
  assumes "db_inv P d" "i < length (shards d)" "hm_get (shards d ! i) k = Some e"
  shows "db_lookup P (remove_entry i k sz d) k' = (if k' = k then None else db_lookup P d k')"
  using db_inv_key [OF assms] db_inv_shape [OF assms(1)]
  by (simp add: remove_entry_def db_lookup_update hm_get_remove) (auto simp: db_lookup_def)

lemma remove_entry_frame [simp]:
  "max_memory_bytes (remove_entry i k sz d) = max_memory_bytes d"
  "shard_mask (remove_entry i k sz d) = shard_mask d"
  "length (shards (remove_entry i k sz d)) = length (shards d)"
  "used_memory (remove_entry i k sz d) = used_memory d - sz"
  by (simp_all add: remove_entry_def)

lemma db_lookup_get: "db_shape d \<Longrightarrow> db_lookup P d k = Some e \<Longrightarrow>
    shard_index P d k < length (shards d) \<and> hm_get (shards d ! shard_index P d k) k = Some e"
  by (simp add: db_lookup_def)

section \<open>A new database\<close>

lemma db_inv_with_config:
  assumes "permutes (bucket_order P)" "n \<le> 2 ^ 63"
  shows "db_inv P (with_config n mx)"
proof -
  obtain j where j: "next_power_of_two (max n 1) = 2 ^ j" "\<forall>m. max n 1 \<le> 2 ^ m \<longrightarrow> j \<le> m"
    using next_power_of_two_spec by blast
  have "max n 1 \<le> 2 ^ 63" using assms(2) by simp
  with j have "j \<le> 63" by blast
  then show ?thesis
    using assms(1) j(1)
    by (auto simp: db_inv_def db_shape_def with_config_def Let_def total_size_def shard_ok_def
        mask_eq_exp_minus_1 sum_list_replicate)
qed

lemma db_lookup_with_config:
  assumes "permutes (bucket_order P)" "n \<le> 2 ^ 63"
  shows "db_lookup P (with_config n mx) k = None"
proof -
  have "shards (with_config n mx) ! i = []" if "i < length (shards (with_config n mx))" for i
    using that by (simp add: with_config_def Let_def)
  moreover have "shard_index P (with_config n mx) k < length (shards (with_config n mx))"
    using db_inv_shape [OF db_inv_with_config [OF assms]] by simp
  ultimately show ?thesis by (simp add: db_lookup_def)
qed

section \<open>What the operations do\<close>

lemma is_expired_mono: "is_expired t e \<Longrightarrow> t \<le> t' \<Longrightarrow> is_expired t' e"
  by (auto simp: is_expired_def split: option.splits)

lemma is_expired_touch [simp]: "is_expired t (touch now e) = is_expired t e"
  by (simp add: is_expired_def touch_def)

lemma touch_simps [simp]:
  "entry_value (touch now e) = entry_value e" "expires_at (touch now e) = expires_at e"
  "approx_size_bytes (touch now e) = approx_size_bytes e" "last_accessed (touch now e) = now"
  by (simp_all add: touch_def)

text \<open>The four outcomes of a \<open>get\<close>.\<close>

lemma get_hit_cases:
  assumes "db_shape d"
  shows "get_hit P clk k d =
    (case db_lookup P d k of
       None \<Rightarrow> (Some None, d)
     | Some e \<Rightarrow> if is_expired (clk 0) e then (None, d)
         else (Some (Some (entry_value e)),
               d\<lparr>shards := (shards d)[shard_index P d k :=
                   hm_put (shards d ! shard_index P d k) k (touch (clk 1) e)]\<rparr>))"
  by (simp add: get_hit_def db_lookup_def Let_def split: option.split)

lemma get_lazy_cases:
  "get_lazy P now k d =
    (case db_lookup P d k of
       None \<Rightarrow> d
     | Some e \<Rightarrow> if is_expired now e then remove_entry (shard_index P d k) k (approx_size_bytes e) d else d)"
  by (simp add: get_lazy_def db_lookup_def Let_def split: option.split)

lemma db_get_result:
  assumes "db_inv P d"
  shows "fst (db_get P clk k d) = db_view P (clk 0) d k"
  using db_inv_shape [OF assms]
  by (simp add: db_get_def get_hit_cases db_view_def split: option.split)

lemma shard_ok_put:
  assumes "shard_ok P d i s" "hm_get s k = Some e"
  shows "shard_ok P d i (hm_put s k (touch t e))"
  using assms hm_get_in [OF assms(2)]
  by (auto simp: shard_ok_def hm_put_def entry_sized_def split: if_splits)
     (auto simp: hm_wf_def hm_keys_def comp_def if_distrib cong: if_cong)

lemma db_inv_get_hit:
  assumes "db_inv P d" "db_lookup P d k = Some e"
  shows "db_inv P (d\<lparr>shards := (shards d)[shard_index P d k :=
           hm_put (shards d ! shard_index P d k) k (touch t e)]\<rparr>)"
proof -
  let ?i = "shard_index P d k"
  have i: "?i < length (shards d)" and g: "hm_get (shards d ! ?i) k = Some e"
    using db_lookup_get [OF db_inv_shape [OF assms(1)] assms(2)] by auto
  have "db_inv P (d\<lparr>shards := (shards d)[?i := hm_put (shards d ! ?i) k (touch t e)],
      used_memory := used_memory d\<rparr>)"
  proof (rule db_inv_update [OF assms(1) i])
    show "shard_ok P d ?i (hm_put (shards d ! ?i) k (touch t e))"
      using shard_ok_put [OF db_inv_shard [OF assms(1) i] g] .
    show "used_memory d = used_memory d - hm_sum approx_size_bytes (shards d ! ?i)
        + hm_sum approx_size_bytes (hm_put (shards d ! ?i) k (touch t e))"
      using hm_sum_put [OF db_inv_wf [OF assms(1) i] g, of approx_size_bytes] by simp
  qed
  then show ?thesis by simp
qed

lemma db_inv_get_lazy:
  assumes "db_inv P d"
  shows "db_inv P (get_lazy P now k d)"
  using assms db_inv_remove_entry [OF assms] db_lookup_get [OF db_inv_shape [OF assms]]
  by (auto simp: get_lazy_cases split: option.split)

lemma db_inv_get [inv_intros]:
  assumes "db_inv P d"
  shows "db_inv P (snd (db_get P clk k d))"
  using assms db_inv_shape [OF assms] db_inv_get_lazy [OF assms] db_inv_get_hit [OF assms]
  by (auto simp: db_get_def get_hit_cases split: option.split)

lemma db_lookup_get_lazy:
  assumes "db_inv P d"
  shows "db_lookup P (get_lazy P now k d) k' =
    (if k' = k \<and> (\<exists>e. db_lookup P d k = Some e \<and> is_expired now e) then None else db_lookup P d k')"
  using db_lookup_remove_entry [OF assms] db_lookup_get [OF db_inv_shape [OF assms]]
  by (auto simp: get_lazy_cases split: option.split)

lemma db_lookup_after_get:
  assumes "db_inv P d" "mono clk"
  shows "db_lookup P (snd (db_get P clk k d)) k' =
    (if k' = k then
       (case db_lookup P d k of
          None \<Rightarrow> None
        | Some e \<Rightarrow> if is_expired (clk 0) e then None else Some (touch (clk 1) e))
     else db_lookup P d k')"
proof (cases "db_lookup P d k")
  case None
  then show ?thesis using db_inv_shape [OF assms(1)] by (simp add: db_get_def get_hit_cases)
next
  case (Some e)
  note shape = db_inv_shape [OF assms(1)]
  show ?thesis
  proof (cases "is_expired (clk 0) e")
    case True
    have "is_expired (clk 2) e" using True monoD [OF assms(2), of 0 2] is_expired_mono by simp
    then show ?thesis using True Some shape db_lookup_get_lazy [OF assms(1)]
      by (simp add: db_get_def get_hit_cases)
  next
    case False
    let ?i = "shard_index P d k"
    have "k \<in> set (hm_keys (shards d ! ?i))" using Some hm_get_Some_key by (auto simp: db_lookup_def)
    then show ?thesis
      using False Some shape db_lookup_update [OF shape, where P = P and i = ?i and u = "used_memory d" and k = k']
      by (auto simp: db_get_def get_hit_cases hm_get_put db_lookup_def [of P d])
  qed
qed

lemma db_del_result: "fst (db_del P k d) \<longleftrightarrow> db_lookup P d k \<noteq> None"
  by (simp add: db_del_def db_lookup_def Let_def split: option.split)

lemma db_inv_del [inv_intros]:
  assumes "db_inv P d"
  shows "db_inv P (snd (db_del P k d))"
  using assms db_inv_shape [OF assms] db_inv_remove_entry [OF assms]
  by (auto simp: db_del_def Let_def split: option.split)

lemma db_lookup_after_del:
  assumes "db_inv P d"
  shows "db_lookup P (snd (db_del P k d)) k' = (if k' = k then None else db_lookup P d k')"
  using db_inv_shape [OF assms] db_lookup_remove_entry [OF assms]
  by (auto simp: db_del_def Let_def db_lookup_def [of P d k] split: option.split)

section \<open>Insertion\<close>

lemma shard_ok_insert:
  assumes "permutes (bucket_order P)" "shard_ok P d i s" "shard_index P d k = i" "entry_sized P k e"
  shows "shard_ok P d i (hm_insert (bucket_order P) s k e)"
proof -
  have wf: "hm_wf s" using assms(2) by (simp add: shard_ok_def)
  have wf': "hm_wf (hm_insert (bucket_order P) s k e)" by (rule hm_wf_insert [OF assms(1) wf])
  have "(k', e') = (k, e) \<or> (k', e') \<in> set s" if "(k', e') \<in> set (hm_insert (bucket_order P) s k e)" for k' e'
    using that hm_get_iff [OF wf'] hm_get_insert [OF assms(1) wf, of k e k'] hm_get_iff [OF wf]
    by (metis option.inject)
  then show ?thesis using wf' assms(2-4) by (fastforce simp: shard_ok_def)
qed

lemma db_inv_set_insert:
  assumes "db_inv P d" "entry_sized P k e"
  shows "db_inv P (set_insert P k e d)"
proof -
  let ?i = "shard_index P d k"
  have p: "permutes (bucket_order P)" and i: "?i < length (shards d)"
    using assms(1) by (simp_all add: db_inv_def)
  note wf = db_inv_wf [OF assms(1) i]
  show ?thesis
    unfolding set_insert_def Let_def
    using shard_ok_insert [OF p db_inv_shard [OF assms(1) i] refl assms(2)]
      hm_sum_insert [OF p wf, of approx_size_bytes k e]
    by (intro db_inv_update [OF assms(1) i]) (auto split: option.split)
qed

lemma db_lookup_set_insert:
  assumes "db_inv P d"
  shows "db_lookup P (set_insert P k e d) k' = (if k' = k then Some e else db_lookup P d k')"
proof -
  let ?i = "shard_index P d k"
  have p: "permutes (bucket_order P)" and i: "?i < length (shards d)"
    using assms(1) by (simp_all add: db_inv_def)
  show ?thesis
    using hm_get_insert [OF p db_inv_wf [OF assms i], of k e k'] db_inv_shape [OF assms]
    by (simp add: set_insert_def Let_def db_lookup_update) (auto simp: db_lookup_def)
qed

lemma entry_new_sized [simp]: "entry_sized P k (entry_new P now (length k) v x)"
  by (simp add: entry_sized_def entry_new_def)

end
