(* ===== verification/Storage_Evict.thy ===== *)
theory Storage_Evict
  imports Storage_Facts
begin

text \<open>
  Eviction and expiry: the loop of \<open>ensure_memory_capacity\<close> refines a sequence of
  least-recently-used removals, \<open>set\<close> on top of it, the purge of expired keys, and the
  listing of keys.

  Sizes are summed twice: \<open>total_size\<close> (in \<open>db_inv\<close>) at machine width and
  \<open>total_bytes\<close> without wrap-around, as an integer; they agree while the total is
  below \<open>2 ^ 64\<close>.
\<close>

definition total_bytes :: "db \<Rightarrow> int" where
  "total_bytes d = sum_list (map (hm_sum (\<lambda>e. uint (approx_size_bytes e))) (shards d))"

text \<open>The entries the eviction loop looks at: the first five of each shard.\<close>

definition sampled :: "db \<Rightarrow> (string \<times> entry) set" where
  "sampled d = (\<Union>s \<in> set (shards d). set (take 5 s))"

text \<open>
  The specification of eviction: as long as the limit is reached, drop a sampled key that
  no sampled key was accessed before; \<open>ks\<close> are the dropped keys in order.
\<close>

inductive lru_evicts :: "platform \<Rightarrow> db \<Rightarrow> string list \<Rightarrow> db \<Rightarrow> bool" for P where
  lru_done: "lru_evicts P d [] d"
| lru_step: "lru_evicts P d (k # ks) d''"
  if "used_memory d \<ge> max_memory_bytes d" "(k, e) \<in> sampled d"
    "\<forall>(k', e') \<in> sampled d. last_accessed e \<le> last_accessed e'"
    "d' = remove_entry (shard_index P d k) k (approx_size_bytes e) d"
    "lru_evicts P d' ks d''"

section \<open>The victim\<close>

definition oldest_time :: "oldest \<Rightarrow> instant \<Rightarrow> bool" where
  "oldest_time old t \<longleftrightarrow> (\<exists>i k t'. old = Some (i, k, t') \<and> t' \<le> t)"

lemma oldest_time_older: "oldest_time old t \<Longrightarrow> oldest_time (older idx p old) t"
  by (auto simp: oldest_time_def older_def)

lemma oldest_time_older_self: "oldest_time (older idx p old) (last_accessed (snd p))"
  by (auto simp: oldest_time_def older_def split: option.split)

lemma fold_older_time:
  "oldest_time old t \<or> (\<exists>p \<in> set ps. t = last_accessed (snd p)) \<Longrightarrow> oldest_time (fold (older idx) ps old) t"
proof (induction ps arbitrary: old)
  case (Cons p ps)
  have "oldest_time (older idx p old) t \<or> (\<exists>p \<in> set ps. t = last_accessed (snd p))"
    using Cons.prems oldest_time_older [of old t idx p] oldest_time_older_self [of idx p old] by auto
  from Cons.IH [OF this] show ?case by simp
qed simp

lemma find_oldest_time_from:
  "oldest_time old t \<or> (\<exists>s \<in> set ss. \<exists>p \<in> set (take 5 s). t = last_accessed (snd p)) \<Longrightarrow>
   oldest_time (fold (\<lambda>(idx, shard) old. fold (older idx) (take 5 shard) old) (enumerate n ss) old) t"
proof (induction ss arbitrary: n old)
  case (Cons s ss)
  have "oldest_time (fold (older n) (take 5 s) old) t
      \<or> (\<exists>s \<in> set ss. \<exists>p \<in> set (take 5 s). t = last_accessed (snd p))"
    using Cons.prems fold_older_time [of old t "take 5 s" n] by auto
  from Cons.IH [OF this, of "Suc n"] show ?case by simp
qed simp

lemma find_oldest_minimal:
  assumes "find_oldest (shards d) = Some (i, k, t)" "(k', e') \<in> sampled d"
  shows "t \<le> last_accessed e'"
proof -
  have "\<exists>s \<in> set (shards d). \<exists>p \<in> set (take 5 s). last_accessed e' = last_accessed (snd p)"
    using assms(2) by (force simp: sampled_def)
  then have "oldest_time (find_oldest (shards d)) (last_accessed e')"
    using find_oldest_time_from [of None "last_accessed e'" "shards d" 0] by (simp add: find_oldest_def)
  then show ?thesis using assms(1) by (simp add: oldest_time_def)
qed

lemma find_oldest_None: "find_oldest (shards d) = None \<Longrightarrow> s \<in> set (shards d) \<Longrightarrow> s = []"
proof (rule ccontr)
  assume n: "find_oldest (shards d) = None" and s: "s \<in> set (shards d)" "s \<noteq> []"
  then obtain p where "p \<in> set (take 5 s)" by (cases s) auto
  then have "oldest_time (find_oldest (shards d)) (last_accessed (snd p))"
    using find_oldest_time_from [of None "last_accessed (snd p)" "shards d" 0] s(1)
    by (auto simp: find_oldest_def)
  then show False using n by (simp add: oldest_time_def)
qed

lemma find_oldest_victim:
  assumes "db_inv P d" "find_oldest (shards d) = Some (i, k, t)"
  obtains e where "i < length (shards d)" "hm_get (shards d ! i) k = Some e" "i = shard_index P d k"
    "(k, e) \<in> sampled d" "t = last_accessed e" "db_lookup P d k = Some e"
proof -
  from find_oldest_Some [OF assms(2)] obtain e where
    i: "i < length (shards d)" and e: "(k, e) \<in> set (take 5 (shards d ! i))" and t: "t = last_accessed e"
    by blast
  have g: "hm_get (shards d ! i) k = Some e"
    using hm_get_iff [OF db_inv_wf [OF assms(1) i], of k e] in_set_takeD [OF e] by simp
  have ix: "shard_index P d k = i" using db_inv_key [OF assms(1) i g] by simp
  moreover have "(k, e) \<in> sampled d" using i e by (auto simp: sampled_def)
  ultimately show ?thesis using i g t by (intro that [of e]) (simp_all add: db_lookup_def)
qed

section \<open>The eviction loop\<close>

text \<open>One iteration, in terms of the contents.\<close>

lemma ensure_memory_capacity_unfold:
  assumes "db_inv P d"
  shows "ensure_memory_capacity d =
    (if used_memory d \<ge> max_memory_bytes d then
       (case find_oldest (shards d) of
          Some (i, k, _) \<Rightarrow> ensure_memory_capacity
             (remove_entry i k (approx_size_bytes (the (db_lookup P d k))) d)
        | None \<Rightarrow> d)
     else d)"
proof (cases "find_oldest (shards d)")
  case None
  then show ?thesis by (simp add: ensure_memory_capacity.simps [of d])
next
  case (Some x)
  obtain i k t where x: "x = (i, k, t)" by (cases x)
  obtain e where "hm_get (shards d ! i) k = Some e" "db_lookup P d k = Some e"
    using find_oldest_victim [OF assms] Some x by metis
  then show ?thesis using Some x by (simp add: ensure_memory_capacity.simps [of d])
qed

text \<open>
  Induction over the iterations of the loop: to show \<open>Q d (ensure_memory_capacity d)\<close>,
  show it for the three ways the loop stops or goes on.
\<close>

lemma ensure_induct [consumes 1, case_names stop empty evict]:
  assumes "db_inv P d"
    and stop: "\<And>d. db_inv P d \<Longrightarrow> used_memory d < max_memory_bytes d \<Longrightarrow> Q d d"
    and empty: "\<And>d. db_inv P d \<Longrightarrow> used_memory d \<ge> max_memory_bytes d \<Longrightarrow>
      (\<And>s. s \<in> set (shards d) \<Longrightarrow> s = []) \<Longrightarrow> Q d d"
    and evict: "\<And>d k e d'. db_inv P d \<Longrightarrow> used_memory d \<ge> max_memory_bytes d \<Longrightarrow>
      (k, e) \<in> sampled d \<Longrightarrow> db_lookup P d k = Some e \<Longrightarrow>
      (\<And>k' e'. (k', e') \<in> sampled d \<Longrightarrow> last_accessed e \<le> last_accessed e') \<Longrightarrow>
      d' = remove_entry (shard_index P d k) k (approx_size_bytes e) d \<Longrightarrow> db_inv P d' \<Longrightarrow>
      (\<And>k'. db_lookup P d' k' = (if k' = k then None else db_lookup P d k')) \<Longrightarrow>
      Q d' (ensure_memory_capacity d') \<Longrightarrow> Q d (ensure_memory_capacity d')"
  shows "Q d (ensure_memory_capacity d)"
  using assms(1)
proof (induction "entry_count d" arbitrary: d rule: less_induct)
  case less
  note unf = ensure_memory_capacity_unfold [OF less.prems]
  show ?case
  proof (cases "used_memory d \<ge> max_memory_bytes d")
    case False
    then show ?thesis using unf stop [OF less.prems] by simp
  next
    case full: True
    show ?thesis
    proof (cases "find_oldest (shards d)")
      case None
      then show ?thesis using unf empty [OF less.prems full find_oldest_None [OF None]] full by simp
    next
      case (Some x)
      obtain i k t where x: "x = (i, k, t)" by (cases x)
      obtain e where v: "i < length (shards d)" "hm_get (shards d ! i) k = Some e" "i = shard_index P d k"
        "(k, e) \<in> sampled d" "t = last_accessed e" "db_lookup P d k = Some e"
        using find_oldest_victim [OF less.prems] Some x by metis
      let ?d = "remove_entry i k (approx_size_bytes e) d"
      have inv: "db_inv P ?d" by (rule db_inv_remove_entry [OF less.prems v(1,2)])
      have "entry_count ?d < entry_count d"
        using v(1) length_hm_remove_less [OF v(2)]
        by (simp add: entry_count_def remove_entry_def map_update sum_list_update_less)
      then have "Q ?d (ensure_memory_capacity ?d)" using less.hyps inv by blast
      moreover have "ensure_memory_capacity d = ensure_memory_capacity ?d"
        using unf full Some x v(6) by simp
      ultimately show ?thesis
        using evict [OF less.prems full v(4,6) _ _ inv] find_oldest_minimal [of d i k t] Some x v(3,5)
          db_lookup_remove_entry [OF less.prems v(1,2)] by simp
    qed
  qed
qed

lemma db_inv_ensure [inv_intros]: "db_inv P d \<Longrightarrow> db_inv P (ensure_memory_capacity d)"
  by (induction rule: ensure_induct)

lemma max_memory_ensure [simp]: "db_inv P d \<Longrightarrow> max_memory_bytes (ensure_memory_capacity d) = max_memory_bytes d"
  by (induction rule: ensure_induct) simp_all

lemma db_lookup_ensure:
  "db_inv P d \<Longrightarrow> db_lookup P (ensure_memory_capacity d) k \<in> {None, db_lookup P d k}"
  by (induction rule: ensure_induct) (auto split: if_splits)

lemma total_size_empty: "(\<And>s. s \<in> set (shards d) \<Longrightarrow> s = []) \<Longrightarrow> total_size d = 0"
proof -
  assume "\<And>s. s \<in> set (shards d) \<Longrightarrow> s = []"
  then have "map (hm_sum approx_size_bytes) (shards d) = map (\<lambda>_. 0) (shards d)"
    by (intro map_cong refl) (metis hm_sum_Nil)
  then have "total_size d = sum_list (map (\<lambda>_. 0) (shards d))" by (simp only: total_size_def)
  then show ?thesis by simp
qed

lemma ensure_below_limit:
  "db_inv P d \<Longrightarrow> max_memory_bytes d > 0 \<Longrightarrow> used_memory (ensure_memory_capacity d) < max_memory_bytes d"
proof (induction rule: ensure_induct)
  case (empty d)
  have "total_size d = 0" by (rule total_size_empty [OF empty(3)])
  then show ?case using empty by (simp add: db_inv_def)
qed simp_all

lemma sampled_lookup:
  assumes "db_inv P d" "(k, e) \<in> sampled d"
  shows "db_lookup P d k = Some e"
proof -
  from assms(2) obtain i where i: "i < length (shards d)" "(k, e) \<in> set (take 5 (shards d ! i))"
    by (auto simp: sampled_def in_set_conv_nth [of _ "shards d"])
  have "hm_get (shards d ! i) k = Some e"
    using hm_get_iff [OF db_inv_wf [OF assms(1) i(1)], of k e] in_set_takeD [OF i(2)] by simp
  then show ?thesis using db_inv_key [OF assms(1) i(1)] by (simp add: db_lookup_def)
qed

lemma lru_evicts_inv:
  "lru_evicts P d ks d' \<Longrightarrow> db_inv P d \<Longrightarrow>
   db_inv P d' \<and> distinct ks \<and> set ks \<subseteq> dom (db_lookup P d)
   \<and> (\<forall>k. db_lookup P d' k = (if k \<in> set ks then None else db_lookup P d k))"
proof (induction rule: lru_evicts.induct)
  case (lru_step d k e d' ks d'')
  have l: "db_lookup P d k = Some e" using sampled_lookup [OF lru_step.prems lru_step.hyps(2)] .
  then have i: "shard_index P d k < length (shards d)" "hm_get (shards d ! shard_index P d k) k = Some e"
    using db_lookup_get [OF db_inv_shape [OF lru_step.prems]] by auto
  have inv: "db_inv P d'" using db_inv_remove_entry [OF lru_step.prems i] lru_step.hyps(4) by simp
  have lk: "db_lookup P d' k' = (if k' = k then None else db_lookup P d k')" for k'
    using db_lookup_remove_entry [OF lru_step.prems i] lru_step.hyps(4) by simp
  have "k \<notin> set ks" using lru_step.IH [OF inv] lk [of k] by auto
  moreover have "dom (db_lookup P d') \<subseteq> dom (db_lookup P d)" using lk by (auto split: if_splits)
  then have "set ks \<subseteq> dom (db_lookup P d)" using lru_step.IH [OF inv] by blast
  ultimately show ?case using lru_step.IH [OF inv] lk l by (auto simp: dom_def)
qed simp

lemma ensure_lru_evicts: "db_inv P d \<Longrightarrow> \<exists>ks. lru_evicts P d ks (ensure_memory_capacity d)"
proof (induction rule: ensure_induct)
  case (evict d k e d')
  then obtain ks where "lru_evicts P d' ks (ensure_memory_capacity d')" by blast
  then have "lru_evicts P d (k # ks) (ensure_memory_capacity d')"
    using evict by (intro lru_step [of d k e d']) auto
  then show ?case by blast
qed (auto intro: lru_done)

section \<open>Memory in bytes\<close>

lemma of_int_hm_sum: "of_int (hm_sum (\<lambda>e. uint (approx_size_bytes e)) s) = hm_sum approx_size_bytes s"
  by (induction s) (simp_all add: hm_sum_def)

lemma total_size_bytes: "total_size d = of_int (total_bytes d)"
proof -
  have "sum_list (map (hm_sum approx_size_bytes) ss)
    = of_int (sum_list (map (hm_sum (\<lambda>e. uint (approx_size_bytes e))) ss))" for ss
    by (induction ss) (simp_all add: of_int_hm_sum)
  then show ?thesis by (simp add: total_size_def total_bytes_def)
qed

lemma hm_sum_uint_nonneg: "hm_sum (\<lambda>e. uint (approx_size_bytes e)) s \<ge> 0"
  by (auto simp: hm_sum_def intro!: sum_list_nonneg)

lemma total_bytes_nonneg: "total_bytes d \<ge> 0"
  by (auto simp: total_bytes_def hm_sum_uint_nonneg intro!: sum_list_nonneg)

lemma used_memory_exact:
  assumes "db_inv P d" "total_bytes d < 2 ^ 64"
  shows "uint (used_memory d) = total_bytes d"
proof -
  have "used_memory d = of_int (total_bytes d)" using assms(1) by (simp add: db_inv_def total_size_bytes)
  then show ?thesis using assms(2) total_bytes_nonneg [of d]
    by (simp add: unsigned_of_int take_bit_int_eq_self)
qed

lemma total_bytes_update:
  assumes "i < length (shards d)"
  shows "total_bytes (d\<lparr>shards := (shards d)[i := s], used_memory := u\<rparr>) =
    total_bytes d - hm_sum (\<lambda>e. uint (approx_size_bytes e)) (shards d ! i)
      + hm_sum (\<lambda>e. uint (approx_size_bytes e)) s"
  using assms by (simp add: total_bytes_def sum_list_update_group)

lemma total_bytes_remove_entry:
  assumes "db_inv P d" "i < length (shards d)" "hm_get (shards d ! i) k = Some e"
  shows "total_bytes (remove_entry i k sz d) = total_bytes d - uint (approx_size_bytes e)"
  using total_bytes_update [OF assms(2)]
    hm_sum_remove [OF db_inv_wf [OF assms(1,2)] assms(3), of "\<lambda>e. uint (approx_size_bytes e)"]
  by (simp add: remove_entry_def)

lemma total_bytes_ensure: "db_inv P d \<Longrightarrow> total_bytes (ensure_memory_capacity d) \<le> total_bytes d"
proof (induction rule: ensure_induct)
  case (evict d k e d')
  have "total_bytes d' = total_bytes d - uint (approx_size_bytes e)"
    using total_bytes_remove_entry [OF evict(1)] db_lookup_get [OF db_inv_shape [OF evict(1)] evict(4)]
      evict(6) by auto
  moreover have "0 \<le> uint (approx_size_bytes e)" by simp
  ultimately show ?case using evict(9) by linarith
qed simp_all

lemma total_bytes_set_insert:
  assumes "db_inv P d"
  shows "total_bytes (set_insert P k e d) =
    total_bytes d - (case db_lookup P d k of None \<Rightarrow> 0 | Some old \<Rightarrow> uint (approx_size_bytes old))
      + uint (approx_size_bytes e)"
proof -
  let ?i = "shard_index P d k"
  have p: "permutes (bucket_order P)" and i: "?i < length (shards d)"
    using assms by (simp_all add: db_inv_def)
  show ?thesis
    using total_bytes_update [OF i]
      hm_sum_insert [OF p db_inv_wf [OF assms i], of "\<lambda>e. uint (approx_size_bytes e)" k e]
    by (simp add: set_insert_def Let_def db_lookup_def)
qed

section \<open>\<open>set\<close>\<close>

text \<open>The database \<open>set\<close> inserts into.\<close>

definition set_room :: "db \<Rightarrow> db" where
  "set_room d = (if max_memory_bytes d > 0 then ensure_memory_capacity d else d)"

lemma db_set_room: "db_set P clk k v x d = set_insert P k (entry_new P (clk 0) (length k) v x) (set_room d)"
  by (simp add: db_set_def set_room_def Let_def)

lemma db_inv_room: "db_inv P d \<Longrightarrow> db_inv P (set_room d)"
  by (simp add: set_room_def db_inv_ensure)

lemma db_inv_set [inv_intros]: "db_inv P d \<Longrightarrow> db_inv P (db_set P clk k v x d)"
  by (simp add: db_set_room db_inv_room db_inv_set_insert)

lemma db_lookup_after_set:
  "db_inv P d \<Longrightarrow> db_lookup P (db_set P clk k v x d) k' =
     (if k' = k then Some (entry_new P (clk 0) (length k) v x) else db_lookup P (set_room d) k')"
  by (simp add: db_set_room db_inv_room db_lookup_set_insert)

lemma db_lookup_room: "db_inv P d \<Longrightarrow> db_lookup P (set_room d) k \<in> {None, db_lookup P d k}"
  using db_lookup_ensure by (simp add: set_room_def)

lemma set_room_id:
  assumes "db_inv P d" "max_memory_bytes d = 0 \<or> used_memory d < max_memory_bytes d"
  shows "set_room d = d"
  using assms ensure_memory_capacity.simps [of d] by (auto simp: set_room_def)

lemma set_insert_frame [simp]: "max_memory_bytes (set_insert P k e d) = max_memory_bytes d"
  by (simp add: set_insert_def Let_def)

lemma max_memory_set [simp]: "db_inv P d \<Longrightarrow> max_memory_bytes (db_set P clk k v x d) = max_memory_bytes d"
  by (simp add: db_set_room set_room_def)

lemma total_bytes_set:
  assumes "db_inv P d" "max_memory_bytes d > 0" "total_bytes d < 2 ^ 64"
  shows "total_bytes (db_set P clk k v x d) <
    uint (max_memory_bytes d) + uint (approx_size_bytes (entry_new P (clk 0) (length k) v x))"
proof -
  let ?d = "ensure_memory_capacity d"
  have inv: "db_inv P ?d" using assms(1) by (rule db_inv_ensure)
  have "total_bytes ?d < 2 ^ 64" using total_bytes_ensure [OF assms(1)] assms(3) by simp
  then have "total_bytes ?d = uint (used_memory ?d)" using used_memory_exact [OF inv] by simp
  also have "\<dots> < uint (max_memory_bytes d)"
    using ensure_below_limit [OF assms(1,2)] by (simp add: word_less_def)
  finally show ?thesis
    using total_bytes_set_insert [OF inv, of k "entry_new P (clk 0) (length k) v x"] assms(2)
    by (auto simp: db_set_room set_room_def split: option.splits
        intro: order.strict_trans1 [rotated])
qed

end
