(* ===== verification/Storage_Purge.thy ===== *)
theory Storage_Purge
  imports Storage_Evict
begin

text \<open>
  Active expiry (\<open>purge_expired_sample\<close>, one round of \<open>run_active_ttl_eviction\<close>) and the
  listing of keys, in terms of the contents of the database.
\<close>

text \<open>The keys a round drops from one shard: the expired ones among the first \<open>sample\<close>.\<close>

definition doomed :: "instant \<Rightarrow> nat \<Rightarrow> entry hmap \<Rightarrow> string set" where
  "doomed now sample s = fst ` set (purge_scan now sample s)"

lemma purge_scan_eq:
  "purge_scan now sample s =
     map (\<lambda>(k, e). (k, approx_size_bytes e)) (filter (\<lambda>(k, e). is_expired now e) (take sample s))"
  by (simp add: purge_scan_def is_expired_def)

lemma map_fst_purge_scan:
  "map fst (purge_scan now sample s) = map fst (filter (\<lambda>(k, e). is_expired now e) (take sample s))"
  by (simp add: purge_scan_eq comp_def case_prod_beta)

lemma distinct_purge_scan:
  assumes "hm_wf s"
  shows "distinct (map fst (purge_scan now sample s))"
proof -
  have "distinct (map fst (take sample s))"
    using assms by (simp add: hm_wf_def hm_keys_def take_map [symmetric] distinct_take)
  then show ?thesis by (simp add: map_fst_purge_scan distinct_map_filter)
qed

lemma purge_scan_present:
  assumes "hm_wf s" "(k, sz) \<in> set (purge_scan now sample s)"
  shows "\<exists>e. hm_get s k = Some e \<and> approx_size_bytes e = sz \<and> is_expired now e"
  using assms in_set_takeD [of _ sample s] by (auto simp: purge_scan_eq hm_get_iff)

lemma doomed_iff:
  assumes "hm_wf s"
  shows "k \<in> doomed now sample s \<longleftrightarrow> (\<exists>e. (k, e) \<in> set (take sample s) \<and> is_expired now e)"
  by (force simp: doomed_def purge_scan_eq)

lemma doomed_expired:
  assumes "hm_wf s" "k \<in> doomed now sample s"
  shows "\<exists>e. hm_get s k = Some e \<and> is_expired now e"
  using assms purge_scan_present [OF assms(1)] by (force simp: doomed_def)

lemma entry_count_remove_entry:
  assumes "db_inv P d" "i < length (shards d)" "hm_get (shards d ! i) k = Some e"
  shows "Suc (entry_count (remove_entry i k sz d)) = entry_count d"
  using sum_list_length_update [OF assms(2), of "hm_remove (shards d ! i) k"]
    length_hm_remove [OF db_inv_wf [OF assms(1,2)] assms(3)]
  by (simp add: entry_count_def remove_entry_def)

lemma shards_remove_entry: "shards (remove_entry i k sz d) = (shards d)[i := hm_remove (shards d ! i) k]"
  by (simp add: remove_entry_def)

text \<open>\<open>d'\<close> is \<open>d\<close> less the \<open>c\<close> entries of the keys \<open>K\<close>.\<close>

definition drops :: "platform \<Rightarrow> db \<Rightarrow> string set \<Rightarrow> nat \<Rightarrow> db \<Rightarrow> bool" where
  "drops P d K c d' \<longleftrightarrow> db_inv P d' \<and> length (shards d') = length (shards d)
     \<and> shard_mask d' = shard_mask d \<and> max_memory_bytes d' = max_memory_bytes d
     \<and> entry_count d' + c = entry_count d
     \<and> (\<forall>k. db_lookup P d' k = (if k \<in> K then None else db_lookup P d k))"

lemma drops_trans: "drops P d K c d1 \<Longrightarrow> drops P d1 K' c' d2 \<Longrightarrow> drops P d (K' \<union> K) (c + c') d2"
  by (auto simp: drops_def)

lemma drops_remove_entry:
  assumes "db_inv P d" "i < length (shards d)" "hm_get (shards d ! i) k = Some e"
  shows "drops P d {k} 1 (remove_entry i k (approx_size_bytes e) d)"
  using db_inv_remove_entry [OF assms] db_lookup_remove_entry [OF assms] entry_count_remove_entry [OF assms]
  by (simp add: drops_def)

text \<open>The removal loop over one shard.\<close>

lemma purge_remove_spec:
  assumes "db_inv P d" "i < length (shards d)" "distinct (map fst ks)"
    "\<forall>(k, sz) \<in> set ks. \<exists>e. hm_get (shards d ! i) k = Some e \<and> approx_size_bytes e = sz"
  shows "\<exists>d'. purge_remove i ks (n, d) = (n + length ks, d') \<and> drops P d (fst ` set ks) (length ks) d'
    \<and> (\<forall>j. j \<noteq> i \<longrightarrow> shards d' ! j = shards d ! j)"
  using assms
proof (induction ks arbitrary: n d)
  case (Cons p ks)
  obtain k sz where p: "p = (k, sz)" by (cases p)
  with Cons.prems obtain e where e: "hm_get (shards d ! i) k = Some e" "approx_size_bytes e = sz" by auto
  let ?d = "remove_entry i k sz d"
  have drop: "drops P d {k} 1 ?d" using drops_remove_entry [OF Cons.prems(1,2) e(1)] e(2) by simp
  have "\<exists>e'. hm_get (shards ?d ! i) k' = Some e' \<and> approx_size_bytes e' = sz'" if "(k', sz') \<in> set ks" for k' sz'
  proof -
    have "k' \<noteq> k" using that Cons.prems(3) p by force
    moreover have "\<exists>e'. hm_get (shards d ! i) k' = Some e' \<and> approx_size_bytes e' = sz'"
      using Cons.prems(4) that by auto
    ultimately show ?thesis using Cons.prems(2) by (simp add: shards_remove_entry hm_get_remove)
  qed
  then have pre: "\<forall>(k', sz') \<in> set ks. \<exists>e. hm_get (shards ?d ! i) k' = Some e \<and> approx_size_bytes e = sz'"
    by blast
  have inv: "db_inv P ?d" using drop by (simp add: drops_def)
  have i: "i < length (shards ?d)" and dist: "distinct (map fst ks)" using Cons.prems(2,3) by simp_all
  from Cons.IH [OF inv i dist pre, of "n + 1"] obtain d' where d':
    "purge_remove i ks (n + 1, ?d) = (n + 1 + length ks, d')" "drops P ?d (fst ` set ks) (length ks) d'"
    "\<forall>j. j \<noteq> i \<longrightarrow> shards d' ! j = shards ?d ! j" by blast
  then show ?case using e(1) p drops_trans [OF drop d'(2)] by (auto simp: shards_remove_entry)
qed (simp add: drops_def)

lemma purge_shard_spec:
  assumes "db_inv P d" "i < length (shards d)"
  shows "\<exists>d' m. purge_shard now sample i (n, d) = (n + m, d')
    \<and> drops P d (doomed now sample (shards d ! i)) m d' \<and> (\<forall>j. j \<noteq> i \<longrightarrow> shards d' ! j = shards d ! j)"
proof -
  let ?ks = "purge_scan now sample (shards d ! i)"
  have wf: "hm_wf (shards d ! i)" by (rule db_inv_wf [OF assms])
  have "purge_shard now sample i (n, d) = purge_remove i ?ks (n, d)"
    by (simp add: purge_shard_def Let_def)
  moreover have "\<forall>(k, sz) \<in> set ?ks. \<exists>e. hm_get (shards d ! i) k = Some e \<and> approx_size_bytes e = sz"
    using purge_scan_present [OF wf] by blast
  ultimately show ?thesis
    using purge_remove_spec [OF assms distinct_purge_scan [OF wf], of now sample n] by (auto simp: doomed_def)
qed

text \<open>A round: the shards below \<open>m\<close> have been purged, the others are untouched.\<close>

lemma purge_rounds_spec:
  assumes "db_inv P d" "m \<le> length (shards d)"
  shows "\<exists>d' c. fold (purge_shard now sample) [0..<m] (0, d) = (c, d')
    \<and> drops P d (\<Union>i < m. doomed now sample (shards d ! i)) c d' \<and> (\<forall>j \<ge> m. shards d' ! j = shards d ! j)"
  using assms(2)
proof (induction m)
  case 0
  then show ?case using assms(1) by (simp add: drops_def)
next
  case (Suc m)
  then obtain d1 c where IH: "fold (purge_shard now sample) [0..<m] (0, d) = (c, d1)"
    "drops P d (\<Union>i < m. doomed now sample (shards d ! i)) c d1" "\<forall>j \<ge> m. shards d1 ! j = shards d ! j" by auto
  have "db_inv P d1" and m: "m < length (shards d1)" using Suc.prems IH(2) by (simp_all add: drops_def)
  from purge_shard_spec [OF this, of now sample c] obtain d2 c' where d2:
    "purge_shard now sample m (c, d1) = (c + c', d2)" "drops P d1 (doomed now sample (shards d1 ! m)) c' d2"
    "\<forall>j. j \<noteq> m \<longrightarrow> shards d2 ! j = shards d1 ! j" by blast
  have "drops P d (\<Union>i < Suc m. doomed now sample (shards d ! i)) (c + c') d2"
    using drops_trans [OF IH(2) d2(2)] IH(3) by (simp add: lessThan_Suc)
  then show ?case using IH(1,3) d2 by simp
qed

lemma purge_spec:
  assumes "db_inv P d"
  shows "db_inv P (snd (purge_expired_sample now sample d))
    \<and> db_lookup P (snd (purge_expired_sample now sample d)) k =
        (if k \<in> doomed now sample (shards d ! shard_index P d k) then None else db_lookup P d k)
    \<and> max_memory_bytes (snd (purge_expired_sample now sample d)) = max_memory_bytes d
    \<and> entry_count (snd (purge_expired_sample now sample d)) + fst (purge_expired_sample now sample d) = entry_count d"
proof -
  have "(\<exists>i < length (shards d). k \<in> doomed now sample (shards d ! i)) \<longleftrightarrow>
      k \<in> doomed now sample (shards d ! shard_index P d k)" (is "?l \<longleftrightarrow> ?r")
  proof
    assume ?l
    then obtain i where i: "i < length (shards d)" "k \<in> doomed now sample (shards d ! i)" by blast
    then obtain e where "hm_get (shards d ! i) k = Some e"
      using doomed_expired [OF db_inv_wf [OF assms i(1)]] by blast
    then show ?r using db_inv_key [OF assms i(1)] i(2) by auto
  next
    assume ?r
    then show ?l using shard_index_less [OF db_inv_shape [OF assms]] by blast
  qed
  then show ?thesis
    using purge_rounds_spec [OF assms order_refl, of now sample]
    by (fastforce simp: purge_expired_sample_def drops_def)
qed

lemma db_inv_purge [inv_intros]: "db_inv P d \<Longrightarrow> db_inv P (snd (purge_expired_sample now sample d))"
  using purge_spec by blast

text \<open>What a reader sees is not changed by a round at an earlier instant.\<close>

lemma db_view_purge:
  assumes "db_inv P d" "now \<le> t"
  shows "db_view P t (snd (purge_expired_sample now sample d)) k = db_view P t d k"
proof (cases "k \<in> doomed now sample (shards d ! shard_index P d k)")
  case True
  have wf: "hm_wf (shards d ! shard_index P d k)"
    by (rule db_inv_wf [OF assms(1)]) (simp add: db_inv_shape [OF assms(1)])
  obtain e where "db_lookup P d k = Some e" "is_expired now e"
    using doomed_expired [OF wf True] by (auto simp: db_lookup_def)
  then show ?thesis using True purge_spec [OF assms(1)] is_expired_mono [OF _ assms(2)]
    by (simp add: db_view_def)
next
  case False
  then show ?thesis using purge_spec [OF assms(1)] by (simp add: db_view_def)
qed

section \<open>Listing\<close>

lemma db_keys_eq: "db_keys now d = concat (map (\<lambda>s. map fst (filter (\<lambda>p. \<not> is_expired now (snd p)) s)) (shards d))"
  by (auto simp: db_keys_def is_expired_def intro!: arg_cong [where f = concat] map_cong filter_cong split: option.split)

lemma set_db_keys:
  assumes "db_inv P d"
  shows "set (db_keys now d) = dom (db_view P now d)"
proof -
  have "k \<in> set (db_keys now d) \<longleftrightarrow> (\<exists>i < length (shards d). \<exists>e. hm_get (shards d ! i) k = Some e \<and> \<not> is_expired now e)"
    (is "_ \<longleftrightarrow> ?stored k") for k
  proof -
    have "k \<in> set (db_keys now d) \<longleftrightarrow> (\<exists>i < length (shards d). \<exists>e. (k, e) \<in> set (shards d ! i) \<and> \<not> is_expired now e)"
      by (force simp: db_keys_eq set_conv_nth [of "shards d"])
    then show ?thesis using hm_get_iff [OF db_inv_wf [OF assms]] by blast
  qed
  moreover have "(\<exists>i < length (shards d). \<exists>e. hm_get (shards d ! i) k = Some e \<and> \<not> is_expired now e)
      \<longleftrightarrow> (\<exists>e. db_lookup P d k = Some e \<and> \<not> is_expired now e)" for k
    using db_inv_key [OF assms] shard_index_less [OF db_inv_shape [OF assms]]
    by (metis db_lookup_def)
  ultimately show ?thesis by (force simp: db_view_def split: option.splits if_splits)
qed

lemma distinct_db_keys:
  assumes "db_inv P d"
  shows "distinct (db_keys now d)"
  unfolding db_keys_eq
proof (rule distinct_concat_index [where g = "shard_index P d" and n = 0])
  fix i assume i: "i < length (shards d)"
  show "distinct (map fst (filter (\<lambda>p. \<not> is_expired now (snd p)) (shards d ! i)))"
    using db_inv_wf [OF assms i] by (simp add: hm_wf_def hm_keys_def distinct_map_filter)
  fix k assume "k \<in> set (map fst (filter (\<lambda>p. \<not> is_expired now (snd p)) (shards d ! i)))"
  then show "shard_index P d k = 0 + i" using db_inv_shard [OF assms i] by (auto simp: shard_ok_def)
qed

end
