(* ===== verification/Storage_Contract.thy ===== *)
theory Storage_Contract
  imports Storage_Purge
begin

text \<open>
  What the storage promises its clients.  The locale \<open>kv_store\<close> is the interface the
  command layer and the replica use (\<open>Db::get\<close>, \<open>Db::set\<close>, \<open>Db::del\<close>) with its laws; it is
  interpreted on the model of \<open>Db\<close>.  \<open>db_reach\<close> are the databases a sequence of operations
  can produce from a new one.  The properties of the storage close the theory.
\<close>

definition visible :: "instant \<Rightarrow> entry option \<Rightarrow> bytes option" where
  "visible now eo = (case eo of Some e \<Rightarrow> if is_expired now e then None else Some (entry_value e) | None \<Rightarrow> None)"

lemma visible_simps [simp]:
  "visible now None = None"
  "visible now (Some e) = (if is_expired now e then None else Some (entry_value e))"
  by (simp_all add: visible_def)

lemma db_view_visible: "db_view P now d k = visible now (db_lookup P d k)"
  by (simp add: db_view_def visible_def)

locale kv_store =
  fixes ok :: "'s \<Rightarrow> bool"
    and stored :: "'s \<Rightarrow> string \<Rightarrow> entry option"
    and kv_get :: "clock \<Rightarrow> string \<Rightarrow> 's \<Rightarrow> bytes option \<times> 's"
    and kv_set :: "clock \<Rightarrow> string \<Rightarrow> bytes \<Rightarrow> instant option \<Rightarrow> 's \<Rightarrow> 's"
    and kv_del :: "string \<Rightarrow> 's \<Rightarrow> bool \<times> 's"
  assumes ok_get: "ok s \<Longrightarrow> ok (snd (kv_get clk k s))"
    and ok_set: "ok s \<Longrightarrow> ok (kv_set clk k v x s)"
    and ok_del: "ok s \<Longrightarrow> ok (snd (kv_del k s))"
    and get_result: "ok s \<Longrightarrow> fst (kv_get clk k s) = visible (clk 0) (stored s k)"
    and get_stored: "ok s \<Longrightarrow> mono clk \<Longrightarrow> clk 0 \<le> t \<Longrightarrow>
      visible t (stored (snd (kv_get clk k s)) k') = visible t (stored s k')"
    and set_same: "ok s \<Longrightarrow> visible t (stored (kv_set clk k v x s) k) =
      (case x of None \<Rightarrow> Some v | Some t' \<Rightarrow> if t' \<le> t then None else Some v)"
    and set_other: "ok s \<Longrightarrow> k' \<noteq> k \<Longrightarrow> stored (kv_set clk k v x s) k' \<in> {None, stored s k'}"
    and del_result: "ok s \<Longrightarrow> fst (kv_del k s) \<longleftrightarrow> stored s k \<noteq> None"
    and del_stored: "ok s \<Longrightarrow> stored (snd (kv_del k s)) k' = (if k' = k then None else stored s k')"
begin

lemma read_own_write:
  "ok s \<Longrightarrow> fst (kv_get clk' k (kv_set clk k v x s)) =
     (case x of None \<Rightarrow> Some v | Some t \<Rightarrow> if t \<le> clk' 0 then None else Some v)"
  by (simp add: get_result ok_set set_same)

lemma read_after_other_write:
  "ok s \<Longrightarrow> k' \<noteq> k \<Longrightarrow>
     fst (kv_get clk' k' (kv_set clk k v x s)) \<in> {None, fst (kv_get clk' k' s)}"
  using set_other [of s k' k clk v x] by (auto simp: get_result ok_set)

lemma read_deleted:
  "ok s \<Longrightarrow> fst (kv_get clk k' (snd (kv_del k s))) = (if k' = k then None else fst (kv_get clk k' s))"
  by (simp add: get_result ok_del del_stored)

lemma reread:
  "ok s \<Longrightarrow> mono clk \<Longrightarrow> clk 0 \<le> clk' 0 \<Longrightarrow>
     fst (kv_get clk' k' (snd (kv_get clk k s))) = fst (kv_get clk' k' s)"
  by (simp add: get_result ok_get get_stored)

end

lemma is_expired_entry_new: "is_expired t (entry_new P now n v x) = (case x of None \<Rightarrow> False | Some t' \<Rightarrow> t' \<le> t)"
  by (simp add: is_expired_def entry_new_def)

lemma entry_value_new [simp]: "entry_value (entry_new P now n v x) = v"
  by (simp add: entry_new_def)

lemma db_visible_after_get:
  assumes "db_inv P d" "mono clk" "clk 0 \<le> t"
  shows "visible t (db_lookup P (snd (db_get P clk k d)) k') = visible t (db_lookup P d k')"
  using db_lookup_after_get [OF assms(1,2)] is_expired_mono [OF _ assms(3)]
  by (auto split: option.split)

interpretation db: kv_store "db_inv P" "db_lookup P" "db_get P" "db_set P" "db_del P" for P
proof unfold_locales
  fix s clk k
  show "db_inv P s \<Longrightarrow> fst (db_get P clk k s) = visible (clk 0) (db_lookup P s k)"
    by (simp add: db_get_result db_view_visible)
next
  fix s t clk k v x
  show "db_inv P s \<Longrightarrow> visible t (db_lookup P (db_set P clk k v x s) k) =
      (case x of None \<Rightarrow> Some v | Some t' \<Rightarrow> if t' \<le> t then None else Some v)"
    by (simp add: db_lookup_after_set is_expired_entry_new split: option.split)
next
  fix s k' k clk v x
  show "db_inv P s \<Longrightarrow> k' \<noteq> k \<Longrightarrow> db_lookup P (db_set P clk k v x s) k' \<in> {None, db_lookup P s k'}"
    using db_lookup_room by (simp add: db_lookup_after_set)
qed (auto simp: db_visible_after_get db_del_result db_lookup_after_del intro: db_inv_get db_inv_set db_inv_del)

section \<open>Reachable databases\<close>

inductive db_reach :: "platform \<Rightarrow> db \<Rightarrow> bool" for P where
  reach_new: "n \<le> 2 ^ 63 \<Longrightarrow> db_reach P (with_config n mx)"
| reach_get: "db_reach P d \<Longrightarrow> db_reach P (snd (db_get P clk k d))"
| reach_exists: "db_reach P d \<Longrightarrow> db_reach P (snd (db_exists P clk k d))"
| reach_set: "db_reach P d \<Longrightarrow> db_reach P (db_set P clk k v x d)"
| reach_del: "db_reach P d \<Longrightarrow> db_reach P (snd (db_del P k d))"
| reach_purge: "db_reach P d \<Longrightarrow> db_reach P (snd (purge_expired_sample now sample d))"

lemma snd_db_exists: "snd (db_exists P clk k d) = snd (db_get P clk k d)"
  by (simp add: db_exists_def split: prod.split)

lemma fst_db_exists: "db_inv P d \<Longrightarrow> fst (db_exists P clk k d) \<longleftrightarrow> visible (clk 0) (db_lookup P d k) \<noteq> None"
  using db.get_result [of P d clk k] by (cases "db_get P clk k d") (simp add: db_exists_def)

lemma db_reach_inv: "db_reach P d \<Longrightarrow> permutes (bucket_order P) \<Longrightarrow> db_inv P d"
  by (induction rule: db_reach.induct) (simp_all add: snd_db_exists db_inv_with_config inv_intros)

lemma total_size_entries:
  assumes "db_inv P d"
  shows "total_size d = sum_list (map (\<lambda>(k, e). of_nat (length k + length (entry_value e)) + size_of_entry P)
    (concat (shards d)))"
proof -
  have "sum_list (map (hm_sum approx_size_bytes) ss) =
      sum_list (map (\<lambda>(k, e). of_nat (length k + length (entry_value e)) + size_of_entry P) (concat ss))"
    if "\<forall>s \<in> set ss. \<forall>(k, e) \<in> set s. entry_sized P k e" for ss
    using that
  proof (induction ss)
    case (Cons s ss)
    have "hm_sum approx_size_bytes s =
        sum_list (map (\<lambda>(k, e). of_nat (length k + length (entry_value e)) + size_of_entry P) s)"
      unfolding hm_sum_def using Cons.prems
      by (intro arg_cong [where f = sum_list] map_cong) (auto simp: entry_sized_def)
    then show ?case using Cons by simp
  qed simp
  moreover have "\<forall>s \<in> set (shards d). \<forall>(k, e) \<in> set s. entry_sized P k e"
    using db_inv_shard [OF assms] by (fastforce simp: shard_ok_def set_conv_nth [of "shards d"])
  ultimately show ?thesis by (simp add: total_size_def)
qed

lemma distinct_all_keys:
  assumes "db_inv P d"
  shows "distinct (map fst (concat (shards d)))"
  unfolding map_concat
proof (rule distinct_concat_index [where g = "shard_index P d" and n = 0])
  fix i assume i: "i < length (shards d)"
  show "distinct (map fst (shards d ! i))"
    using db_inv_wf [OF assms i] by (simp add: hm_wf_def hm_keys_def)
  fix k assume "k \<in> set (map fst (shards d ! i))"
  then show "shard_index P d k = 0 + i" using db_inv_shard [OF assms i] by (auto simp: shard_ok_def)
qed

section \<open>Properties\<close>

text \<open>Databases the witnesses use: four shards, a limit of 200 bytes, two keys set.\<close>

definition sample_db :: db where
  "sample_db = db_set sample_platform (\<lambda>i. 20 + i) ''b'' ''22'' (Some 90)
     (db_set sample_platform (\<lambda>i. 10 + i) ''a'' ''1'' None (with_config 3 200))"

lemma permutes_sample [simp]: "permutes (bucket_order sample_platform)"
  by (simp add: permutes_def sample_platform_def)

lemma size_of_entry_sample [simp]: "size_of_entry sample_platform = 80"
  by (simp add: sample_platform_def)

lemma db_inv_sample [simp]: "db_inv sample_platform sample_db"
  unfolding sample_db_def by (intro db_inv_set db_inv_with_config) simp_all

lemma db_reach_sample: "db_reach sample_platform sample_db"
  unfolding sample_db_def by (intro db_reach.intros) simp

lemma sample_mono [simp]: "mono (\<lambda>i. n + i :: nat)"
  by (simp add: mono_def)

text \<open>
  C5. Accounting.  In every database that a sequence of \<open>get\<close>, \<open>exists\<close>, \<open>set\<close>, \<open>del\<close> and purge
  rounds produces from a new one, \<open>memory_used\<close> is exactly the sum, at machine width, of key
  length, value length and \<open>size_of::<Entry>()\<close> over the stored entries; no key is stored
  twice; and every key is in the shard its masked hash selects.
\<close>

theorem memory_accounting:
  assumes "permutes (bucket_order P)" "db_reach P d"
  shows "memory_used d = sum_list (map (\<lambda>(k, e). of_nat (length k + length (entry_value e)) + size_of_entry P)
      (concat (shards d)))
    \<and> distinct (map fst (concat (shards d)))
    \<and> (\<forall>i < length (shards d). \<forall>(k, e) \<in> set (shards d ! i).
          i = unat (hash_str P k) mod length (shards d))"
proof -
  have inv: "db_inv P d" using db_reach_inv [OF assms(2,1)] .
  moreover have "\<forall>i < length (shards d). \<forall>(k, e) \<in> set (shards d ! i).
      i = unat (hash_str P k) mod length (shards d)"
    using db_inv_shard [OF inv] shard_index_mod [OF db_inv_shape [OF inv]] by (fastforce simp: shard_ok_def)
  ultimately show ?thesis
    using total_size_entries [OF inv] distinct_all_keys [OF inv] by (simp add: memory_used_def db_inv_def)
qed

theorem memory_accounting_witness:
  "permutes (bucket_order sample_platform) \<and> db_reach sample_platform sample_db
   \<and> memory_used sample_db = sum_list (map (\<lambda>(k, e). of_nat (length k + length (entry_value e))
       + size_of_entry sample_platform) (concat (shards sample_db)))"
  using memory_accounting [OF permutes_sample db_reach_sample] db_reach_sample by simp

text \<open>
  C11. Read your write.  After \<open>set\<close>, whatever was evicted to make room, \<open>get\<close> of the key returns
  the value that was set until its expiry instant and nothing from that instant on.
\<close>

theorem get_after_set:
  assumes "db_inv P d"
  shows "fst (db_get P clk' k (db_set P clk k v x d)) =
    (case x of None \<Rightarrow> Some v | Some t \<Rightarrow> if t \<le> clk' 0 then None else Some v)"
  using assms by (rule db.read_own_write)

theorem get_after_set_witness:
  "db_inv sample_platform sample_db
   \<and> fst (db_get sample_platform (\<lambda>i. 60 + i) ''c'' (db_set sample_platform (\<lambda>i. 50 + i) ''c'' ''333'' (Some 61) sample_db))
       = Some ''333''"
  using get_after_set [OF db_inv_sample, where clk' = "\<lambda>i. 60 + i" and x = "Some 61"] by simp

text \<open>
  What \<open>set\<close> does to the other keys: each keeps its entry or is evicted; none is evicted when
  there is no limit, or when the memory in use is below it.
\<close>

lemma set_frame:
  assumes "db_inv P d" "k' \<noteq> k"
  shows "db_lookup P (db_set P clk k v x d) k' \<in> {None, db_lookup P d k'}
    \<and> (max_memory_bytes d = 0 \<or> used_memory d < max_memory_bytes d \<longrightarrow>
        db_lookup P (db_set P clk k v x d) k' = db_lookup P d k')"
  using db.set_other [OF assms] db_lookup_after_set [OF assms(1)] assms(2) set_room_id [OF assms(1)] by auto

text \<open>
  C7. Eviction.  With a limit configured, \<open>ensure_memory_capacity\<close> terminates below the limit, and
  what it does is a sequence of removals of distinct stored keys, each made while the limit is
  reached and each of a least recently accessed key among the sampled ones (the first five of
  every shard); all other keys keep their entries.
\<close>

theorem eviction_is_lru:
  assumes "db_inv P d" "max_memory_bytes d > 0"
  shows "\<exists>ks. lru_evicts P d ks (ensure_memory_capacity d)
    \<and> distinct ks \<and> set ks \<subseteq> dom (db_lookup P d)
    \<and> used_memory (ensure_memory_capacity d) < max_memory_bytes d
    \<and> (\<forall>k. db_lookup P (ensure_memory_capacity d) k = (if k \<in> set ks then None else db_lookup P d k))"
proof -
  obtain ks where ks: "lru_evicts P d ks (ensure_memory_capacity d)"
    using ensure_lru_evicts [OF assms(1)] by blast
  then show ?thesis using lru_evicts_inv [OF ks assms(1)] ensure_below_limit [OF assms] by blast
qed

lemma max_memory_sample [simp]: "max_memory_bytes sample_db = 200"
proof -
  have "db_inv sample_platform (with_config 3 200)" by (simp add: db_inv_with_config)
  then show ?thesis unfolding sample_db_def by (simp add: db_inv_set) (simp add: with_config_def Let_def)
qed

text \<open>The two entries of the sample database, in 100 bytes: the older one has to go.\<close>

definition full_db :: db where
  "full_db = sample_db\<lparr>max_memory_bytes := 100\<rparr>"

lemma db_inv_full: "db_inv sample_platform full_db"
  using db_inv_sample by (simp add: full_db_def db_inv_def db_shape_def shard_ok_def total_size_def shard_index_def)

lemma full_db_used: "used_memory full_db = 165"
  by code_simp

theorem eviction_is_lru_witness:
  "\<exists>k ks. lru_evicts sample_platform full_db (k # ks) (ensure_memory_capacity full_db)
     \<and> used_memory full_db = 165 \<and> used_memory (ensure_memory_capacity full_db) < 100
     \<and> db_lookup sample_platform (ensure_memory_capacity full_db) k = None"
proof -
  have m: "max_memory_bytes full_db = 100" by (simp add: full_db_def)
  then obtain ks where ks: "lru_evicts sample_platform full_db ks (ensure_memory_capacity full_db)"
    "used_memory (ensure_memory_capacity full_db) < 100"
    "\<forall>k. db_lookup sample_platform (ensure_memory_capacity full_db) k
       = (if k \<in> set ks then None else db_lookup sample_platform full_db k)"
    using eviction_is_lru [OF db_inv_full] by auto
  have "ks \<noteq> []"
  proof
    assume "ks = []"
    then have "ensure_memory_capacity full_db = full_db" using ks(1) by (auto elim: lru_evicts.cases)
    then show False using ks(2) full_db_used by simp
  qed
  then obtain k ks' where "ks = k # ks'" by (cases ks) auto
  then show ?thesis using ks full_db_used by (intro exI [of _ k] exI [of _ ks']) simp
qed

text \<open>
  C12. Memory bound.  With a limit configured, after \<open>set\<close> the memory in use is below the limit plus
  the size of the entry just written, provided the sizes themselves do not overflow 64 bits.
\<close>

theorem set_memory_bound:
  assumes "db_inv P d" "max_memory_bytes d > 0" "total_bytes d < 2 ^ 64"
    "uint (max_memory_bytes d) + uint (approx_size_bytes (entry_new P (clk 0) (length k) v x)) \<le> 2 ^ 64"
  shows "uint (memory_used (db_set P clk k v x d)) <
    uint (max_memory_bytes d) + uint (approx_size_bytes (entry_new P (clk 0) (length k) v x))"
  using total_bytes_set [OF assms(1-3), of clk k v x] assms(4)
    used_memory_exact [OF db_inv_set [OF assms(1)], of clk k v x] by (simp add: memory_used_def)

lemma total_bytes_with_config [simp]: "total_bytes (with_config n mx) = 0"
  by (simp add: total_bytes_def with_config_def Let_def sum_list_replicate)

lemma total_bytes_sample: "total_bytes sample_db < 300"
proof -
  let ?d0 = "with_config 3 200"
  have inv: "db_inv sample_platform ?d0" by (simp add: db_inv_with_config)
  have m: "max_memory_bytes ?d0 = 200" by (simp add: with_config_def Let_def)
  let ?d1 = "db_set sample_platform (\<lambda>i. 10 + i) ''a'' ''1'' None ?d0"
  have "total_bytes ?d1 < 300"
    using total_bytes_set [OF inv, where clk = "\<lambda>i. 10 + i" and k = "''a''" and v = "''1''" and x = None] m
    by (simp add: entry_new_def)
  then show ?thesis
    using total_bytes_set [of sample_platform ?d1, where clk = "\<lambda>i. 20 + i" and k = "''b''" and v = "''22''" and x = "Some 90"]
      db_inv_set [OF inv] max_memory_set [OF inv] m unfolding sample_db_def by (simp add: entry_new_def)
qed

theorem set_memory_bound_witness:
  "db_inv sample_platform sample_db \<and> max_memory_bytes sample_db > 0 \<and> total_bytes sample_db < 2 ^ 64
   \<and> uint (memory_used (db_set sample_platform (\<lambda>i. 50 + i) ''c'' ''333'' None sample_db)) < 200 + 84"
  using set_memory_bound [OF db_inv_sample, where clk = "\<lambda>i. 50 + i" and k = "''c''" and v = "''333''" and x = None]
    total_bytes_sample by (simp add: entry_new_def)

text \<open>
  C39. \<open>get\<close>.  It returns the value of an unexpired key and nothing otherwise; a hit refreshes the
  access time and nothing else, an expired key is deleted, and no other key is affected.
\<close>

theorem get_effect:
  assumes "db_inv P d" "mono clk"
  shows "fst (db_get P clk k d) = db_view P (clk 0) d k
    \<and> db_lookup P (snd (db_get P clk k d)) =
        (db_lookup P d)(k := (case db_lookup P d k of
            None \<Rightarrow> None
          | Some e \<Rightarrow> if is_expired (clk 0) e then None else Some (e\<lparr>last_accessed := clk 1\<rparr>)))
    \<and> db_inv P (snd (db_get P clk k d))"
  using db_get_result [OF assms(1)] db_lookup_after_get [OF assms, of k] db_inv_get [OF assms(1)]
  by (auto simp: fun_eq_iff touch_def split: option.split)

theorem get_effect_witness:
  "db_inv sample_platform sample_db \<and> mono (\<lambda>i. 95 + i :: nat)
   \<and> db_lookup sample_platform (snd (db_get sample_platform (\<lambda>i. 95 + i) ''b'' sample_db)) ''b'' = None"
proof -
  have "db_lookup sample_platform sample_db ''b'' = Some (entry_new sample_platform 20 1 ''22'' (Some 90))"
    unfolding sample_db_def by (subst db_lookup_after_set) (simp_all add: db_inv_set db_inv_with_config)
  then show ?thesis
    using get_effect [OF db_inv_sample sample_mono, of 95 "''b''"] by (simp add: is_expired_entry_new)
qed

text \<open>
  \<open>del\<close>.  It reports whether the key was stored (an expired key that nothing has purged yet
  counts), removes that key, leaves every other key as it was, and keeps the accounting.
\<close>

lemma del_effect:
  assumes "db_inv P d"
  shows "fst (db_del P k d) = (db_lookup P d k \<noteq> None)
    \<and> db_lookup P (snd (db_del P k d)) = (db_lookup P d)(k := None)
    \<and> fst (db_get P clk k (snd (db_del P k d))) = None
    \<and> db_inv P (snd (db_del P k d))"
  using db_del_result db_lookup_after_del [OF assms, of k] db_inv_del [OF assms] db.read_deleted [OF assms, of clk k k]
  by (auto simp: fun_eq_iff)

text \<open>
  C40. Active expiry is safe.  A purge round removes exactly the expired keys among the first
  \<open>sample\<close> entries of their shards, no reader can tell from the instant of the round on, the
  returned count is the number of entries removed, and the accounting is kept.
\<close>

theorem purge_effect:
  assumes "db_inv P d" "purge_expired_sample now sample d = (c, d')"
  shows "db_inv P d' \<and> entry_count d' + c = entry_count d
    \<and> (\<forall>k. db_lookup P d' k =
          (if \<exists>e. (k, e) \<in> set (take sample (shards d ! shard_index P d k)) \<and> is_expired now e
           then None else db_lookup P d k))
    \<and> (\<forall>t k. now \<le> t \<longrightarrow> db_view P t d' k = db_view P t d k)"
proof -
  have "hm_wf (shards d ! shard_index P d k)" for k
    by (rule db_inv_wf [OF assms(1)]) (simp add: db_inv_shape [OF assms(1)])
  then show ?thesis
    using purge_spec [OF assms(1), of now sample] db_view_purge [OF assms(1), of now _ sample] assms(2)
    by (simp add: doomed_iff)
qed

theorem purge_effect_witness:
  "\<exists>c d'. purge_expired_sample 95 20 sample_db = (c, d') \<and> db_inv sample_platform sample_db
     \<and> entry_count d' + c = entry_count sample_db
     \<and> db_view sample_platform 99 d' ''a'' = db_view sample_platform 99 sample_db ''a''"
  using purge_effect [OF db_inv_sample, of 95 20] by (cases "purge_expired_sample 95 20 sample_db") auto

text \<open>
  Active expiry is complete when the sample covers the shards: if no shard has more than
  \<open>sample\<close> entries, one round leaves exactly the unexpired entries.
\<close>

lemma purge_complete:
  assumes "db_inv P d" "\<forall>s \<in> set (shards d). length s \<le> sample"
  shows "db_lookup P (snd (purge_expired_sample now sample d)) k =
    (case db_lookup P d k of None \<Rightarrow> None | Some e \<Rightarrow> if is_expired now e then None else Some e)"
proof -
  let ?s = "shards d ! shard_index P d k"
  have i: "shard_index P d k < length (shards d)" using db_inv_shape [OF assms(1)] by simp
  then have "take sample ?s = ?s" using assms(2) by simp
  then have "k \<in> doomed now sample ?s \<longleftrightarrow> (\<exists>e. db_lookup P d k = Some e \<and> is_expired now e)"
    using doomed_iff [OF db_inv_wf [OF assms(1) i]] hm_get_iff [OF db_inv_wf [OF assms(1) i]]
    by (auto simp: db_lookup_def)
  then show ?thesis using purge_spec [OF assms(1), of now sample k] by (auto split: option.split)
qed

lemma entry_count_bound: "s \<in> set (shards d) \<Longrightarrow> length s \<le> entry_count d"
  by (auto simp: entry_count_def intro: member_le_sum_list)

text \<open>
  \<open>keys\<close> lists every key a reader can see at that instant, each once, and nothing else.
\<close>

lemma keys_complete:
  assumes "db_inv P d"
  shows "distinct (db_keys now d) \<and> set (db_keys now d) = {k. db_view P now d k \<noteq> None}"
  using distinct_db_keys [OF assms] set_db_keys [OF assms] by (auto simp: dom_def)

end
