(* ===== verification/Slot.thy ===== *)
theory Slot
  imports Prelude
begin

unbundle bit_operations_syntax

text \<open>
  \<open>src/cluster/slot.rs\<close>: the CRC16 checksum by table lookup, the hashtag of a key and
  the hash slot.  The table is the source's; the reference below is the bit-by-bit
  shift register of the XMODEM polynomial \<open>0x1021\<close> that the source's comment names.
\<close>

section \<open>Definitions\<close>

definition HASH_SLOTS :: u16 where
  "HASH_SLOTS = 16384"

definition CRC16_TAB :: "u16 list" where
  "CRC16_TAB =
     [0x0000, 0x1021, 0x2042, 0x3063, 0x4084, 0x50a5, 0x60c6, 0x70e7,
      0x8108, 0x9129, 0xa14a, 0xb16b, 0xc18c, 0xd1ad, 0xe1ce, 0xf1ef,
      0x1231, 0x0210, 0x3273, 0x2252, 0x52b5, 0x4294, 0x72f7, 0x62d6,
      0x9339, 0x8318, 0xb37b, 0xa35a, 0xd3bd, 0xc39c, 0xf3ff, 0xe3de,
      0x2462, 0x3443, 0x0420, 0x1401, 0x64e6, 0x74c7, 0x44a4, 0x5485,
      0xa56a, 0xb54b, 0x8528, 0x9509, 0xe5ee, 0xf5cf, 0xc5ac, 0xd58d,
      0x3653, 0x2672, 0x1611, 0x0630, 0x76d7, 0x66f6, 0x5695, 0x46b4,
      0xb75b, 0xa77a, 0x9719, 0x8738, 0xf7df, 0xe7fe, 0xd79d, 0xc7bc,
      0x48c4, 0x58e5, 0x6886, 0x78a7, 0x0840, 0x1861, 0x2802, 0x3823,
      0xc9cc, 0xd9ed, 0xe98e, 0xf9af, 0x8948, 0x9969, 0xa90a, 0xb92b,
      0x5af5, 0x4ad4, 0x7ab7, 0x6a96, 0x1a71, 0x0a50, 0x3a33, 0x2a12,
      0xdbfd, 0xcbdc, 0xfbbf, 0xeb9e, 0x9b79, 0x8b58, 0xbb3b, 0xab1a,
      0x6ca6, 0x7c87, 0x4ce4, 0x5cc5, 0x2c22, 0x3c03, 0x0c60, 0x1c41,
      0xedae, 0xfd8f, 0xcdec, 0xddcd, 0xad2a, 0xbd0b, 0x8d68, 0x9d49,
      0x7e97, 0x6eb6, 0x5ed5, 0x4ef4, 0x3e13, 0x2e32, 0x1e51, 0x0e70,
      0xff9f, 0xefbe, 0xdfdd, 0xcffc, 0xbf1b, 0xaf3a, 0x9f59, 0x8f78,
      0x9188, 0x81a9, 0xb1ca, 0xa1eb, 0xd10c, 0xc12d, 0xf14e, 0xe16f,
      0x1080, 0x00a1, 0x30c2, 0x20e3, 0x5004, 0x4025, 0x7046, 0x6067,
      0x83b9, 0x9398, 0xa3fb, 0xb3da, 0xc33d, 0xd31c, 0xe37f, 0xf35e,
      0x02b1, 0x1290, 0x22f3, 0x32d2, 0x4235, 0x5214, 0x6277, 0x7256,
      0xb5ea, 0xa5cb, 0x95a8, 0x8589, 0xf56e, 0xe54f, 0xd52c, 0xc50d,
      0x34e2, 0x24c3, 0x14a0, 0x0481, 0x7466, 0x6447, 0x5424, 0x4405,
      0xa7db, 0xb7fa, 0x8799, 0x97b8, 0xe75f, 0xf77e, 0xc71d, 0xd73c,
      0x26d3, 0x36f2, 0x0691, 0x16b0, 0x6657, 0x7676, 0x4615, 0x5634,
      0xd94c, 0xc96d, 0xf90e, 0xe92f, 0x99c8, 0x89e9, 0xb98a, 0xa9ab,
      0x5844, 0x4865, 0x7806, 0x6827, 0x18c0, 0x08e1, 0x3882, 0x28a3,
      0xcb7d, 0xdb5c, 0xeb3f, 0xfb1e, 0x8bf9, 0x9bd8, 0xabbb, 0xbb9a,
      0x4a75, 0x5a54, 0x6a37, 0x7a16, 0x0af1, 0x1ad0, 0x2ab3, 0x3a92,
      0xfd2e, 0xed0f, 0xdd6c, 0xcd4d, 0xbdaa, 0xad8b, 0x9de8, 0x8dc9,
      0x7c26, 0x6c07, 0x5c64, 0x4c45, 0x3ca2, 0x2c83, 0x1ce0, 0x0cc1,
      0xef1f, 0xff3e, 0xcf5d, 0xdf7c, 0xaf9b, 0xbfba, 0x8fd9, 0x9ff8,
      0x6e17, 0x7e36, 0x4e55, 0x5e74, 0x2e93, 0x3eb2, 0x0ed1, 0x1ef0]"

definition crc16_step :: "char \<Rightarrow> u16 \<Rightarrow> u16" where
  "crc16_step b crc =
     (push_bit 8 crc AND 0xFF00) XOR CRC16_TAB ! unat ((drop_bit 8 crc XOR of_char b) AND 0x00FF)"

definition crc16 :: "bytes \<Rightarrow> u16" where
  "crc16 bs = fold crc16_step bs 0"

fun position :: "char \<Rightarrow> bytes \<Rightarrow> nat option" where
  "position c [] = None"
| "position c (d # ds) = (if d = c then Some 0 else map_option Suc (position c ds))"

definition extract_hashtag :: "bytes \<Rightarrow> bytes" where
  "extract_hashtag key =
     (case position (CHR ''{'') key of
        Some start \<Rightarrow>
          (case position (CHR ''}'') (drop (start + 1) key) of
             Some end_pos \<Rightarrow>
               let actual_end = start + 1 + end_pos
               in if actual_end > start + 1
                  then take (actual_end - (start + 1)) (drop (start + 1) key)
                  else key
           | None \<Rightarrow> key)
      | None \<Rightarrow> key)"

definition key_slot :: "bytes \<Rightarrow> u16" where
  "key_slot key = crc16 (extract_hashtag key) AND (HASH_SLOTS - 1)"

section \<open>The table against the shift register\<close>

definition crc_bit :: "u16 \<Rightarrow> u16" where
  "crc_bit x = (if bit x 15 then push_bit 1 x XOR 0x1021 else push_bit 1 x)"

definition crc_byte :: "char \<Rightarrow> u16 \<Rightarrow> u16" where
  "crc_byte b crc = (crc_bit ^^ 8) (crc XOR push_bit 8 (of_char b))"

definition crc16_bitwise :: "bytes \<Rightarrow> u16" where
  "crc16_bitwise bs = fold crc_byte bs 0"

definition crc_entry :: "nat \<Rightarrow> u16" where
  "crc_entry h = (crc_bit ^^ 8) (push_bit 8 (word_of_nat h))"

lemma crc_bit_xor: "crc_bit (x XOR y) = crc_bit x XOR crc_bit y"
  by (auto simp: crc_bit_def bit_xor_iff push_bit_xor xor.assoc xor.left_commute xor.commute)

lemma crc_bits_xor: "(crc_bit ^^ n) (x XOR y) = (crc_bit ^^ n) x XOR (crc_bit ^^ n) y"
  by (induction n) (simp_all add: crc_bit_xor)

lemma word_of_nat_split:
  assumes "h < 2 ^ k"
  shows "(word_of_nat (2 ^ k + h) :: u16) = word_of_nat (2 ^ k) XOR word_of_nat h"
proof -
  have "\<not> bit h k"
    using assms by (metis take_bit_nat_eq_self bit_take_bit_iff less_irrefl)
  then have "2 ^ k AND h = 0" by (intro bit_eqI) (auto simp: bit_and_iff bit_exp_iff)
  then have "2 ^ k + h = 2 ^ k XOR h" by (rule disjunctive_add_eq_xor)
  then show ?thesis by (simp add: of_nat_xor_eq)
qed

lemma crc_entry_split: "h < 2 ^ k \<Longrightarrow> crc_entry (2 ^ k + h) = crc_entry h XOR crc_entry (2 ^ k)"
  unfolding crc_entry_def
  by (simp only: word_of_nat_split push_bit_xor crc_bits_xor xor.commute)

text \<open>Linearity builds the table by doubling, from the entries at the powers of two.\<close>

definition doubled :: "u16 \<Rightarrow> u16 list \<Rightarrow> u16 list" where
  "doubled e xs = xs @ map (\<lambda>x. x XOR e) xs"

lemma crc_entries_doubled:
  "map crc_entry [0..<2 ^ Suc k] = doubled (crc_entry (2 ^ k)) (map crc_entry [0..<2 ^ k])"
proof -
  have "map (\<lambda>h. 2 ^ k + h) [0..<2 ^ k] = [2 ^ k..<2 ^ k + 2 ^ k]"
    using map_add_upt [of "2 ^ k" "2 ^ k"] by (simp add: add.commute)
  moreover have "[0..<2 ^ k + 2 ^ k] = [0..<2 ^ k] @ [2 ^ k..<2 ^ k + 2 ^ k]"
    by (rule upt_add_eq_append) simp
  ultimately have "[0..<2 ^ Suc k] = [0..<2 ^ k] @ map (\<lambda>h. 2 ^ k + h) [0..<2 ^ k]"
    by (simp add: mult_2)
  then show ?thesis by (simp add: doubled_def crc_entry_split)
qed

lemma crc_bit_8:
  "(crc_bit ^^ 8) x = crc_bit (crc_bit (crc_bit (crc_bit (crc_bit (crc_bit (crc_bit (crc_bit x)))))))"
  by (simp add: eval_nat_numeral)

lemma crc_entry_powers:
  "crc_entry 0 = 0" "crc_entry 1 = 0x1021" "crc_entry 2 = 0x2042" "crc_entry 4 = 0x4084"
  "crc_entry 8 = 0x8108" "crc_entry 16 = 0x1231" "crc_entry 32 = 0x2462" "crc_entry 64 = 0x48c4"
  "crc_entry 128 = 0x9188"
  by (simp_all add: crc_entry_def crc_bit_8 crc_bit_def)

lemma CRC16_TAB_doubled:
  "CRC16_TAB = doubled 0x9188 (doubled 0x48c4 (doubled 0x2462 (doubled 0x1231 (doubled 0x8108
     (doubled 0x4084 (doubled 0x2042 (doubled 0x1021 [0])))))))"
  by (simp add: CRC16_TAB_def doubled_def)

lemma CRC16_TAB_entries: "CRC16_TAB = map crc_entry [0..<256]"
proof -
  note d = crc_entries_doubled [of 7] crc_entries_doubled [of 6] crc_entries_doubled [of 5]
    crc_entries_doubled [of 4] crc_entries_doubled [of 3] crc_entries_doubled [of 2]
    crc_entries_doubled [of 1] crc_entries_doubled [of 0]
  have one: "crc_entry (Suc 0) = 0x1021" "map crc_entry [0..<Suc 0] = [0]"
    using crc_entry_powers(1,2) by simp_all
  show ?thesis using d by (simp add: crc_entry_powers CRC16_TAB_doubled one del: upt.simps upt_Suc)
qed

lemma crc_bits_low:
  assumes "\<And>n. 8 \<le> n \<Longrightarrow> \<not> bit x n" "k \<le> 8"
  shows "(crc_bit ^^ k) x = push_bit k x"
  using assms(2)
proof (induction k)
  case (Suc k)
  have "\<not> bit (push_bit k x) 15" using Suc.prems assms(1) by (auto simp: bit_push_bit_iff)
  with Suc show ?case by (simp add: crc_bit_def)
qed simp

lemma high_low_split: "x = push_bit 8 (drop_bit 8 x) XOR take_bit 8 (x :: u16)"
  by (rule bit_eqI) (auto simp: bit_push_bit_iff bit_drop_bit_eq bit_take_bit_iff bit_xor_iff)

lemma crc_byte_table: "(crc_bit ^^ 8) x = push_bit 8 x XOR CRC16_TAB ! unat (drop_bit 8 x)"
proof -
  have "unat x < 2 ^ LENGTH(16)" by (rule unsigned_less)
  then have "unat (drop_bit 8 x) < 256" by (simp add: drop_bit_eq_div unat_div_distrib)
  then have tab: "CRC16_TAB ! unat (drop_bit 8 x) = (crc_bit ^^ 8) (push_bit 8 (drop_bit 8 x))"
    by (simp add: CRC16_TAB_entries crc_entry_def)
  have "(crc_bit ^^ 8) (take_bit 8 x) = push_bit 8 (take_bit 8 x)"
    by (rule crc_bits_low) (auto simp: bit_take_bit_iff)
  also have "\<dots> = push_bit 8 x"
    by (rule bit_eqI) (auto simp: bit_push_bit_iff bit_take_bit_iff)
  finally show ?thesis
    using tab crc_bits_xor [of 8 "push_bit 8 (drop_bit 8 x)" "take_bit 8 x"] high_low_split [of x]
    by (simp add: xor.commute)
qed

lemma of_char_bit: "bit (of_char b :: u16) n \<Longrightarrow> n < 8"
proof -
  assume "bit (of_char b :: u16) n"
  then have "bit (byte b) n" by (metis byte_def of_nat_of_char bit_of_nat_iff)
  moreover have "take_bit 8 (byte b) = byte b"
    by (simp add: take_bit_nat_eq_self)
  ultimately show ?thesis by (metis bit_take_bit_iff)
qed

lemma crc16_step_byte: "crc16_step b crc = crc_byte b crc"
proof -
  let ?x = "crc XOR push_bit 8 (of_char b)"
  have m: "(0xFF00 :: u16) = push_bit 8 (mask 8)" "(0x00FF :: u16) = mask 8"
    by (simp_all add: mask_eq_exp_minus_1)
  have "push_bit 8 crc AND 0xFF00 = push_bit 8 ?x"
    unfolding m by (rule bit_eqI) (auto simp: bit_simps dest: of_char_bit)
  moreover have "(drop_bit 8 crc XOR of_char b) AND 0x00FF = drop_bit 8 ?x"
    unfolding m by (rule bit_eqI) (auto simp: bit_simps dest: of_char_bit bit_imp_le_length)
  ultimately show ?thesis
    by (simp add: crc16_step_def crc_byte_def crc_byte_table)
qed

lemma crc16_eq_bitwise: "crc16 bs = crc16_bitwise bs"
proof -
  have "crc16_step = crc_byte" by (intro ext) (rule crc16_step_byte)
  then show ?thesis by (simp add: crc16_def crc16_bitwise_def)
qed

section \<open>Hashtags\<close>

lemma position_Some:
  "position c s = Some i \<longleftrightarrow> (\<exists>p q. s = p @ c # q \<and> c \<notin> set p \<and> i = length p)"
proof (induction s arbitrary: i)
  case (Cons d ds)
  show ?case
  proof (cases "d = c")
    case True
    then show ?thesis by (auto simp: Cons_eq_append_conv)
  next
    case False
    then show ?thesis using Cons by (fastforce simp: Cons_eq_append_conv)
  qed
qed simp

lemma position_None: "position c s = None \<longleftrightarrow> c \<notin> set s"
  by (induction s) auto

lemma extract_hashtag_tag:
  assumes "CHR ''{'' \<notin> set p" "CHR ''}'' \<notin> set t" "t \<noteq> []"
  shows "extract_hashtag (p @ CHR ''{'' # t @ CHR ''}'' # q) = t"
proof -
  have "position (CHR ''{'') (p @ CHR ''{'' # t @ CHR ''}'' # q) = Some (length p)"
    unfolding position_Some using assms(1) by blast
  moreover have "position (CHR ''}'') (t @ CHR ''}'' # q) = Some (length t)"
    unfolding position_Some using assms(2) by blast
  ultimately show ?thesis using assms(3) by (simp add: extract_hashtag_def)
qed

lemma extract_hashtag_no_close: "CHR ''}'' \<notin> set key \<Longrightarrow> extract_hashtag key = key"
proof -
  assume "CHR ''}'' \<notin> set key"
  then have "position (CHR ''}'') (drop n key) = None" for n
    using position_None in_set_dropD by metis
  then show ?thesis by (simp add: extract_hashtag_def split: option.split)
qed

lemma extract_hashtag_empty:
  assumes "CHR ''{'' \<notin> set p"
  shows "extract_hashtag (p @ ''{}'' @ q) = p @ ''{}'' @ q"
proof -
  have "position (CHR ''{'') (p @ CHR ''{'' # CHR ''}'' # q) = Some (length p)"
    unfolding position_Some using assms by blast
  then show ?thesis by (simp add: extract_hashtag_def)
qed

lemma extract_hashtag_unclosed:
  assumes "CHR ''{'' \<notin> set p" "CHR ''}'' \<notin> set t"
  shows "extract_hashtag (p @ CHR ''{'' # t) = p @ CHR ''{'' # t"
proof -
  have "position (CHR ''{'') (p @ CHR ''{'' # t) = Some (length p)"
    unfolding position_Some using assms(1) by blast
  moreover have "position (CHR ''}'') t = None" using assms(2) by (simp add: position_None)
  ultimately show ?thesis by (simp add: extract_hashtag_def)
qed

lemma key_slot_mod: "unat (key_slot key) = unat (crc16 (extract_hashtag key)) mod 16384"
proof -
  have "HASH_SLOTS - 1 = mask 14" by (simp add: HASH_SLOTS_def mask_eq_exp_minus_1)
  then show ?thesis by (simp only: key_slot_def unat_and_mask) simp
qed

lemma key_slot_less: "unat (key_slot key) < 16384"
  by (simp add: key_slot_mod)

section \<open>Properties\<close>

text \<open>
  C27.  The table-driven checksum is CRC16 of the XMODEM polynomial: on every byte string
  it equals the bit-by-bit shift register with feedback \<open>0x1021\<close>.
\<close>

theorem crc16_is_xmodem: "crc16 bs = fold crc_byte bs 0"
  using crc16_eq_bitwise by (simp add: crc16_bitwise_def)

text \<open>
   \<open>key_slot\<close> lies in \<open>0..16383\<close>, the mask computes the remainder modulo 16384,
  and the official vectors hold (\<open>123456789\<close> gives 12739, \<open>foo\<close> gives 12182).
\<close>

lemma key_slot_range:
  "unat (key_slot key) < 16384
   \<and> unat (key_slot key) = unat (crc16 (extract_hashtag key)) mod 16384
   \<and> crc16 ''123456789'' = 12739 \<and> key_slot ''foo'' = 12182"
proof -
  have "crc16 ''123456789'' = 12739"
    by (simp add: crc16_eq_bitwise crc16_bitwise_def crc_byte_def crc_bit_8 crc_bit_def)
  moreover have "crc16 ''foo'' = 44950"
    by (simp add: crc16_eq_bitwise crc16_bitwise_def crc_byte_def crc_bit_8 crc_bit_def)
  moreover from this have "key_slot ''foo'' = 12182"
    by (simp add: key_slot_def extract_hashtag_no_close HASH_SLOTS_def)
  ultimately show ?thesis by (simp add: key_slot_less key_slot_mod)
qed

text \<open>
  C38.  Hashtag co-location: all keys whose first \<open>{\<close> opens a non-empty tag \<open>{t}\<close> fall
  into the slot of the key \<open>t\<close>; a key with an empty or unclosed tag is hashed whole.
\<close>

theorem hashtag_colocation:
  assumes "CHR ''{'' \<notin> set p" "CHR ''}'' \<notin> set t"
  shows "(t \<noteq> [] \<longrightarrow> key_slot (p @ CHR ''{'' # t @ CHR ''}'' # q) = key_slot t)
    \<and> key_slot (p @ ''{}'' @ q) = crc16 (p @ ''{}'' @ q) AND (HASH_SLOTS - 1)
    \<and> key_slot (p @ CHR ''{'' # t) = crc16 (p @ CHR ''{'' # t) AND (HASH_SLOTS - 1)"
  using extract_hashtag_tag [OF assms] extract_hashtag_no_close [OF assms(2)]
    extract_hashtag_empty [OF assms(1)] extract_hashtag_unclosed [OF assms]
  by (simp add: key_slot_def)

theorem hashtag_colocation_witness:
  "key_slot ''{user100}:profile'' = key_slot ''user100'' \<and> key_slot ''{user100}:orders'' = key_slot ''user100''"
  using hashtag_colocation [of "[]" "''user100''" "'':profile''"]
    hashtag_colocation [of "[]" "''user100''" "'':orders''"] by simp

end
