(* ===== verification/Rust_Std.thy ===== *)
theory Rust_Std
  imports Prelude
begin

text \<open>
  What the program uses of the Rust standard library, modelled on byte strings:
  decimal printing (\<open>to_string\<close>) and parsing (\<open>str::parse\<close>) of machine integers with
  the four error kinds of \<open>ParseIntError\<close>, UTF-8 validation (\<open>std::str::from_utf8\<close>)
  with the position and length that \<open>Utf8Error\<close> reports, ASCII upper-casing, trimming
  and splitting of strings.  \<open>HashMap\<close> is in the theory Hash_Map.
\<close>

section \<open>Decimal integers\<close>

definition digit_char :: "nat \<Rightarrow> char" where
  "digit_char d = char_of (48 + d)"

definition to_digit :: "char \<Rightarrow> nat option" where
  "to_digit c = (if 48 \<le> byte c \<and> byte c \<le> 57 then Some (byte c - 48) else None)"

fun show_nat :: "nat \<Rightarrow> string" where
  "show_nat n = (if n < 10 then [digit_char n] else show_nat (n div 10) @ [digit_char (n mod 10)])"

declare show_nat.simps [simp del]

definition show_int :: "int \<Rightarrow> string" where
  "show_int i = (if i < 0 then CHR ''-'' # show_nat (nat (- i)) else show_nat (nat i))"

datatype int_error = EmptyInt | InvalidDigit | PosOverflow | NegOverflow

text \<open>\<open>ParseIntError::to_string()\<close>.\<close>

fun show_int_error :: "int_error \<Rightarrow> string" where
  "show_int_error EmptyInt = ''cannot parse integer from empty string''"
| "show_int_error InvalidDigit = ''invalid digit found in string''"
| "show_int_error PosOverflow = ''number too large to fit in target type''"
| "show_int_error NegOverflow = ''number too small to fit in target type''"

text \<open>
  The digit loop of \<open>from_str_radix\<close>: each digit is checked before the
  multiplication and the addition are, and the first failure wins.
\<close>

fun parse_pos :: "int \<Rightarrow> int \<Rightarrow> string \<Rightarrow> int_error + int" where
  "parse_pos hi acc [] = Inr acc"
| "parse_pos hi acc (c # cs) =
     (case to_digit c of
        None \<Rightarrow> Inl InvalidDigit
      | Some d \<Rightarrow> if acc * 10 + int d > hi then Inl PosOverflow
                  else parse_pos hi (acc * 10 + int d) cs)"

fun parse_neg :: "int \<Rightarrow> int \<Rightarrow> string \<Rightarrow> int_error + int" where
  "parse_neg lo acc [] = Inr acc"
| "parse_neg lo acc (c # cs) =
     (case to_digit c of
        None \<Rightarrow> Inl InvalidDigit
      | Some d \<Rightarrow> if acc * 10 - int d < lo then Inl NegOverflow
                  else parse_neg lo (acc * 10 - int d) cs)"

definition parse_int :: "bool \<Rightarrow> int \<Rightarrow> int \<Rightarrow> string \<Rightarrow> int_error + int" where
  "parse_int is_signed lo hi s =
     (case s of
        [] \<Rightarrow> Inl EmptyInt
      | c # cs \<Rightarrow>
          if cs = [] \<and> (c = CHR ''+'' \<or> c = CHR ''-'') then Inl InvalidDigit
          else if c = CHR ''+'' then parse_pos hi 0 cs
          else if c = CHR ''-'' \<and> is_signed then parse_neg lo 0 cs
          else parse_pos hi 0 s)"

abbreviation i64_min :: int where "i64_min \<equiv> - (2 ^ 63)"
abbreviation i64_max :: int where "i64_max \<equiv> 2 ^ 63 - 1"

definition parse_i64 :: "string \<Rightarrow> int_error + int" where
  "parse_i64 = parse_int True i64_min i64_max"

text \<open>The target is 64-bit: \<open>isize\<close> has the range of \<open>i64\<close>, \<open>usize\<close> that of \<open>u64\<close>.\<close>

definition parse_isize :: "string \<Rightarrow> int_error + int" where
  "parse_isize = parse_int True i64_min i64_max"

definition parse_u64 :: "string \<Rightarrow> int_error + int" where
  "parse_u64 = parse_int False 0 (2 ^ 64 - 1)"

definition parse_u16 :: "string \<Rightarrow> int_error + u16" where
  "parse_u16 s = map_sum id of_int (parse_int False 0 (2 ^ 16 - 1) s)"

definition show_u16 :: "u16 \<Rightarrow> string" where
  "show_u16 w = show_nat (unat w)"

definition show_u64 :: "u64 \<Rightarrow> string" where
  "show_u64 w = show_nat (unat w)"

subsection \<open>Printing and parsing agree\<close>

lemma to_digit_digit_char [simp]:
  assumes "d < 10"
  shows "to_digit (digit_char d) = Some d"
proof -
  have "byte (digit_char d) = 48 + d"
    using assms by (simp add: byte_def digit_char_def)
  then show ?thesis using assms by (simp add: to_digit_def)
qed

lemma show_nat_not_Nil [simp]: "show_nat n \<noteq> []"
  by (subst show_nat.simps) simp

lemma show_nat_digits: "c \<in> set (show_nat n) \<Longrightarrow> to_digit c \<noteq> None"
proof (induction n rule: show_nat.induct)
  case (1 n)
  then show ?case
    by (cases "n < 10") (auto simp: show_nat.simps [of n])
qed

lemma digit_byte: "to_digit c \<noteq> None \<Longrightarrow> 48 \<le> byte c \<and> byte c \<le> 57"
  by (auto simp: to_digit_def split: if_splits)

lemma show_nat_byte: "c \<in> set (show_nat n) \<Longrightarrow> 48 \<le> byte c \<and> byte c \<le> 57"
  using show_nat_digits digit_byte by blast

lemma parse_pos_append:
  "parse_pos hi acc (xs @ ys) =
     (case parse_pos hi acc xs of Inl e \<Rightarrow> Inl e | Inr a \<Rightarrow> parse_pos hi a ys)"
  by (induction xs arbitrary: acc) (auto split: option.split)

lemma parse_neg_append:
  "parse_neg lo acc (xs @ ys) =
     (case parse_neg lo acc xs of Inl e \<Rightarrow> Inl e | Inr a \<Rightarrow> parse_neg lo a ys)"
  by (induction xs arbitrary: acc) (auto split: option.split)

lemma int_div_mod_10: "int n = int (n div 10) * 10 + int (n mod 10)"
  by presburger

lemma parse_pos_show_nat:
  "int n \<le> hi \<Longrightarrow> parse_pos hi 0 (show_nat n) = Inr (int n)"
proof (induction n rule: show_nat.induct)
  case (1 n)
  show ?case
  proof (cases "n < 10")
    case True
    then show ?thesis using 1 by (simp add: show_nat.simps [of n])
  next
    case False
    have "int (n div 10) \<le> hi" using 1 by linarith
    then have "parse_pos hi 0 (show_nat (n div 10)) = Inr (int (n div 10))"
      using 1 False by simp
    moreover have "int (n div 10) * 10 + int (n mod 10) = int n"
      by (simp add: int_div_mod_10 [of n])
    ultimately show ?thesis
      using 1 False by (simp add: show_nat.simps [of n] parse_pos_append)
  qed
qed

lemma parse_neg_show_nat:
  "lo \<le> - int n \<Longrightarrow> parse_neg lo 0 (show_nat n) = Inr (- int n)"
proof (induction n rule: show_nat.induct)
  case (1 n)
  show ?case
  proof (cases "n < 10")
    case True
    then show ?thesis using 1 by (simp add: show_nat.simps [of n])
  next
    case False
    have "lo \<le> - int (n div 10)" using 1 by linarith
    then have "parse_neg lo 0 (show_nat (n div 10)) = Inr (- int (n div 10))"
      using 1 False by simp
    moreover have "- int (n div 10) * 10 - int (n mod 10) = - int n"
      by (simp add: int_div_mod_10 [of n])
    ultimately show ?thesis
      using 1 False by (simp add: show_nat.simps [of n] parse_neg_append)
  qed
qed

lemma show_nat_hd_digit:
  assumes "show_nat n = c # cs"
  shows "c \<noteq> CHR ''+'' \<and> c \<noteq> CHR ''-''"
proof -
  have "48 \<le> byte c" using assms show_nat_byte [of c n] by simp
  then show ?thesis by (auto simp: byte_def)
qed

lemma parse_int_show_nat:
  assumes "int n \<le> hi"
  shows "parse_int sg lo hi (show_nat n) = Inr (int n)"
proof (cases "show_nat n")
  case Nil
  then show ?thesis by simp
next
  case (Cons c cs)
  then show ?thesis
    using parse_pos_show_nat [OF assms] show_nat_hd_digit [OF Cons]
    by (simp add: parse_int_def)
qed

lemma parse_int_show_int:
  assumes "lo \<le> i" "i \<le> hi" "sg \<or> 0 \<le> i"
  shows "parse_int sg lo hi (show_int i) = Inr i"
proof (cases "i < 0")
  case True
  then show ?thesis
    using assms parse_neg_show_nat [of lo "nat (- i)"]
    by (simp add: parse_int_def show_int_def)
next
  case False
  then show ?thesis
    using assms parse_int_show_nat [of "nat i" hi sg lo] by (simp add: show_int_def)
qed

text \<open>A parsed integer lies in the range of its type.\<close>

lemma parse_pos_range: "parse_pos hi acc s = Inr i \<Longrightarrow> 0 \<le> acc \<Longrightarrow> acc \<le> hi \<Longrightarrow> 0 \<le> i \<and> i \<le> hi"
  by (induction s arbitrary: acc) (fastforce split: option.splits if_splits)+

lemma parse_neg_range: "parse_neg lo acc s = Inr i \<Longrightarrow> acc \<le> 0 \<Longrightarrow> lo \<le> acc \<Longrightarrow> lo \<le> i \<and> i \<le> 0"
  by (induction s arbitrary: acc) (fastforce split: option.splits if_splits)+

lemma parse_int_cases:
  assumes "parse_int sg lo hi s = Inr i"
  shows "(\<exists>t. parse_pos hi 0 t = Inr i) \<or> (\<exists>t. parse_neg lo 0 t = Inr i)"
  using assms
  by (auto simp: parse_int_def simp del: parse_pos.simps parse_neg.simps
      split: list.splits if_splits)

lemma parse_int_range:
  assumes "parse_int sg lo hi s = Inr i" "lo \<le> 0" "0 \<le> hi"
  shows "lo \<le> i \<and> i \<le> hi"
  using parse_int_cases [OF assms(1)] assms(2,3) parse_pos_range [of hi 0 _ i] parse_neg_range [of lo 0 _ i]
  by force

section \<open>UTF-8\<close>

text \<open>
  \<open>std::str::from_utf8\<close>: the error carries \<open>valid_up_to\<close> and \<open>error_len\<close>
  (\<open>None\<close> when the input ends inside a sequence that may still become valid).
\<close>

record utf8_error =
  valid_up_to :: nat
  error_len :: "nat option"

definition utf8_error_at :: "nat \<Rightarrow> nat option \<Rightarrow> utf8_error" where
  "utf8_error_at off n = \<lparr>valid_up_to = off, error_len = n\<rparr>"

definition is_cont :: "char \<Rightarrow> bool" where
  "is_cont c \<longleftrightarrow> 128 \<le> byte c \<and> byte c \<le> 191"

definition second_of_3 :: "char \<Rightarrow> char \<Rightarrow> bool" where
  "second_of_3 c0 c1 \<longleftrightarrow>
     (if byte c0 = 0xE0 then 0xA0 \<le> byte c1 \<and> byte c1 \<le> 0xBF
      else if byte c0 = 0xED then 0x80 \<le> byte c1 \<and> byte c1 \<le> 0x9F
      else is_cont c1)"

definition second_of_4 :: "char \<Rightarrow> char \<Rightarrow> bool" where
  "second_of_4 c0 c1 \<longleftrightarrow>
     (if byte c0 = 0xF0 then 0x90 \<le> byte c1 \<and> byte c1 \<le> 0xBF
      else if byte c0 = 0xF4 then 0x80 \<le> byte c1 \<and> byte c1 \<le> 0x8F
      else is_cont c1)"

text \<open>
  One character: its width, or the \<open>error_len\<close> of the error at its first byte.
\<close>

definition utf8_char :: "char \<Rightarrow> bytes \<Rightarrow> nat option + nat" where
  "utf8_char c0 r0 =
     (if byte c0 < 128 then Inr 1
      else if 0xC2 \<le> byte c0 \<and> byte c0 \<le> 0xDF then
        (case r0 of
           [] \<Rightarrow> Inl None
         | c1 # _ \<Rightarrow> if \<not> is_cont c1 then Inl (Some 1) else Inr 2)
      else if 0xE0 \<le> byte c0 \<and> byte c0 \<le> 0xEF then
        (case r0 of
           [] \<Rightarrow> Inl None
         | c1 # r1 \<Rightarrow>
             if \<not> second_of_3 c0 c1 then Inl (Some 1)
             else (case r1 of
                [] \<Rightarrow> Inl None
              | c2 # _ \<Rightarrow> if \<not> is_cont c2 then Inl (Some 2) else Inr 3))
      else if 0xF0 \<le> byte c0 \<and> byte c0 \<le> 0xF4 then
        (case r0 of
           [] \<Rightarrow> Inl None
         | c1 # r1 \<Rightarrow>
             if \<not> second_of_4 c0 c1 then Inl (Some 1)
             else (case r1 of
                [] \<Rightarrow> Inl None
              | c2 # r2 \<Rightarrow>
                  if \<not> is_cont c2 then Inl (Some 2)
                  else (case r2 of
                     [] \<Rightarrow> Inl None
                   | c3 # _ \<Rightarrow> if \<not> is_cont c3 then Inl (Some 3) else Inr 4)))
      else Inl (Some 1))"

function utf8_check :: "nat \<Rightarrow> bytes \<Rightarrow> utf8_error option" where
  "utf8_check off [] = None"
| "utf8_check off (c # r) =
     (case utf8_char c r of
        Inl n \<Rightarrow> Some (utf8_error_at off n)
      | Inr w \<Rightarrow> utf8_check (off + w) (drop (w - 1) r))"
  by pat_completeness auto
termination
  by (relation "measure (\<lambda>(off, bs). length bs)") auto

lemma utf8_char_ascii: "byte c < 128 \<Longrightarrow> utf8_char c r = Inr 1"
  by (simp add: utf8_char_def)

lemma utf8_char_append:
  "utf8_char c r = Inr w \<Longrightarrow> utf8_char c (r @ bs) = Inr w \<and> w - 1 \<le> length r"
  unfolding utf8_char_def
  by (cases r; cases "tl r"; cases "tl (tl r)") (auto split: if_splits)

definition from_utf8 :: "bytes \<Rightarrow> utf8_error + string" where
  "from_utf8 bs = (case utf8_check 0 bs of Some e \<Rightarrow> Inl e | None \<Rightarrow> Inr bs)"

text \<open>\<open>Utf8Error::to_string()\<close>.\<close>

definition show_utf8_error :: "utf8_error \<Rightarrow> string" where
  "show_utf8_error e =
     (case error_len e of
        Some n \<Rightarrow> ''invalid utf-8 sequence of '' @ show_nat n @ '' bytes from index ''
                   @ show_nat (valid_up_to e)
      | None \<Rightarrow> ''incomplete utf-8 byte sequence from index '' @ show_nat (valid_up_to e))"

definition is_utf8 :: "bytes \<Rightarrow> bool" where
  "is_utf8 bs \<longleftrightarrow> utf8_check 0 bs = None"

lemma utf8_check_off: "utf8_check off bs = None \<longleftrightarrow> utf8_check off' bs = None"
proof (induction off bs arbitrary: off' rule: utf8_check.induct)
  case (1 off)
  then show ?case by simp
next
  case (2 off c r)
  show ?case
  proof (cases "utf8_char c r")
    case (Inl n)
    then show ?thesis by simp
  next
    case (Inr w)
    have "utf8_check (off + w) (drop (w - 1) r) = None \<longleftrightarrow> utf8_check (off' + w) (drop (w - 1) r) = None"
      using Inr by (rule "2.IH")
    with Inr show ?thesis by simp
  qed
qed

lemma from_utf8_valid [simp]: "is_utf8 bs \<Longrightarrow> from_utf8 bs = Inr bs"
  by (simp add: from_utf8_def is_utf8_def)

lemma from_utf8_Inr: "from_utf8 bs = Inr s \<longleftrightarrow> is_utf8 bs \<and> s = bs"
  by (auto simp: from_utf8_def is_utf8_def split: option.splits)

lemma is_utf8_Nil [simp]: "is_utf8 []"
  by (simp add: is_utf8_def)

lemma is_utf8_ascii:
  assumes "\<forall>c \<in> set bs. byte c < 128"
  shows "is_utf8 bs"
proof -
  have "utf8_check off bs = None" for off
    using assms by (induction bs arbitrary: off) (simp_all add: utf8_char_ascii)
  then show ?thesis by (simp add: is_utf8_def)
qed

lemma is_utf8_append:
  assumes "is_utf8 as" "is_utf8 bs"
  shows "is_utf8 (as @ bs)"
proof -
  have "utf8_check off as = None \<Longrightarrow> utf8_check off (as @ bs) = None" for off
  proof (induction off as rule: utf8_check.induct)
    case (1 off)
    then show ?case using assms(2) utf8_check_off [of off bs 0] by (simp add: is_utf8_def)
  next
    case (2 off c r)
    then obtain w where w: "utf8_char c r = Inr w" by (cases "utf8_char c r") auto
    then have "utf8_check (off + w) (drop (w - 1) r @ bs) = None" using 2 by simp
    moreover have "utf8_char c (r @ bs) = Inr w" "drop (w - 1) (r @ bs) = drop (w - 1) r @ bs"
      using utf8_char_append [OF w, of bs] by (simp, simp only: drop_append diff_is_0_eq' drop_0)
    ultimately show ?case by simp
  qed
  then show ?thesis using assms(1) by (simp add: is_utf8_def)
qed

lemma is_utf8_show_nat [simp]: "is_utf8 (show_nat n)"
  by (rule is_utf8_ascii) (use show_nat_byte in fastforce)

lemma is_utf8_show_int [simp]: "is_utf8 (show_int i)"
proof -
  have "is_utf8 [CHR ''-'']" by (rule is_utf8_ascii) (simp add: byte_def)
  then show ?thesis
    using is_utf8_append [of "[CHR ''-'']"] by (simp add: show_int_def)
qed

section \<open>Strings\<close>

definition ascii_upper :: "char \<Rightarrow> char" where
  "ascii_upper c = (if 97 \<le> byte c \<and> byte c \<le> 122 then char_of (byte c - 32) else c)"

definition to_ascii_uppercase :: "string \<Rightarrow> string" where
  "to_ascii_uppercase = map ascii_upper"

text \<open>
  The UTF-8 encodings of the characters with the Unicode property White_Space, which
  \<open>str::trim\<close> and \<open>str::split_whitespace\<close> use.
\<close>

definition whitespace :: "bytes list" where
  "whitespace =
     [[CHR 0x09], [CHR 0x0A], [CHR 0x0B], [CHR 0x0C], [CHR 0x0D], [CHR 0x20],
      [CHR 0xC2, CHR 0x85], [CHR 0xC2, CHR 0xA0], [CHR 0xE1, CHR 0x9A, CHR 0x80]]
     @ map (\<lambda>b. [CHR 0xE2, CHR 0x80, char_of b]) ([0x80 ..< 0x8B] @ [0xA8, 0xA9, 0xAF :: nat])
     @ [[CHR 0xE2, CHR 0x81, CHR 0x9F], [CHR 0xE3, CHR 0x80, CHR 0x80]]"

definition leading_ws :: "bytes \<Rightarrow> bytes option" where
  "leading_ws s = List.find (\<lambda>w. take (length w) s = w) whitespace"

lemma whitespace_not_Nil: "w \<in> set whitespace \<Longrightarrow> w \<noteq> []"
  by (auto simp: whitespace_def)

lemma leading_ws_Some:
  assumes "leading_ws s = Some w"
  shows "w \<noteq> [] \<and> take (length w) s = w"
  using assms whitespace_not_Nil by (auto simp: leading_ws_def find_Some_iff)

function trim_start :: "string \<Rightarrow> string" where
  "trim_start s = (case leading_ws s of None \<Rightarrow> s | Some w \<Rightarrow> trim_start (drop (length w) s))"
  by pat_completeness auto
termination
proof (relation "measure length")
  fix s w
  assume "leading_ws s = Some w"
  then have "w \<noteq> []" "length w \<le> length s"
    using leading_ws_Some by (auto, metis length_take min.cobounded1)
  then show "(drop (length w) s, s) \<in> measure length" by (cases w) auto
qed simp

declare trim_start.simps [simp del]

definition trailing_ws :: "bytes \<Rightarrow> bytes option" where
  "trailing_ws s = List.find (\<lambda>w. drop (length s - length w) s = w) whitespace"

lemma trailing_ws_Some:
  assumes "trailing_ws s = Some w"
  shows "w \<noteq> [] \<and> drop (length s - length w) s = w"
  using assms whitespace_not_Nil by (auto simp: trailing_ws_def find_Some_iff)

function trim_end :: "string \<Rightarrow> string" where
  "trim_end s =
     (case trailing_ws s of None \<Rightarrow> s | Some w \<Rightarrow> trim_end (take (length s - length w) s))"
  by pat_completeness auto
termination
proof (relation "measure length")
  fix s w
  assume "trailing_ws s = Some w"
  then have w: "w \<noteq> []" "drop (length s - length w) s = w"
    using trailing_ws_Some by auto
  then have "s \<noteq> []" by auto
  with w show "(take (length s - length w) s, s) \<in> measure length" by (cases w) auto
qed simp

declare trim_end.simps [simp del]

definition trim :: "string \<Rightarrow> string" where
  "trim s = trim_end (trim_start s)"

text \<open>ASCII characters that are neither white space nor control characters.\<close>

definition solid :: "char \<Rightarrow> bool" where
  "solid c \<longleftrightarrow> 32 < byte c \<and> byte c < 128"

lemma whitespace_not_solid:
  "w \<in> set whitespace \<Longrightarrow> w \<noteq> [] \<and> \<not> solid (hd w) \<and> \<not> solid (last w)"
  by (auto simp: whitespace_def solid_def byte_def)

lemma no_leading_ws:
  assumes "s \<noteq> []" "solid (hd s)"
  shows "leading_ws s = None"
proof -
  have "take (length w) s \<noteq> w" if "w \<in> set whitespace" for w
    using whitespace_not_solid [OF that] assms(2) by (metis hd_take length_greater_0_conv)
  then show ?thesis by (auto simp: leading_ws_def find_None_iff)
qed

lemma no_trailing_ws:
  assumes "s \<noteq> []" "solid (last s)"
  shows "trailing_ws s = None"
proof -
  have "drop (length s - length w) s \<noteq> w" if "w \<in> set whitespace" for w
    using whitespace_not_solid [OF that] assms(2) by (metis append_take_drop_id last_appendR)
  then show ?thesis by (auto simp: trailing_ws_def find_None_iff)
qed

lemma trim_start_solid: "s \<noteq> [] \<Longrightarrow> solid (hd s) \<Longrightarrow> trim_start s = s"
  by (simp add: trim_start.simps [of s] no_leading_ws)

lemma trim_end_solid: "s \<noteq> [] \<Longrightarrow> solid (last s) \<Longrightarrow> trim_end s = s"
  by (simp add: trim_end.simps [of s] no_trailing_ws)

lemma trim_solid: "s \<noteq> [] \<Longrightarrow> solid (hd s) \<Longrightarrow> solid (last s) \<Longrightarrow> trim s = s"
  by (simp add: trim_def trim_start_solid trim_end_solid)

lemma whitespace_crlf:
  assumes "c = CHR 0x0A \<or> c = CHR 0x0D"
  shows "[c] \<in> set whitespace"
  using assms by (auto simp: whitespace_def)

lemma whitespace_control: "w \<in> set whitespace \<Longrightarrow> byte (last w) < 14 \<Longrightarrow> w = [last w]"
  by (auto simp: whitespace_def byte_def)

lemma trailing_ws_crlf:
  assumes "c = CHR 0x0A \<or> c = CHR 0x0D"
  shows "trailing_ws (s @ [c]) = Some [c]"
proof (cases "trailing_ws (s @ [c])")
  case None
  then have "\<forall>w \<in> set whitespace. drop (length (s @ [c]) - length w) (s @ [c]) \<noteq> w"
    by (auto simp: trailing_ws_def find_None_iff)
  then show ?thesis using whitespace_crlf [OF assms] by fastforce
next
  case (Some w)
  then have "w \<in> set whitespace" by (auto simp: trailing_ws_def find_Some_iff)
  moreover have "last w = c"
    using trailing_ws_Some [OF Some] by (metis append_take_drop_id last_appendR last_snoc)
  moreover have "byte c < 14" using assms by (auto simp: byte_def)
  ultimately show ?thesis using Some whitespace_control by metis
qed

lemma trim_end_crlf: "trim_end (s @ crlf) = trim_end s"
proof -
  have "trim_end (s @ [CHR 0x0D, CHR 0x0A]) = trim_end (s @ [CHR 0x0D])"
    using trailing_ws_crlf [of "CHR 0x0A" "s @ [CHR 0x0D]"]
    by (subst trim_end.simps) simp
  moreover have "trim_end (s @ [CHR 0x0D]) = trim_end s"
    using trailing_ws_crlf [of "CHR 0x0D" s] by (subst trim_end.simps) simp
  ultimately show ?thesis by (simp add: crlf_def)
qed

lemma trim_line: "s \<noteq> [] \<Longrightarrow> solid (hd s) \<Longrightarrow> solid (last s) \<Longrightarrow> trim (s @ crlf) = s"
  by (simp add: trim_def trim_start_solid trim_end_crlf trim_end_solid)

text \<open>\<open>str::split(c)\<close> for an ASCII separator: always at least one piece.\<close>

fun split_on :: "char \<Rightarrow> string \<Rightarrow> string list" where
  "split_on sep [] = [[]]"
| "split_on sep (c # cs) =
     (if c = sep then [] # split_on sep cs
      else (case split_on sep cs of [] \<Rightarrow> [[c]] | p # ps \<Rightarrow> (c # p) # ps))"

text \<open>\<open>str::split_once(c)\<close>.\<close>

fun split_once :: "char \<Rightarrow> string \<Rightarrow> (string \<times> string) option" where
  "split_once sep [] = None"
| "split_once sep (c # cs) =
     (if c = sep then Some ([], cs)
      else map_option (\<lambda>(a, b). (c # a, b)) (split_once sep cs))"

lemma split_once_Some:
  "split_once sep s = Some (a, b) \<Longrightarrow> s = a @ sep # b \<and> sep \<notin> set a"
  by (induction s arbitrary: a) (auto split: if_splits)

lemma split_once_None: "split_once sep s = None \<longleftrightarrow> sep \<notin> set s"
  by (induction s) auto

text \<open>\<open>slice::join\<close> on strings.\<close>

fun join :: "string \<Rightarrow> string list \<Rightarrow> string" where
  "join sep [] = []"
| "join sep [x] = x"
| "join sep (x # y # ys) = x @ sep @ join sep (y # ys)"

text \<open>\<open>str::split_whitespace()\<close>: the maximal runs without whitespace.\<close>

function split_ws :: "string \<Rightarrow> string \<Rightarrow> string list" where
  "split_ws cur s =
     (case leading_ws s of
        Some w \<Rightarrow> (if cur = [] then [] else [cur]) @ split_ws [] (drop (length w) s)
      | None \<Rightarrow> (case s of
           [] \<Rightarrow> (if cur = [] then [] else [cur])
         | c # cs \<Rightarrow> split_ws (cur @ [c]) cs))"
  by pat_completeness auto
termination
proof (relation "measure (\<lambda>(cur, s). length s)")
  fix cur s w
  assume "leading_ws s = Some w"
  then have "w \<noteq> []" "length w \<le> length s"
    using leading_ws_Some by (auto, metis length_take min.cobounded1)
  then show "(([], drop (length w) s), (cur :: string), s) \<in> measure (\<lambda>(cur, s). length s)"
    by (cases w) auto
qed auto

declare split_ws.simps [simp del]

definition split_whitespace :: "string \<Rightarrow> string list" where
  "split_whitespace s = split_ws [] s"

lemma split_ws_word: "list_all solid w \<Longrightarrow> split_ws cur (w @ s) = split_ws (cur @ w) s"
  by (induction w arbitrary: cur) (simp_all add: split_ws.simps [of _ "_ # _"] no_leading_ws)

lemma split_ws_space: "cur \<noteq> [] \<Longrightarrow> split_ws cur (CHR '' '' # s) = cur # split_ws [] s"
  by (simp add: split_ws.simps [of cur] leading_ws_def whitespace_def)

lemma split_ws_end: "cur \<noteq> [] \<Longrightarrow> split_ws cur [] = [cur]"
  by (simp add: split_ws.simps [of cur] leading_ws_def whitespace_def)

lemma split_whitespace_two:
  assumes "list_all solid u" "list_all solid v" "u \<noteq> []" "v \<noteq> []"
  shows "split_whitespace (u @ CHR '' '' # v) = [u, v]"
proof -
  have "split_ws [] v = [v]" using split_ws_word [OF assms(2), of "[]" "[]"] assms(4) by (simp add: split_ws_end)
  then show ?thesis using assms by (simp add: split_whitespace_def split_ws_word split_ws_space)
qed

lemma split_whitespace_three:
  assumes "list_all solid u" "list_all solid v" "list_all solid w" "u \<noteq> []" "v \<noteq> []" "w \<noteq> []"
  shows "split_whitespace (u @ CHR '' '' # v @ CHR '' '' # w) = [u, v, w]"
proof -
  have "split_ws [] w = [w]" using split_ws_word [OF assms(3), of "[]" "[]"] assms(6) by (simp add: split_ws_end)
  then show ?thesis using assms by (simp add: split_whitespace_def split_ws_word split_ws_space)
qed

end
