(* ===== verification/Resp.thy ===== *)
theory Resp
  imports Rust_Std
begin

text \<open>
  \<open>src/protocol/resp.rs\<close>: the RESP value, its serializer and its incremental parser.

  A parser takes the buffer and returns its result with the buffer it leaves: the Rust
  functions mutate \<open>src\<close>, also on some error paths.  \<open>Done None\<close> is \<open>Ok(None)\<close>
  (more bytes are needed), \<open>Done (Some v)\<close> a complete frame, \<open>Fail e\<close> the error,
  \<open>Panic\<close> the panic of \<open>Vec::with_capacity\<close> on a capacity beyond \<open>isize::MAX\<close> bytes.
  \<open>TooDeep\<close> is no outcome of the source: it marks a recursion beyond the depth the model allows.
\<close>

section \<open>Values\<close>

datatype Value =
    SimpleString string
  | Error string
  | Integer int
  | BulkString "bytes option"
  | Array "Value list option"

definition value_ok :: Value where
  "value_ok = SimpleString ''OK''"

definition value_pong :: Value where
  "value_pong = SimpleString ''PONG''"

definition null_bulk :: Value where
  "null_bulk = BulkString None"

definition null_array :: Value where
  "null_array = Array None"

definition value_error :: "string \<Rightarrow> Value" where
  "value_error msg = Error msg"

definition value_string :: "string \<Rightarrow> Value" where
  "value_string s = BulkString (Some s)"

fun as_bytes :: "Value \<Rightarrow> bytes option" where
  "as_bytes (BulkString (Some b)) = Some b"
| "as_bytes _ = None"

fun as_str :: "Value \<Rightarrow> string option" where
  "as_str (SimpleString s) = Some s"
| "as_str (BulkString (Some b)) = (case from_utf8 b of Inr s \<Rightarrow> Some s | Inl _ \<Rightarrow> None)"
| "as_str _ = None"

section \<open>Serializer\<close>

fun serialize :: "Value \<Rightarrow> bytes \<Rightarrow> bytes" where
  "serialize (SimpleString s) buf = buf @ ''+'' @ s @ crlf"
| "serialize (Error s) buf = buf @ ''-ERR '' @ s @ crlf"
| "serialize (Integer i) buf = buf @ '':'' @ show_int i @ crlf"
| "serialize (BulkString None) buf = buf @ ''$-1'' @ crlf"
| "serialize (BulkString (Some data)) buf =
     buf @ ''$'' @ show_nat (length data) @ crlf @ data @ crlf"
| "serialize (Array None) buf = buf @ ''*-1'' @ crlf"
| "serialize (Array (Some elements)) buf =
     fold serialize elements (buf @ ''*'' @ show_nat (length elements) @ crlf)"

section \<open>Parser\<close>

datatype resp_parse_error =
    UnknownPrefix char
  | InvalidInteger
  | Protocol string

fun show_parse_error :: "resp_parse_error \<Rightarrow> string" where
  "show_parse_error (UnknownPrefix b) = ''Unknown RESP prefix byte: '' @ show_nat (byte b)"
| "show_parse_error InvalidInteger = ''Invalid integer in protocol''"
| "show_parse_error (Protocol msg) = ''Protocol error: '' @ msg"

datatype parse_result = Done "Value option" | Fail resp_parse_error | Panic | TooDeep

fun find_crlf :: "bytes \<Rightarrow> nat option" where
  "find_crlf (c # d # r) =
     (if c = CHR 0x0D \<and> d = CHR 0x0A then Some 0 else map_option Suc (find_crlf (d # r)))"
| "find_crlf _ = None"

definition get_line :: "bytes \<Rightarrow> (bytes \<times> nat) option" where
  "get_line src = map_option (\<lambda>i. (take i src, i + 2)) (find_crlf src)"

definition parse_simple_string :: "bytes \<Rightarrow> parse_result \<times> bytes" where
  "parse_simple_string src =
     (case get_line src of
        Some (line, consumed) \<Rightarrow>
          (case from_utf8 (drop 1 line) of
             Inl e \<Rightarrow> (Fail (Protocol (show_utf8_error e)), src)
           | Inr content \<Rightarrow> (Done (Some (SimpleString content)), drop consumed src))
      | None \<Rightarrow> (Done None, src))"

definition parse_error :: "bytes \<Rightarrow> parse_result \<times> bytes" where
  "parse_error src =
     (case get_line src of
        Some (line, consumed) \<Rightarrow>
          (case from_utf8 (drop 1 line) of
             Inl e \<Rightarrow> (Fail (Protocol (show_utf8_error e)), src)
           | Inr content \<Rightarrow> (Done (Some (Error content)), drop consumed src))
      | None \<Rightarrow> (Done None, src))"

definition parse_integer :: "bytes \<Rightarrow> parse_result \<times> bytes" where
  "parse_integer src =
     (case get_line src of
        Some (line, consumed) \<Rightarrow>
          (case from_utf8 (drop 1 line) of
             Inl e \<Rightarrow> (Fail (Protocol (show_utf8_error e)), src)
           | Inr s \<Rightarrow>
               (case parse_i64 s of
                  Inl _ \<Rightarrow> (Fail InvalidInteger, src)
                | Inr int_val \<Rightarrow> (Done (Some (Integer int_val)), drop consumed src)))
      | None \<Rightarrow> (Done None, src))"

text \<open>
  The length line that \<open>parse_bulk_string\<close> and \<open>parse_array\<close> both start with:
  \<open>Inr None\<close> is the early \<open>return Ok(None)\<close>.
\<close>

definition length_line :: "bytes \<Rightarrow> resp_parse_error + (int \<times> nat) option" where
  "length_line src =
     (case get_line src of
        Some (line, consumed) \<Rightarrow>
          (case from_utf8 (drop 1 line) of
             Inl e \<Rightarrow> Inl (Protocol (show_utf8_error e))
           | Inr s \<Rightarrow>
               (case parse_isize s of
                  Inl _ \<Rightarrow> Inl InvalidInteger
                | Inr len \<Rightarrow> Inr (Some (len, consumed))))
      | None \<Rightarrow> Inr None)"

definition parse_bulk_string :: "bytes \<Rightarrow> parse_result \<times> bytes" where
  "parse_bulk_string src =
     (case length_line src of
        Inl e \<Rightarrow> (Fail e, src)
      | Inr None \<Rightarrow> (Done None, src)
      | Inr (Some (len, line_len)) \<Rightarrow>
          if len = -1 then (Done (Some (BulkString None)), drop line_len src)
          else if len < 0 then
            (Fail (Protocol ''Negative bulk string length other than -1''), src)
          else if length src < line_len + nat len + 2 then (Done None, src)
          else
            let data = take (nat len) (drop line_len src);
                rest = drop (nat len) (drop line_len src)
            in if length rest < 2 \<or> rest ! 0 \<noteq> CHR 0x0D \<or> rest ! 1 \<noteq> CHR 0x0A then
                 (Fail (Protocol ''Expected CRLF after bulk string data''), rest)
               else (Done (Some (BulkString (Some data))), drop 2 rest))"

text \<open>
  The element loop of \<open>parse_array\<close> over the buffer \<open>temp\<close>, for the element parser
  \<open>f\<close>: \<open>Inl\<close> is a return from inside the loop.
\<close>

fun parse_elems ::
  "(bytes \<Rightarrow> parse_result \<times> bytes) \<Rightarrow> nat \<Rightarrow> bytes \<Rightarrow> Value list \<Rightarrow> parse_result + (Value list \<times> bytes)"
where
  "parse_elems f 0 temp elements = Inr (elements, temp)"
| "parse_elems f (Suc n) temp elements =
     (case f temp of
        (Done (Some elem), temp') \<Rightarrow> parse_elems f n temp' (elements @ [elem])
      | (r, _) \<Rightarrow> Inl r)"

definition parse_array ::
  "platform \<Rightarrow> (bytes \<Rightarrow> parse_result \<times> bytes) \<Rightarrow> bytes \<Rightarrow> parse_result \<times> bytes"
where
  "parse_array P f src =
     (case length_line src of
        Inl e \<Rightarrow> (Fail e, src)
      | Inr None \<Rightarrow> (Done None, src)
      | Inr (Some (cnt, line_len)) \<Rightarrow>
          if cnt = -1 then (Done (Some (Array None)), drop line_len src)
          else if cnt < 0 then
            (Fail (Protocol ''Negative array count other than -1''), src)
          else if nat cnt * size_of_value P > isize_max then (Panic, src)
          else
            (case parse_elems f (nat cnt) (drop line_len src) [] of
               Inl r \<Rightarrow> (r, src)
             | Inr (elements, temp) \<Rightarrow>
                 (Done (Some (Array (Some elements))), drop (length src - length temp) src)))"

text \<open>\<open>Value::parse\<close> with the parser of nested values as an argument.\<close>

definition parse_body ::
  "platform \<Rightarrow> (bytes \<Rightarrow> parse_result \<times> bytes) \<Rightarrow> bytes \<Rightarrow> parse_result \<times> bytes"
where
  "parse_body P f src =
     (case src of
        [] \<Rightarrow> (Done None, src)
      | c # _ \<Rightarrow>
          if c = CHR ''+'' then parse_simple_string src
          else if c = CHR ''-'' then parse_error src
          else if c = CHR '':'' then parse_integer src
          else if c = CHR ''$'' then parse_bulk_string src
          else if c = CHR ''*'' then parse_array P f src
          else (Fail (UnknownPrefix c), src))"

text \<open>
  The recursion of \<open>Value::parse\<close> through \<open>parse_array\<close>, to a nesting depth; calls
  nested deeper than that have the outcome \<open>TooDeep\<close>, which nothing else produces.  A
  nested value starts at least three bytes further in the buffer than its array, so the
  depth \<open>length src + 1\<close> is enough: \<open>parse_total\<close> below shows that \<open>parse\<close> has one
  of the source's outcomes on every buffer and satisfies the source's own recursion.
\<close>

fun parse_at :: "platform \<Rightarrow> nat \<Rightarrow> bytes \<Rightarrow> parse_result \<times> bytes" where
  "parse_at P 0 src = (TooDeep, src)"
| "parse_at P (Suc depth) src = parse_body P (parse_at P depth) src"

definition parse :: "platform \<Rightarrow> bytes \<Rightarrow> parse_result \<times> bytes" where
  "parse P src = parse_at P (Suc (length src)) src"

section \<open>Lines\<close>

lemma find_crlf_bound: "find_crlf b = Some i \<Longrightarrow> i + 2 \<le> length b"
  by (induction b arbitrary: i rule: find_crlf.induct) (auto split: if_splits)

lemma find_crlf_append: "find_crlf b = Some i \<Longrightarrow> find_crlf (b @ x) = Some i"
  by (induction b arbitrary: i rule: find_crlf.induct) (auto split: if_splits)

lemma find_crlf_None_append: "find_crlf s = None \<Longrightarrow> find_crlf (s @ crlf @ rest) = Some (length s)"
  by (induction s rule: find_crlf.induct) (auto simp: crlf_def split: if_splits)

lemma find_crlf_pos: "find_crlf (c # b) = Some i \<Longrightarrow> c \<noteq> CHR 0x0D \<Longrightarrow> 0 < i"
  by (cases b) (auto split: if_splits)

lemma find_crlf_no_cr: "CHR 0x0D \<notin> set s \<Longrightarrow> find_crlf s = None"
  by (induction s rule: find_crlf.induct) auto

lemma get_line_append: "get_line b = Some (l, n) \<Longrightarrow> get_line (b @ x) = Some (l, n)"
  using find_crlf_bound [of b] find_crlf_append [of b _ x]
  by (fastforce simp: get_line_def)

lemma get_line_bound: "get_line b = Some (l, n) \<Longrightarrow> 2 \<le> n \<and> n \<le> length b"
  using find_crlf_bound by (auto simp: get_line_def)

lemma get_line_hit:
  assumes "find_crlf s = None" "c \<noteq> CHR 0x0D"
  shows "get_line (c # s @ crlf @ rest) = Some (c # s, length s + 3)"
proof -
  have "find_crlf (c # s) = None" using assms by (cases s) auto
  then have "find_crlf ((c # s) @ crlf @ rest) = Some (length (c # s))"
    by (rule find_crlf_None_append)
  then show ?thesis by (simp add: get_line_def)
qed

lemma length_line_append:
  "length_line b \<noteq> Inr None \<Longrightarrow> length_line (b @ x) = length_line b"
  using get_line_append [of b _ _ x]
  by (auto simp: length_line_def split: option.splits)

lemma length_line_bound:
  "length_line b = Inr (Some (len, n)) \<Longrightarrow> 2 \<le> n \<and> n \<le> length b"
  using get_line_bound by (auto simp: length_line_def split: option.splits sum.splits)

section \<open>What a parser consumes\<close>

text \<open>
  A well-behaved parser leaves a suffix of its buffer, leaves the buffer alone when it
  needs more bytes, and makes progress when it returns a value.
\<close>

definition consumes :: "(bytes \<Rightarrow> parse_result \<times> bytes) \<Rightarrow> bool" where
  "consumes f \<longleftrightarrow> (\<forall>b r b'. f b = (r, b') \<longrightarrow>
     (\<exists>p. b = p @ b' \<and> (r = Done None \<longrightarrow> p = []) \<and> (\<forall>v. r = Done (Some v) \<longrightarrow> p \<noteq> [])))"

lemma consumesI:
  assumes "\<And>b r b'. f b = (r, b') \<Longrightarrow>
    \<exists>n. b' = drop n b \<and> (r = Done None \<longrightarrow> n = 0) \<and> (\<forall>v. r = Done (Some v) \<longrightarrow> 0 < n \<and> b \<noteq> [])"
  shows "consumes f"
  unfolding consumes_def
proof (intro allI impI)
  fix b r b' assume "f b = (r, b')"
  from assms [OF this] obtain n where n: "b' = drop n b" "r = Done None \<longrightarrow> n = 0"
    "\<forall>v. r = Done (Some v) \<longrightarrow> 0 < n \<and> b \<noteq> []" by blast
  then show "\<exists>p. b = p @ b' \<and> (r = Done None \<longrightarrow> p = []) \<and> (\<forall>v. r = Done (Some v) \<longrightarrow> p \<noteq> [])"
    by (intro exI [of _ "take n b"]) auto
qed

lemma consumesD:
  assumes "consumes f" "f b = (r, b')"
  obtains p where "b = p @ b'" "r = Done None \<Longrightarrow> p = []" "\<And>v. r = Done (Some v) \<Longrightarrow> p \<noteq> []"
  using assms unfolding consumes_def by blast

lemma consumes_length: "consumes f \<Longrightarrow> f b = (r, b') \<Longrightarrow> length b' \<le> length b"
  by (erule consumesD) auto

lemma parse_elems_suffix:
  assumes "consumes f" "parse_elems f n b es = Inr (es', b')"
  shows "\<exists>p. b = p @ b'"
  using assms(2)
proof (induction n arbitrary: b es)
  case (Suc n)
  obtain r c where fb: "f b = (r, c)" by (cases "f b")
  with Suc.prems obtain v where r: "r = Done (Some v)" and
    rec: "parse_elems f n c (es @ [v]) = Inr (es', b')"
    by (auto split: parse_result.splits option.splits)
  obtain p where "b = p @ c" using assms(1) fb by (rule consumesD)
  then show ?case using Suc.IH [OF rec] by auto
qed simp

lemma parse_elems_Inl: "parse_elems f n b es \<noteq> Inl (Done (Some v))"
  by (induction n arbitrary: b es) (auto split: prod.splits parse_result.splits option.splits)

lemma consumes_parse_array:
  assumes "consumes f"
  shows "consumes (parse_array P f)"
proof (rule consumesI)
  fix b r b' assume p: "parse_array P f b = (r, b')"
  show "\<exists>n. b' = drop n b \<and> (r = Done None \<longrightarrow> n = 0) \<and> (\<forall>v. r = Done (Some v) \<longrightarrow> 0 < n \<and> b \<noteq> [])"
  proof (cases "\<exists>v. r = Done (Some v)")
    case False
    then have "b' = b" using p
      by (auto simp: parse_array_def split: sum.splits option.splits if_splits)
    with False show ?thesis by (intro exI [of _ 0]) auto
  next
    case True
    then obtain v len n where ll: "length_line b = Inr (Some (len, n))" and r: "r = Done (Some v)"
      using p by (auto simp: parse_array_def split: sum.splits option.splits)
    have n: "2 \<le> n" "n \<le> length b" using length_line_bound [OF ll] by auto
    show ?thesis
    proof (cases "len = -1")
      case True
      then show ?thesis using p ll n by (intro exI [of _ n]) (auto simp: parse_array_def)
    next
      case False
      then obtain es t where pe: "parse_elems f (nat len) (drop n b) [] = Inr (es, t)"
        and b': "b' = drop (length b - length t) b"
        using p ll r parse_elems_Inl [of f "nat len" "drop n b" "[]" v]
        by (auto simp: parse_array_def split: sum.splits if_splits)
      obtain q where "drop n b = q @ t" using parse_elems_suffix [OF assms pe] by blast
      then have "length t \<le> length b - n" by (metis length_append length_drop le_add2)
      with n b' r show ?thesis by (intro exI [of _ "length b - length t"]) auto
    qed
  qed
qed

lemma consumes_parse_bulk_string: "consumes parse_bulk_string"
proof (rule consumesI)
  fix b r b' assume p: "parse_bulk_string b = (r, b')"
  show "\<exists>n. b' = drop n b \<and> (r = Done None \<longrightarrow> n = 0) \<and> (\<forall>v. r = Done (Some v) \<longrightarrow> 0 < n \<and> b \<noteq> [])"
  proof (cases "\<exists>len n. length_line b = Inr (Some (len, n))")
    case False
    then show ?thesis using p
      by (intro exI [of _ 0]) (auto simp: parse_bulk_string_def split: sum.splits option.splits)
  next
    case True
    then obtain len n where ll: "length_line b = Inr (Some (len, n))" by blast
    note n = length_line_bound [OF ll]
    show ?thesis
    proof (cases "len < 0 \<or> length b < n + nat len + 2")
      case True
      then show ?thesis using p ll n
        by (intro exI [of _ "if len = -1 then n else 0"])
          (auto simp: parse_bulk_string_def split: if_splits)
    next
      case False
      then have "b' = drop (n + nat len) b \<and> (\<exists>e. r = Fail e) \<or> b' = drop (n + nat len + 2) b"
        "r \<noteq> Done None"
        using p ll by (auto simp: parse_bulk_string_def Let_def add.commute split: if_splits)
      then show ?thesis using n by (elim disjE) force+
    qed
  qed
qed

text \<open>The three parsers of one-line frames share their shape.\<close>

definition line_parser :: "(bytes \<Rightarrow> resp_parse_error + Value) \<Rightarrow> bytes \<Rightarrow> parse_result \<times> bytes" where
  "line_parser h b =
     (case get_line b of
        None \<Rightarrow> (Done None, b)
      | Some (line, n) \<Rightarrow>
          (case h (drop 1 line) of
             Inl e \<Rightarrow> (Fail e, b)
           | Inr v \<Rightarrow> (Done (Some v), drop n b)))"

definition utf8_line :: "(string \<Rightarrow> resp_parse_error + Value) \<Rightarrow> bytes \<Rightarrow> resp_parse_error + Value" where
  "utf8_line k l = (case from_utf8 l of Inl e \<Rightarrow> Inl (Protocol (show_utf8_error e)) | Inr s \<Rightarrow> k s)"

definition integer_line :: "string \<Rightarrow> resp_parse_error + Value" where
  "integer_line s = (case parse_i64 s of Inl _ \<Rightarrow> Inl InvalidInteger | Inr i \<Rightarrow> Inr (Integer i))"

lemma line_parsers:
  "parse_simple_string = line_parser (utf8_line (Inr \<circ> SimpleString))"
  "parse_error = line_parser (utf8_line (Inr \<circ> Error))"
  "parse_integer = line_parser (utf8_line integer_line)"
  by (rule ext; simp add: parse_simple_string_def parse_error_def parse_integer_def line_parser_def
      utf8_line_def integer_line_def split: option.split sum.split)+

lemma consumes_line_parser: "consumes (line_parser h)"
proof (rule consumesI)
  fix b r b' assume p: "line_parser h b = (r, b')"
  show "\<exists>n. b' = drop n b \<and> (r = Done None \<longrightarrow> n = 0) \<and> (\<forall>v. r = Done (Some v) \<longrightarrow> 0 < n \<and> b \<noteq> [])"
  proof (cases "\<exists>v. r = Done (Some v)")
    case False
    with p have "b' = b" by (auto simp: line_parser_def split: option.splits sum.splits)
    with False show ?thesis by (intro exI [of _ 0]) auto
  next
    case True
    with p obtain l n where "get_line b = Some (l, n)" "b' = drop n b"
      by (auto simp: line_parser_def split: option.splits sum.splits)
    with True get_line_bound [of b l n] show ?thesis by (intro exI [of _ n]) auto
  qed
qed

lemma consumes_parse_line:
  "consumes parse_simple_string" "consumes parse_error" "consumes parse_integer"
  by (simp_all add: line_parsers consumes_line_parser)

lemma consumes_parse_body:
  assumes "consumes f"
  shows "consumes (parse_body P f)"
proof -
  have "\<exists>g. parse_body P f b = g b \<and> consumes g" for b
  proof (cases b)
    case Nil
    moreover have "consumes (\<lambda>b. (Done None, b))" by (rule consumesI) (auto intro: exI [of _ 0])
    ultimately show ?thesis by (auto simp: parse_body_def)
  next
    case (Cons c cs)
    moreover have "consumes (\<lambda>b. (Fail e, b))" for e by (rule consumesI) (auto intro: exI [of _ 0])
    ultimately show ?thesis
      using consumes_parse_line consumes_parse_bulk_string consumes_parse_array [OF assms, of P]
      by (simp add: parse_body_def) blast
  qed
  then show ?thesis unfolding consumes_def by metis
qed

lemma consumes_parse_at: "consumes (parse_at P d)"
proof (induction d)
  case 0
  have "parse_at P 0 = (\<lambda>b. (TooDeep, b))" by (rule ext) simp
  then show ?case by (auto intro!: consumesI exI [of _ 0])
next
  case (Suc d)
  have "parse_at P (Suc d) = parse_body P (parse_at P d)" by (rule ext) simp
  then show ?case using consumes_parse_body [OF Suc] by simp
qed

section \<open>The depth bound is never reached\<close>

lemma parse_elems_cong:
  assumes "\<And>b. length b \<le> m \<Longrightarrow> f b = g b" "consumes f" "length b \<le> m"
  shows "parse_elems f n b es = parse_elems g n b es"
  using assms(3)
proof (induction n arbitrary: b es)
  case (Suc n)
  obtain r c where fb: "f b = (r, c)" by (cases "f b")
  moreover have "g b = (r, c)" using assms(1) [OF Suc.prems] fb by simp
  moreover have "length c \<le> m" using consumes_length [OF assms(2) fb] Suc.prems by simp
  ultimately show ?case
    using Suc.IH by (auto split: parse_result.split option.split)
qed simp

lemma parse_body_cong:
  assumes "\<And>b'. length b' < length b \<Longrightarrow> f b' = g b'" "consumes f"
  shows "parse_body P f b = parse_body P g b"
proof -
  have "parse_elems f n (drop k b) [] = parse_elems g n (drop k b) []"
    if "2 \<le> k \<and> k \<le> length b" for n k
    using that by (intro parse_elems_cong [where m = "length b - 1"] assms(2) assms(1)) auto
  then have "parse_array P f b = parse_array P g b"
    using length_line_bound [of b] by (auto simp: parse_array_def split: sum.split option.split)
  then show ?thesis by (simp add: parse_body_def split: list.split)
qed

lemma parse_at_depth:
  "length b < d \<Longrightarrow> length b < d' \<Longrightarrow> parse_at P d b = parse_at P d' b"
proof (induction d arbitrary: d' b)
  case (Suc d)
  then obtain e where d': "d' = Suc e" by (cases d') auto
  have "parse_at P d b' = parse_at P e b'" if "length b' < length b" for b'
    using that Suc.prems d' by (intro Suc.IH) simp_all
  then have "parse_body P (parse_at P d) b = parse_body P (parse_at P e) b"
    by (intro parse_body_cong consumes_parse_at)
  with d' show ?case by simp
qed simp

lemma parse_at_parse: "length b < d \<Longrightarrow> parse_at P d b = parse P b"
  unfolding parse_def by (rule parse_at_depth) auto

lemma parse_unfold_eq: "parse P b = parse_body P (parse P) b"
proof -
  have "parse_body P (parse_at P (length b)) b = parse_body P (parse P) b"
    by (rule parse_body_cong) (simp_all add: parse_at_parse consumes_parse_at)
  then show ?thesis by (simp add: parse_def)
qed

lemma parse_elems_not_deep:
  assumes "\<And>b. length b \<le> m \<Longrightarrow> fst (f b) \<noteq> TooDeep" "consumes f" "length b \<le> m"
  shows "parse_elems f n b es \<noteq> Inl TooDeep"
  using assms(3)
proof (induction n arbitrary: b es)
  case (Suc n)
  obtain r c where fb: "f b = (r, c)" by (cases "f b")
  moreover have "r \<noteq> TooDeep" using assms(1) [OF Suc.prems] fb by simp
  moreover have "length c \<le> m" using consumes_length [OF assms(2) fb] Suc.prems by simp
  ultimately show ?case
    using Suc.IH by (auto split: parse_result.split option.split)
qed simp

lemma parse_array_not_deep:
  assumes "\<And>b'. length b' < length b \<Longrightarrow> fst (f b') \<noteq> TooDeep" "consumes f"
  shows "fst (parse_array P f b) \<noteq> TooDeep"
proof -
  have "parse_elems f n (drop k b) [] \<noteq> Inl TooDeep" if "2 \<le> k \<and> k \<le> length b" for n k
    using that by (intro parse_elems_not_deep [where m = "length b - 1"] assms(2) assms(1)) auto
  then show ?thesis
    using length_line_bound [of b] by (auto simp: parse_array_def split: sum.split option.split)
qed

lemma parse_at_not_deep: "length b < d \<Longrightarrow> fst (parse_at P d b) \<noteq> TooDeep"
proof (induction d arbitrary: b)
  case (Suc d)
  have "fst (parse_array P (parse_at P d) b) \<noteq> TooDeep"
    using Suc by (intro parse_array_not_deep consumes_parse_at) simp
  then show ?case
    by (auto simp: parse_body_def parse_simple_string_def parse_error_def parse_integer_def
        parse_bulk_string_def Let_def split: list.split option.split sum.split)
qed simp

lemma parse_not_deep [simp]: "parse P b \<noteq> (TooDeep, b')"
  using parse_at_not_deep [of b "Suc (length b)" P] by (auto simp: parse_def)

lemma consumes_parse: "consumes (parse P)"
  using consumes_parse_at unfolding consumes_def parse_def by blast

section \<open>More bytes do not change a result\<close>

definition stable :: "(bytes \<Rightarrow> parse_result \<times> bytes) \<Rightarrow> bool" where
  "stable f \<longleftrightarrow> (\<forall>b r b' x. f b = (r, b') \<longrightarrow> r \<noteq> Done None \<longrightarrow> f (b @ x) = (r, b' @ x))"

lemma stableD: "stable f \<Longrightarrow> f b = (r, b') \<Longrightarrow> r \<noteq> Done None \<Longrightarrow> f (b @ x) = (r, b' @ x)"
  by (simp add: stable_def)

lemma stable_line_parser: "stable (line_parser h)"
  unfolding stable_def
proof (intro allI impI)
  fix b r b' x assume p: "line_parser h b = (r, b')" and r: "r \<noteq> Done None"
  then obtain l n where gl: "get_line b = Some (l, n)"
    by (auto simp: line_parser_def split: option.splits)
  have "get_line (b @ x) = Some (l, n)" "n \<le> length b"
    using get_line_append [OF gl] get_line_bound [OF gl] by auto
  with p gl show "line_parser h (b @ x) = (r, b' @ x)"
    by (auto simp: line_parser_def split: sum.splits)
qed

lemma stable_parse_line:
  "stable parse_simple_string" "stable parse_error" "stable parse_integer"
  by (simp_all add: line_parsers stable_line_parser)

lemma parse_elems_append:
  assumes "stable f" "parse_elems f n b es = r" "r \<noteq> Inl (Done None)"
  shows "parse_elems f n (b @ x) es = map_sum id (map_prod id (\<lambda>b'. b' @ x)) r"
  using assms(2)
proof (induction n arbitrary: b es)
  case (Suc n)
  obtain q c where fb: "f b = (q, c)" by (cases "f b")
  then have "q \<noteq> Done None" using Suc.prems assms(3) by auto
  then have fbx: "f (b @ x) = (q, c @ x)" using stableD [OF assms(1) fb] by simp
  show ?case
  proof (cases "\<exists>v. q = Done (Some v)")
    case True
    then obtain v where v: "q = Done (Some v)" by blast
    then have "parse_elems f n c (es @ [v]) = r" using Suc.prems fb by simp
    from Suc.IH [OF this] show ?thesis using v fbx by simp
  next
    case False
    then have "r = Inl q" using Suc.prems fb \<open>q \<noteq> Done None\<close>
      by (auto split: parse_result.splits option.splits)
    then show ?thesis using False fbx by (auto split: parse_result.splits option.splits)
  qed
qed auto

lemma stable_parse_array:
  assumes "stable f" "consumes f"
  shows "stable (parse_array P f)"
  unfolding stable_def
proof (intro allI impI)
  fix b r b' x assume p: "parse_array P f b = (r, b')" and r: "r \<noteq> Done None"
  from p r have "length_line b \<noteq> Inr None" by (auto simp: parse_array_def)
  note ll = length_line_append [OF this, of x]
  show "parse_array P f (b @ x) = (r, b' @ x)"
  proof (cases "\<exists>len n. length_line b = Inr (Some (len, n)) \<and> \<not> len < 0 \<and> \<not> nat len * size_of_value P > isize_max")
    case False
    then show ?thesis using p r ll length_line_bound [of b]
      by (auto simp: parse_array_def split: sum.splits option.splits if_splits)
  next
    case True
    then obtain len n where n: "length_line b = Inr (Some (len, n))" "\<not> len < 0"
      "\<not> nat len * size_of_value P > isize_max" by blast
    define q where "q = parse_elems f (nat len) (drop n b) []"
    have nb: "n \<le> length b" using length_line_bound [OF n(1)] by simp
    have "q \<noteq> Inl (Done None)" using p r n by (auto simp: parse_array_def q_def)
    from parse_elems_append [OF assms(1) q_def [symmetric] this, of x]
    have pe: "parse_elems f (nat len) (drop n (b @ x)) [] = map_sum id (map_prod id (\<lambda>b'. b' @ x)) q"
      using nb by simp
    show ?thesis
    proof (cases q)
      case (Inl e)
      then show ?thesis using p n pe ll by (auto simp: parse_array_def q_def)
    next
      case (Inr et)
      obtain es t where et: "et = (es, t)" by (cases et)
      obtain y where "drop n b = y @ t"
        using parse_elems_suffix [OF assms(2)] Inr et q_def by metis
      then have "length t \<le> length b" by (metis length_append length_drop le_add2 diff_le_self le_trans)
      then show ?thesis using p n pe ll Inr et by (auto simp: parse_array_def q_def)
    qed
  qed
qed

lemma stable_parse_bulk_string: "stable parse_bulk_string"
  unfolding stable_def
proof (intro allI impI)
  fix b r b' x assume p: "parse_bulk_string b = (r, b')" and r: "r \<noteq> Done None"
  from p r have "length_line b \<noteq> Inr None" by (auto simp: parse_bulk_string_def)
  note ll = length_line_append [OF this, of x]
  show "parse_bulk_string (b @ x) = (r, b' @ x)"
  proof (cases "\<exists>len n. length_line b = Inr (Some (len, n)) \<and> \<not> len < 0")
    case False
    then show ?thesis using p r ll length_line_bound [of b]
      by (auto simp: parse_bulk_string_def split: sum.splits option.splits if_splits)
  next
    case True
    then obtain len n where n: "length_line b = Inr (Some (len, n))" "\<not> len < 0" by blast
    then have "n + nat len + 2 \<le> length b" using p r by (auto simp: parse_bulk_string_def split: if_splits)
    then show ?thesis using p n ll
      by (auto simp: parse_bulk_string_def Let_def nth_append split: if_splits)
  qed
qed

lemma stable_parse_body:
  assumes "stable f" "consumes f"
  shows "stable (parse_body P f)"
  unfolding stable_def
proof (intro allI impI)
  fix b r b' x assume p: "parse_body P f b = (r, b')" and r: "r \<noteq> Done None"
  then obtain c cs where b: "b = c # cs" by (cases b) (auto simp: parse_body_def)
  have "stable (\<lambda>b. (Fail (UnknownPrefix c), b))" by (simp add: stable_def)
  then have "\<exists>g. stable g \<and> parse_body P f b = g b \<and> parse_body P f (b @ x) = g (b @ x)"
    using b stable_parse_line stable_parse_bulk_string stable_parse_array [OF assms, of P]
    by (simp add: parse_body_def) blast
  then show "parse_body P f (b @ x) = (r, b' @ x)" using p r stableD by metis
qed

lemma stable_parse_at: "stable (parse_at P d)"
proof (induction d)
  case (Suc d)
  have "parse_at P (Suc d) = parse_body P (parse_at P d)" by (rule ext) simp
  then show ?case using stable_parse_body [OF Suc consumes_parse_at] by simp
qed (simp add: stable_def)

lemma stable_parse: "stable (parse P)"
  unfolding stable_def
proof (intro allI impI)
  fix b r b' x assume p: "parse P b = (r, b')" and r: "r \<noteq> Done None"
  let ?d = "Suc (length (b @ x))"
  have "parse_at P ?d b = (r, b')" using p by (subst parse_at_parse) simp_all
  from stableD [OF stable_parse_at this r] show "parse P (b @ x) = (r, b' @ x)"
    by (simp add: parse_def)
qed

section \<open>Serializing and parsing back\<close>

text \<open>The wire image of a value, as a function of the value alone.\<close>

fun encode :: "Value \<Rightarrow> bytes" where
  "encode (SimpleString s) = CHR ''+'' # s @ crlf"
| "encode (Error s) = CHR ''-'' # (''ERR '' @ s) @ crlf"
| "encode (Integer i) = CHR '':'' # show_int i @ crlf"
| "encode (BulkString None) = CHR ''$'' # show_int (-1) @ crlf"
| "encode (BulkString (Some b)) = CHR ''$'' # show_int (int (length b)) @ crlf @ b @ crlf"
| "encode (Array None) = CHR ''*'' # show_int (-1) @ crlf"
| "encode (Array (Some es)) = CHR ''*'' # show_int (int (length es)) @ crlf @ concat (map encode es)"

text \<open>
  The values the wire format can carry: strings are UTF-8 (the invariant of \<open>String\<close>)
  and contain no line break, integers are \<open>i64\<close>, and no vector exceeds
  \<open>isize::MAX\<close> bytes (the invariant of \<open>Vec\<close>).
\<close>

fun encodable :: "platform \<Rightarrow> Value \<Rightarrow> bool" where
  "encodable P (SimpleString s) = (is_utf8 s \<and> find_crlf s = None)"
| "encodable P (Error s) = (is_utf8 s \<and> find_crlf s = None)"
| "encodable P (Integer i) = (i64_min \<le> i \<and> i \<le> i64_max)"
| "encodable P (BulkString None) = True"
| "encodable P (BulkString (Some b)) = (length b \<le> isize_max)"
| "encodable P (Array None) = True"
| "encodable P (Array (Some es)) =
     (length es \<le> isize_max \<and> length es * size_of_value P \<le> isize_max
      \<and> list_all (encodable P) es)"

text \<open>What the peer reads back: the serializer puts \<open>ERR\<close> in front of every error.\<close>

fun reparse :: "Value \<Rightarrow> Value" where
  "reparse (Error s) = Error (''ERR '' @ s)"
| "reparse (Array (Some es)) = Array (Some (map reparse es))"
| "reparse v = v"

lemma show_int_minus_1: "show_int (-1) = ''-1''"
  by (simp add: show_int_def show_nat.simps digit_char_def) (code_simp)

lemma show_int_of_nat [simp]: "show_int (int n) = show_nat n"
  by (simp add: show_int_def)

lemma serialize_encode: "serialize v buf = buf @ encode v"
proof (induction v buf rule: serialize.induct)
  case (7 es buf)
  have "fold serialize xs b = b @ concat (map encode xs)" if "set xs \<subseteq> set es" for xs b
    using that by (induction xs arbitrary: b) (auto simp: "7")
  then show ?case by simp
qed (auto simp: show_int_minus_1)

lemma show_int_no_crlf: "find_crlf (show_int i) = None"
proof (rule find_crlf_no_cr)
  have "CHR 0x0D \<notin> set (show_nat n)" for n
    using show_nat_byte [of "CHR 0x0D" n] by (auto simp: byte_def)
  then show "CHR 0x0D \<notin> set (show_int i)" by (simp add: show_int_def)
qed

lemma drop_line: "drop (length s + 3) (c # s @ crlf @ rest) = rest"
  by (simp add: crlf_def numeral_3_eq_3)

lemma length_line_hit:
  assumes "c \<noteq> CHR 0x0D" "i64_min \<le> i" "i \<le> i64_max"
  shows "length_line (c # show_int i @ crlf @ rest) = Inr (Some (i, length (show_int i) + 3))"
  using assms get_line_hit [OF show_int_no_crlf assms(1), of i rest]
    parse_int_show_int [of i64_min i i64_max True]
  by (simp add: length_line_def parse_isize_def)

lemma line_parser_hit:
  assumes "c \<noteq> CHR 0x0D" "find_crlf s = None" "h s = Inr v"
  shows "line_parser h (c # s @ crlf @ rest) = (Done (Some v), rest)"
  using get_line_hit [OF assms(2,1), of rest] assms(3)
  by (simp add: line_parser_def drop_line)

lemma utf8_line_hit: "is_utf8 s \<Longrightarrow> utf8_line k s = k s"
  by (simp add: utf8_line_def)

lemma parse_elems_encode:
  assumes "\<And>e rest. e \<in> set es \<Longrightarrow> f (encode e @ rest) = (Done (Some (reparse e)), rest)"
  shows "parse_elems f (length es) (concat (map encode es) @ rest) acc = Inr (acc @ map reparse es, rest)"
  using assms by (induction es arbitrary: acc) simp_all

lemma encode_not_Nil [simp]: "encode v \<noteq> []"
  by (cases v rule: encode.cases) simp_all

lemma parse_array_encode:
  assumes "\<And>e rest. e \<in> set es \<Longrightarrow> f (encode e @ rest) = (Done (Some (reparse e)), rest)"
    and "length es \<le> isize_max" "length es * size_of_value P \<le> isize_max"
  shows "parse_array P f (encode (Array (Some es)) @ rest)
    = (Done (Some (Array (Some (map reparse es)))), rest)"
proof -
  let ?n = "show_int (int (length es))" and ?t = "concat (map encode es) @ rest"
  define b where "b = CHR ''*'' # ?n @ crlf @ ?t"
  have "b = (CHR ''*'' # ?n @ crlf @ concat (map encode es)) @ rest" by (simp add: b_def)
  then have "drop (length b - length rest) b = rest" by (rule drop_suffix)
  moreover have "length_line b = Inr (Some (int (length es), length ?n + 3))"
    unfolding b_def using assms(2) by (intro length_line_hit) auto
  moreover have "drop (length ?n + 3) b = ?t" unfolding b_def by (rule drop_line)
  moreover have "encode (Array (Some es)) @ rest = b" by (simp add: b_def)
  moreover note parse_elems_encode [of es f rest "[]", OF assms(1)]
  ultimately show ?thesis using assms(3) by (simp add: parse_array_def del: encode.simps)
qed

lemma parse_bulk_encode:
  assumes "length b \<le> isize_max"
  shows "parse_bulk_string (encode (BulkString (Some b)) @ rest) = (Done (Some (BulkString (Some b))), rest)"
proof -
  let ?b = "CHR ''$'' # show_int (int (length b)) @ crlf @ (b @ crlf @ rest)"
  have "length_line ?b = Inr (Some (int (length b), length (show_int (int (length b))) + 3))"
    using assms by (intro length_line_hit) auto
  moreover have "drop (length (show_int (int (length b))) + 3) ?b = b @ crlf @ rest" by (rule drop_line)
  ultimately show ?thesis by (simp add: parse_bulk_string_def crlf_def Let_def)
qed

lemma parse_null_encode:
  "parse_bulk_string (encode (BulkString None) @ rest) = (Done (Some (BulkString None)), rest)"
  "parse_array P f (encode (Array None) @ rest) = (Done (Some (Array None)), rest)"
proof -
  have ll: "c \<noteq> CHR 0x0D \<Longrightarrow> length_line (c # show_int (-1) @ crlf @ rest) = Inr (Some (-1, length (show_int (-1)) + 3))"
    for c by (rule length_line_hit) simp_all
  show "parse_bulk_string (encode (BulkString None) @ rest) = (Done (Some (BulkString None)), rest)"
    "parse_array P f (encode (Array None) @ rest) = (Done (Some (Array None)), rest)"
    using ll [of "CHR ''$''"] ll [of "CHR ''*''"]
    by (simp_all add: parse_bulk_string_def parse_array_def drop_line)
qed

lemma parse_encode:
  "encodable P v \<Longrightarrow> parse P (encode v @ rest) = (Done (Some (reparse v)), rest)"
proof (induction v arbitrary: rest rule: encode.induct)
  case (1 s)
  then show ?case
    using line_parser_hit [of "CHR ''+''" s "utf8_line (Inr \<circ> SimpleString)"]
    by (subst parse_unfold_eq) (simp add: parse_body_def line_parsers utf8_line_hit)
next
  case (2 s)
  have "is_utf8 ''ERR ''" by (rule is_utf8_ascii) (simp add: byte_def)
  then have "is_utf8 (''ERR '' @ s)" using 2 by (intro is_utf8_append) simp_all
  moreover have "find_crlf (''ERR '' @ s) = None" using 2 by (cases s) simp_all
  ultimately show ?case
    using line_parser_hit [of "CHR ''-''" "''ERR '' @ s" "utf8_line (Inr \<circ> Error)"]
    by (subst parse_unfold_eq) (simp add: parse_body_def line_parsers utf8_line_hit)
next
  case (3 i)
  then have "integer_line (show_int i) = Inr (Integer i)"
    using parse_int_show_int [of i64_min i i64_max True] by (simp add: integer_line_def parse_i64_def)
  then show ?case
    using line_parser_hit [of "CHR '':''" "show_int i" "utf8_line integer_line"] show_int_no_crlf [of i]
    by (subst parse_unfold_eq) (simp add: parse_body_def line_parsers utf8_line_hit)
next
  case 4
  then show ?case
    using parse_null_encode(1) by (subst parse_unfold_eq) (simp add: parse_body_def)
next
  case (5 b)
  then show ?case
    using parse_bulk_encode [of b rest] by (subst parse_unfold_eq) (simp add: parse_body_def)
next
  case 6
  then show ?case
    using parse_null_encode(2) by (subst parse_unfold_eq) (simp add: parse_body_def)
next
  case (7 es)
  have "parse P (encode e @ r) = (Done (Some (reparse e)), r)" if "e \<in> set es" for e r
    using 7 that by (simp add: list_all_iff)
  from parse_array_encode [OF this] 7 show ?case
    by (subst parse_unfold_eq) (simp add: parse_body_def)
qed

section \<open>Parsed values are well formed\<close>

definition yields :: "(Value \<Rightarrow> bool) \<Rightarrow> (bytes \<Rightarrow> parse_result \<times> bytes) \<Rightarrow> bool" where
  "yields Q f \<longleftrightarrow> (\<forall>b v b'. f b = (Done (Some v), b') \<longrightarrow> Q v)"

lemma find_crlf_take: "find_crlf b = Some i \<Longrightarrow> find_crlf (take i b) = None"
proof (induction b arbitrary: i rule: find_crlf.induct)
  case (1 c d r)
  show ?case
  proof (cases "c = CHR 0x0D \<and> d = CHR 0x0A")
    case False
    then obtain j where j: "find_crlf (d # r) = Some j" "i = Suc j" using 1 by auto
    then have "find_crlf (take j (d # r)) = None" using 1 False by simp
    then show ?thesis using False j by (cases j) auto
  qed (use 1 in simp)
qed simp_all

lemma find_crlf_drop1: "find_crlf l = None \<Longrightarrow> find_crlf (drop 1 l) = None"
  by (cases l rule: find_crlf.cases) (auto split: if_splits)

lemma get_line_content: "get_line b = Some (l, n) \<Longrightarrow> find_crlf (drop 1 l) = None"
  using find_crlf_take find_crlf_drop1 by (auto simp: get_line_def)

lemma yields_line_parser:
  assumes "\<And>l v. find_crlf l = None \<Longrightarrow> h l = Inr v \<Longrightarrow> Q v"
  shows "yields Q (line_parser h)"
  unfolding yields_def
proof (intro allI impI)
  fix b v b' assume "line_parser h b = (Done (Some v), b')"
  then obtain l n where "get_line b = Some (l, n)" "h (drop 1 l) = Inr v"
    by (auto simp: line_parser_def split: option.splits sum.splits)
  then show "Q v" using assms get_line_content by blast
qed

lemma yields_parse_line:
  "yields (encodable P) parse_simple_string" "yields (encodable P) parse_error"
  "yields (encodable P) parse_integer"
  unfolding line_parsers
  by (rule yields_line_parser,
      auto simp: utf8_line_def integer_line_def parse_i64_def from_utf8_Inr
        dest: parse_int_range split: sum.splits)+

lemma length_line_range:
  "length_line b = Inr (Some (len, n)) \<Longrightarrow> i64_min \<le> len \<and> len \<le> i64_max"
  using parse_int_range
  by (auto simp: length_line_def parse_isize_def split: option.splits sum.splits)

lemma yields_parse_bulk_string: "yields (encodable P) parse_bulk_string"
  unfolding yields_def
proof (intro allI impI)
  fix b v b' assume p: "parse_bulk_string b = (Done (Some v), b')"
  then obtain len n where ll: "length_line b = Inr (Some (len, n))"
    by (auto simp: parse_bulk_string_def split: sum.splits option.splits)
  have "nat len \<le> isize_max" using length_line_range [OF ll] by (simp add: nat_le_iff)
  then show "encodable P v" using p ll
    by (auto simp: parse_bulk_string_def Let_def split: if_splits)
qed

lemma yields_parse_elems:
  assumes "yields Q f" "parse_elems f n b es = Inr (es', b')" "list_all Q es"
  shows "list_all Q es' \<and> length es' = length es + n"
  using assms(2,3)
proof (induction n arbitrary: b es)
  case (Suc n)
  then obtain v c where "f b = (Done (Some v), c)" "parse_elems f n c (es @ [v]) = Inr (es', b')"
    by (auto split: prod.splits parse_result.splits option.splits)
  moreover from this have "Q v" using assms(1) unfolding yields_def by blast
  ultimately show ?case using Suc by fastforce
qed simp

lemma yields_parse_array:
  assumes "yields (encodable P) f"
  shows "yields (encodable P) (parse_array P f)"
  unfolding yields_def
proof (intro allI impI)
  fix b v b' assume p: "parse_array P f b = (Done (Some v), b')"
  then obtain len n where ll: "length_line b = Inr (Some (len, n))"
    by (auto simp: parse_array_def split: sum.splits option.splits)
  have len: "nat len \<le> isize_max" using length_line_range [OF ll] by (simp add: nat_le_iff)
  show "encodable P v"
  proof (cases "len = -1")
    case True
    then show ?thesis using p ll by (auto simp: parse_array_def)
  next
    case False
    then obtain es t where pe: "parse_elems f (nat len) (drop n b) [] = Inr (es, t)"
      and v: "v = Array (Some es)" "nat len * size_of_value P \<le> isize_max"
      using p ll parse_elems_Inl [of f "nat len" "drop n b" "[]" v]
      by (auto simp: parse_array_def split: sum.splits if_splits)
    from yields_parse_elems [OF assms pe] v len show ?thesis by simp
  qed
qed

lemma yields_parse_at: "yields (encodable P) (parse_at P d)"
proof (induction d)
  case (Suc d)
  show ?case
    using yields_parse_line yields_parse_bulk_string yields_parse_array [OF Suc]
    unfolding yields_def by (auto simp: parse_body_def split: list.splits if_splits)
qed (simp add: yields_def)

lemma parse_encodable: "parse P b = (Done (Some v), b') \<Longrightarrow> encodable P v"
  using yields_parse_at unfolding yields_def parse_def by blast

section \<open>Properties\<close>

text \<open>
  C1.  Round trip: what \<open>serialize\<close> writes, \<open>Value::parse\<close> reads back, leaving exactly
  the bytes that follow the frame; errors come back with the \<open>ERR\<close> prefix the
  serializer adds.
\<close>

theorem resp_roundtrip:
  assumes "encodable P v"
  shows "parse P (serialize v [] @ rest) = (Done (Some (reparse v)), rest)"
  using parse_encode [OF assms] by (simp add: serialize_encode)

theorem resp_roundtrip_witness:
  "parse sample_platform (serialize (Array (Some [value_string ''SET'', Integer (-7), Error ''x''])) [] @ ''+'')
    = (Done (Some (Array (Some [value_string ''SET'', Integer (-7), Error ''ERR x'']))), ''+'')"
proof -
  have "encodable sample_platform (Array (Some [value_string ''SET'', Integer (-7), Error ''x'']))"
    by (simp add: value_string_def sample_platform_def is_utf8_ascii byte_def)
  from resp_roundtrip [OF this, of "''+''"] show ?thesis by (simp add: value_string_def)
qed

text \<open>
  C13.  Incremental parsing: once \<open>Value::parse\<close> has reached a verdict on a buffer (a
  value, an error or a panic), more bytes at the end change neither the verdict nor what
  is consumed; so the way TCP fragments the stream cannot change a frame.
\<close>

theorem parse_extend:
  assumes "parse P b = (r, b')" "r \<noteq> Done None"
  shows "parse P (b @ x) = (r, b' @ x)"
  using stableD [OF stable_parse assms] .

theorem parse_extend_witness:
  "parse sample_platform (encode (value_string ''ab'') @ ''xyz'') = (Done (Some (value_string ''ab'')), ''xyz'')"
proof -
  have "encodable sample_platform (value_string ''ab'')" by (simp add: value_string_def)
  from parse_encode [OF this, of "[]"]
  have "parse sample_platform (encode (value_string ''ab'')) = (Done (Some (value_string ''ab'')), [])"
    by (simp add: value_string_def)
  from parse_extend [OF this, of "''xyz''"] show ?thesis by simp
qed

text \<open>
   What a parse consumes: it always leaves a suffix of the buffer; when it needs more
  bytes it consumes nothing (a partial array included), and when it returns a value it
  consumes at least one byte.
\<close>

lemma parse_consumes:
  assumes "parse P b = (r, b')"
  shows "\<exists>p. b = p @ b' \<and> (r = Done None \<longrightarrow> p = []) \<and> (\<forall>v. r = Done (Some v) \<longrightarrow> p \<noteq> [])"
  using consumes_parse [of P] assms unfolding consumes_def by blast

text \<open>
  C37.  \<open>Value::parse\<close>, whose array case calls itself on the elements, returns on every
  buffer: its calls nest no deeper than the buffer has bytes (with that depth, or any
  larger one, the outcome is never \<open>TooDeep\<close> and always the same), and the outcome
  satisfies the source's own recursion, in which the nested parser is \<open>Value::parse\<close>.
\<close>

theorem parse_total:
  "fst (parse P b) \<noteq> TooDeep
    \<and> parse_at P (Suc (length b + k)) b = parse P b
    \<and> parse P b = parse_body P (parse P) b"
  using parse_at_not_deep [of b "Suc (length b)" P] parse_at_parse [of b "Suc (length b + k)" P]
    parse_unfold_eq [of P b]
  by (simp only: parse_def) simp

text \<open>
  No fixed depth is enough: four bytes of input per level make the calls nest as deep as
  one likes, so the stack the parser needs is bounded by the payload limit alone.
\<close>

lemma nested_headers_deep:
  assumes "size_of_value P \<le> isize_max"
  shows "fst (parse_at P d (concat (replicate d (''*1'' @ crlf)))) = TooDeep"
proof (induction d)
  case (Suc d)
  define k where "k = concat (replicate d (''*1'' @ crlf))"
  obtain t where t: "parse_at P d k = (TooDeep, t)" using Suc by (cases "parse_at P d k") (simp add: k_def)
  have "show_int 1 = ''1''" by code_simp
  then have "length_line (''*1'' @ crlf @ k) = Inr (Some (1, 4))"
    using length_line_hit [of "CHR ''*''" 1 k] by simp
  then have "fst (parse_at P (Suc d) (''*1'' @ crlf @ k)) = TooDeep"
    using t assms by (simp add: parse_body_def parse_array_def crlf_def)
  then show ?case by (simp add: k_def)
qed simp

text \<open>
   Every value the parser returns is well formed: strings are valid UTF-8 without a
  line break, integers lie in the range of \<open>i64\<close>, lengths fit \<open>isize\<close>; hence it can
  be serialized and parsed again.
\<close>

lemma parse_wellformed:
  assumes "parse P b = (Done (Some v), b')"
  shows "encodable P v \<and> parse P (serialize v []) = (Done (Some (reparse v)), [])"
  using parse_encodable [OF assms] parse_encode [of P v "[]"] by (simp add: serialize_encode)

text \<open>
   An array header alone can panic the connection task: a count whose elements would
  take more than \<open>isize::MAX\<close> bytes makes \<open>Vec::with_capacity\<close> panic before any
  element has been received.
\<close>

lemma parse_array_capacity_panic:
  assumes "n \<le> isize_max" "isize_max < n * size_of_value P"
  shows "parse P (CHR ''*'' # show_nat n @ crlf @ rest) = (Panic, CHR ''*'' # show_nat n @ crlf @ rest)"
proof -
  have "length_line (CHR ''*'' # show_int (int n) @ crlf @ rest) = Inr (Some (int n, length (show_int (int n)) + 3))"
    using assms(1) by (intro length_line_hit) auto
  then show ?thesis using assms(2)
    by (subst parse_unfold_eq) (simp add: parse_body_def parse_array_def)
qed

end
