(* ===== verification/Topology.thy ===== *)
theory Topology
  imports Slot Resp Hash_Map
begin

text \<open>
  \<open>src/cluster/topology.rs\<close>: the nodes of the cluster and the assignment of the 16384
  hash slots.  \<open>Arc<ClusterNode>\<close> is an immutable snapshot of a node, so a slot holds the
  node as it was when the slot was assigned; later changes of the node's entry in \<open>nodes\<close>
  do not reach it.  A fallible operation returns its \<open>Result\<close> with the topology it leaves;
  the index panic of \<open>slot_to_node[slot]\<close> is an error of its own, \<open>IndexPanic\<close>.
\<close>

section \<open>Definitions\<close>

record cluster_node =
  node_id :: string
  node_ip :: string
  node_port :: u16
  bus_port :: u16
  is_myself :: bool
  is_master :: bool
  node_slots :: "(u16 \<times> u16) list"

definition node_new :: "string \<Rightarrow> string \<Rightarrow> u16 \<Rightarrow> u16 \<Rightarrow> bool \<Rightarrow> bool \<Rightarrow> cluster_node" where
  "node_new i ip p bp me ma =
     \<lparr>node_id = i, node_ip = ip, node_port = p, bus_port = bp, is_myself = me, is_master = ma, node_slots = []\<rparr>"

definition endpoint :: "cluster_node \<Rightarrow> string" where
  "endpoint n = node_ip n @ '':'' @ show_u16 (node_port n)"

record cluster_topology =
  nodes :: "cluster_node hmap"
  slot_to_node :: "cluster_node option list"
  myself_id :: string

definition topology_new :: "platform \<Rightarrow> cluster_node \<Rightarrow> cluster_topology" where
  "topology_new P myself =
     \<lparr>nodes = hm_insert (bucket_order P) [] (node_id myself) myself,
      slot_to_node = replicate (unat HASH_SLOTS) None,
      myself_id = node_id myself\<rparr>"

definition topo_myself :: "cluster_topology \<Rightarrow> cluster_node option" where
  "topo_myself t = hm_get (nodes t) (myself_id t)"

definition add_node :: "platform \<Rightarrow> cluster_node \<Rightarrow> cluster_topology \<Rightarrow> cluster_topology" where
  "add_node P n t = t\<lparr>nodes := hm_insert (bucket_order P) (nodes t) (node_id n) n\<rparr>"

datatype slot_error = SlotError string | IndexPanic

text \<open>
  \<open>self.slot_to_node[slot as usize] = Some(node.clone())\<close> for the slots in turn: the first
  index out of range panics (\<open>False\<close>), with the slots before it assigned.
\<close>

fun set_slots :: "cluster_node \<Rightarrow> nat list \<Rightarrow> cluster_node option list \<Rightarrow> bool \<times> cluster_node option list" where
  "set_slots n [] ss = (True, ss)"
| "set_slots n (s # js) ss = (if s < length ss then set_slots n js (ss[s := Some n]) else (False, ss))"

text \<open>The loop \<open>for slot in start..=end\<close>.\<close>

definition assign_loop :: "cluster_node \<Rightarrow> u16 \<Rightarrow> u16 \<Rightarrow> cluster_node option list \<Rightarrow> bool \<times> cluster_node option list" where
  "assign_loop n a b ss = set_slots n [unat a..<Suc (unat b)] ss"

definition add_slots_range ::
    "string \<Rightarrow> u16 \<Rightarrow> u16 \<Rightarrow> cluster_topology \<Rightarrow> (slot_error + unit) \<times> cluster_topology" where
  "add_slots_range i a b t =
     (if a > b \<or> b \<ge> HASH_SLOTS
      then (Inl (SlotError (''Invalid slot range '' @ show_u16 a @ ''-'' @ show_u16 b)), t)
      else (case hm_get (nodes t) i of
              None \<Rightarrow> (Inl (SlotError (''Unknown node id '' @ i)), t)
            | Some n \<Rightarrow>
                (case assign_loop n a b (slot_to_node t) of
                   (False, ss) \<Rightarrow> (Inl IndexPanic, t\<lparr>slot_to_node := ss\<rparr>)
                 | (True, ss) \<Rightarrow>
                     (Inr (),
                      t\<lparr>slot_to_node := ss,
                        nodes := hm_put (nodes t) i (n\<lparr>node_slots := node_slots n @ [(a, b)]\<rparr>)\<rparr>))))"

definition assign_part ::
    "string \<Rightarrow> string \<Rightarrow> cluster_topology \<Rightarrow> (slot_error + unit) \<times> cluster_topology" where
  "assign_part i part0 t =
     (let part = trim part0
      in if part = [] then (Inr (), t)
         else (case split_once CHR ''-'' part of
             Some (start_s, end_s) \<Rightarrow>
               (case parse_u16 (trim start_s) of
                  Inl e \<Rightarrow> (Inl (SlotError (show_int_error e)), t)
                | Inr a \<Rightarrow>
                    (case parse_u16 (trim end_s) of
                       Inl e \<Rightarrow> (Inl (SlotError (show_int_error e)), t)
                     | Inr b \<Rightarrow> add_slots_range i a b t))
           | None \<Rightarrow>
               (case parse_u16 part of
                  Inl e \<Rightarrow> (Inl (SlotError (show_int_error e)), t)
                | Inr s \<Rightarrow> add_slots_range i s s t)))"

fun assign_parts ::
    "string \<Rightarrow> string list \<Rightarrow> cluster_topology \<Rightarrow> (slot_error + unit) \<times> cluster_topology" where
  "assign_parts i [] t = (Inr (), t)"
| "assign_parts i (p # ps) t =
     (case assign_part i p t of
        (Inl e, t') \<Rightarrow> (Inl e, t')
      | (Inr _, t') \<Rightarrow> assign_parts i ps t')"

definition parse_and_assign_slots ::
    "string \<Rightarrow> string \<Rightarrow> cluster_topology \<Rightarrow> (slot_error + unit) \<times> cluster_topology" where
  "parse_and_assign_slots i spec t = assign_parts i (split_on CHR '','' spec) t"

definition get_node_for_slot :: "cluster_topology \<Rightarrow> u16 \<Rightarrow> cluster_node option" where
  "get_node_for_slot t s =
     (if unat s < length (slot_to_node t) then slot_to_node t ! unat s else None)"

definition owns_slot :: "cluster_topology \<Rightarrow> u16 \<Rightarrow> bool" where
  "owns_slot t s =
     (case get_node_for_slot t s of Some owner \<Rightarrow> node_id owner = myself_id t | None \<Rightarrow> False)"

subsection \<open>Reports\<close>

definition assigned_count :: "cluster_topology \<Rightarrow> nat" where
  "assigned_count t = length (filter (\<lambda>s. s \<noteq> None) (slot_to_node t))"

definition format_cluster_info :: "cluster_topology \<Rightarrow> string" where
  "format_cluster_info t =
     (let assigned = assigned_count t;
          state = (if assigned = unat HASH_SLOTS then ''ok'' else ''fail'');
          known = length (nodes t);
          masters = length (filter (is_master \<circ> snd) (nodes t))
      in ''cluster_state:'' @ state @ crlf
         @ ''cluster_slots_assigned:'' @ show_nat assigned @ crlf
         @ ''cluster_slots_ok:'' @ show_nat assigned @ crlf
         @ ''cluster_slots_pfail:0'' @ crlf @ ''cluster_slots_fail:0'' @ crlf
         @ ''cluster_known_nodes:'' @ show_nat known @ crlf
         @ ''cluster_size:'' @ show_nat masters @ crlf
         @ ''cluster_current_epoch:1'' @ crlf @ ''cluster_my_epoch:1'' @ crlf
         @ ''cluster_stats_messages_sent:0'' @ crlf @ ''cluster_stats_messages_received:0'' @ crlf)"

definition show_range :: "u16 \<times> u16 \<Rightarrow> string" where
  "show_range r = (if fst r = snd r then show_u16 (fst r) else show_u16 (fst r) @ ''-'' @ show_u16 (snd r))"

definition node_flags :: "cluster_node \<Rightarrow> string" where
  "node_flags n =
     (if is_myself n then if is_master n then ''myself,master'' else ''myself,slave''
      else if is_master n then ''master'' else ''slave'')"

definition format_node :: "cluster_node \<Rightarrow> string" where
  "format_node n =
     (let slots_str = join '' '' (map show_range (node_slots n))
      in node_id n @ '' '' @ node_ip n @ '':'' @ show_u16 (node_port n) @ ''@'' @ show_u16 (bus_port n)
         @ '' '' @ node_flags n @ '' - 0 0 1 connected''
         @ (if slots_str \<noteq> [] then '' '' @ slots_str else [])
         @ crlf)"

definition format_cluster_nodes :: "cluster_topology \<Rightarrow> string" where
  "format_cluster_nodes t = concat (map (format_node \<circ> snd) (nodes t))"

type_synonym slot_range = "u16 \<times> u16 \<times> cluster_node"

text \<open>One iteration of the run-length scan: the finished ranges and the current one.\<close>

fun range_step :: "nat \<times> cluster_node option \<Rightarrow> slot_range list \<times> slot_range option
    \<Rightarrow> slot_range list \<times> slot_range option" where
  "range_step (slot_idx, Some cur_node) (ranges, Some (a, b, n)) =
     (if node_id n = node_id cur_node then (ranges, Some (a, of_nat slot_idx, n))
      else (ranges @ [(a, b, n)], Some (of_nat slot_idx, of_nat slot_idx, cur_node)))"
| "range_step (slot_idx, None) (ranges, Some r) = (ranges @ [r], None)"
| "range_step (slot_idx, Some cur_node) (ranges, None) =
     (ranges, Some (of_nat slot_idx, of_nat slot_idx, cur_node))"
| "range_step (slot_idx, None) (ranges, None) = (ranges, None)"

definition slot_ranges :: "cluster_node option list \<Rightarrow> slot_range list" where
  "slot_ranges ss =
     (case fold range_step (enumerate 0 ss) ([], None) of
        (ranges, Some r) \<Rightarrow> ranges @ [r]
      | (ranges, None) \<Rightarrow> ranges)"

definition range_entry :: "slot_range \<Rightarrow> Value" where
  "range_entry r = (case r of (a, b, n) \<Rightarrow>
     Array (Some [Integer (uint a), Integer (uint b),
       Array (Some [value_string (node_ip n), Integer (uint (node_port n)), value_string (node_id n)])]))"

definition format_cluster_slots :: "cluster_topology \<Rightarrow> Value" where
  "format_cluster_slots t = Array (Some (map range_entry (slot_ranges (slot_to_node t))))"

section \<open>The invariant\<close>

definition topo_inv :: "platform \<Rightarrow> cluster_topology \<Rightarrow> bool" where
  "topo_inv P t \<longleftrightarrow> permutes (bucket_order P) \<and> hm_wf (nodes t)
     \<and> length (slot_to_node t) = unat HASH_SLOTS
     \<and> (\<forall>(i, n) \<in> set (nodes t). node_id n = i)
     \<and> hm_get (nodes t) (myself_id t) \<noteq> None
     \<and> (\<forall>n. Some n \<in> set (slot_to_node t) \<longrightarrow> hm_get (nodes t) (node_id n) \<noteq> None)"

lemma unat_HASH_SLOTS [simp]: "unat HASH_SLOTS = 16384"
  by (simp add: HASH_SLOTS_def)

text \<open>The table with the slots from \<open>a\<close> to \<open>b\<close> assigned, as a function of the index.\<close>

definition assigned :: "cluster_node \<Rightarrow> u16 \<Rightarrow> u16 \<Rightarrow> cluster_node option list \<Rightarrow> cluster_node option list" where
  "assigned n a b ss = map (\<lambda>i. if unat a \<le> i \<and> i \<le> unat b then Some n else ss ! i) [0..<length ss]"

lemma length_assigned [simp]: "length (assigned n a b ss) = length ss"
  by (simp add: assigned_def)

lemma nth_assigned:
  "i < length ss \<Longrightarrow> assigned n a b ss ! i = (if unat a \<le> i \<and> i \<le> unat b then Some n else ss ! i)"
  by (simp add: assigned_def)

lemma set_assigned: "set (assigned n a b ss) \<subseteq> insert (Some n) (set ss)"
  by (auto simp: assigned_def)

lemma set_slots_in_range:
  "\<forall>j \<in> set js. j < length ss \<Longrightarrow>
     set_slots n js ss = (True, map (\<lambda>i. if i \<in> set js then Some n else ss ! i) [0..<length ss])"
proof (induction js arbitrary: ss)
  case Nil
  then show ?case by (simp add: map_nth)
next
  case (Cons j js)
  then show ?case by (auto simp: nth_list_update)
qed

text \<open>Out of range, the loop panics; in range, it assigns the range.\<close>

lemma set_slots_out_of_range:
  "fst (set_slots n js ss) \<longleftrightarrow> (\<forall>j \<in> set js. j < length ss)"
  by (induction js arbitrary: ss) auto

lemma assign_loop_in_range:
  assumes "unat b < length ss"
  shows "assign_loop n a b ss = (True, assigned n a b ss)"
  using assms set_slots_in_range [of "[unat a..<Suc (unat b)]" ss n]
  by (simp add: assign_loop_def assigned_def less_Suc_eq_le del: upt_Suc)

lemma assign_loop_panics:
  "a \<le> b \<Longrightarrow> fst (assign_loop n a b ss) \<longleftrightarrow> unat b < length ss"
  by (auto simp: assign_loop_def set_slots_out_of_range word_le_nat_alt simp del: upt_Suc)

text \<open>The guard of \<open>add_slots_range\<close> keeps every index in range.\<close>

lemma add_slots_range_eq:
  assumes "topo_inv P t"
  shows "add_slots_range i a b t =
     (if a > b \<or> b \<ge> HASH_SLOTS
      then (Inl (SlotError (''Invalid slot range '' @ show_u16 a @ ''-'' @ show_u16 b)), t)
      else (case hm_get (nodes t) i of
              None \<Rightarrow> (Inl (SlotError (''Unknown node id '' @ i)), t)
            | Some n \<Rightarrow>
                (Inr (),
                 t\<lparr>slot_to_node := assigned n a b (slot_to_node t),
                   nodes := hm_put (nodes t) i (n\<lparr>node_slots := node_slots n @ [(a, b)]\<rparr>)\<rparr>)))"
proof (cases "b \<ge> HASH_SLOTS")
  case False
  then have "unat b < length (slot_to_node t)" using assms by (simp add: topo_inv_def not_le word_less_nat_alt)
  then show ?thesis by (simp add: add_slots_range_def assign_loop_in_range split: option.split)
qed (simp add: add_slots_range_def)

lemma add_slots_range_no_panic: "topo_inv P t \<Longrightarrow> fst (add_slots_range i a b t) \<noteq> Inl IndexPanic"
  by (simp add: add_slots_range_eq split: option.split)

lemma topo_inv_new:
  assumes "permutes (bucket_order P)"
  shows "topo_inv P (topology_new P n)"
  using assms hm_wf_insert [OF assms hm_wf_Nil, of "node_id n" n] hm_get_insert [OF assms hm_wf_Nil, of "node_id n" n]
    hm_forall_insert [OF assms hm_wf_Nil, of "\<lambda>i n. node_id n = i" "node_id n" n]
  by (simp add: topo_inv_def topology_new_def)

lemma topo_inv_add_node:
  assumes "topo_inv P t"
  shows "topo_inv P (add_node P n t)"
  using assms hm_forall_insert [of "bucket_order P" "nodes t" "\<lambda>i n. node_id n = i" "node_id n" n]
  by (auto simp: topo_inv_def add_node_def hm_wf_insert hm_get_insert)

lemma topo_inv_add_slots:
  assumes "topo_inv P t"
  shows "topo_inv P (snd (add_slots_range i a b t))"
proof (cases "hm_get (nodes t) i")
  case (Some n)
  then have "node_id n = i" using assms hm_get_in by (fastforce simp: topo_inv_def)
  moreover have "i \<in> set (hm_keys (nodes t))" using Some by (rule hm_get_Some_key)
  ultimately show ?thesis
    using assms Some set_assigned [of n a b "slot_to_node t"]
    unfolding add_slots_range_eq [OF assms]
    by (auto simp: topo_inv_def hm_get_put) (auto simp: hm_put_def)
qed (use assms in \<open>simp add: add_slots_range_eq\<close>)

lemma topo_inv_assign_part:
  "topo_inv P t \<Longrightarrow> topo_inv P (snd (assign_part i p t))"
  by (simp add: assign_part_def Let_def topo_inv_add_slots split: option.split sum.split prod.split)

lemma topo_inv_assign_parts: "topo_inv P t \<Longrightarrow> topo_inv P (snd (assign_parts i ps t))"
proof (induction ps arbitrary: t)
  case (Cons p ps)
  then show ?case using topo_inv_assign_part [OF Cons.prems, of i p]
    by (auto split: prod.split sum.split)
qed simp

lemma assign_part_no_panic: "topo_inv P t \<Longrightarrow> fst (assign_part i p t) \<noteq> Inl IndexPanic"
  by (simp add: assign_part_def Let_def add_slots_range_no_panic split: option.split sum.split prod.split)

lemma assign_parts_no_panic: "topo_inv P t \<Longrightarrow> fst (assign_parts i ps t) \<noteq> Inl IndexPanic"
proof (induction ps arbitrary: t)
  case (Cons p ps)
  then show ?case using topo_inv_assign_part [OF Cons.prems, of i p] assign_part_no_panic [OF Cons.prems, of i p]
    by (auto split: prod.split sum.split)
qed simp

lemma topo_inv_parse_and_assign: "topo_inv P t \<Longrightarrow> topo_inv P (snd (parse_and_assign_slots i spec t))"
  by (simp add: parse_and_assign_slots_def topo_inv_assign_parts)

lemmas topo_inv_ops = topo_inv_add_node topo_inv_add_slots topo_inv_parse_and_assign

section \<open>Ownership\<close>

text \<open>
  What the redirection logic of a connection needs of the slot table: the owner of a slot,
  the test for own slots, and the assignment of a range.
\<close>

locale slot_table =
  fixes ok :: "'t \<Rightarrow> bool"
    and owner :: "'t \<Rightarrow> u16 \<Rightarrow> cluster_node option"
    and owns :: "'t \<Rightarrow> u16 \<Rightarrow> bool"
    and me :: "'t \<Rightarrow> string"
    and known :: "'t \<Rightarrow> string \<Rightarrow> cluster_node option"
    and assign :: "string \<Rightarrow> u16 \<Rightarrow> u16 \<Rightarrow> 't \<Rightarrow> ('e + unit) \<times> 't"
  assumes owns_iff: "owns t s \<longleftrightarrow> (\<exists>n. owner t s = Some n \<and> node_id n = me t)"
    and known_id: "ok t \<Longrightarrow> known t i = Some n \<Longrightarrow> node_id n = i"
    and owner_range: "ok t \<Longrightarrow> owner t s \<noteq> None \<Longrightarrow> s < HASH_SLOTS"
    and assign_result: "ok t \<Longrightarrow>
      (fst (assign i a b t) = Inr ()) \<longleftrightarrow> a \<le> b \<and> b < HASH_SLOTS \<and> known t i \<noteq> None"
    and assign_error: "ok t \<Longrightarrow> fst (assign i a b t) \<noteq> Inr () \<Longrightarrow> snd (assign i a b t) = t"
    and assign_owner: "ok t \<Longrightarrow> fst (assign i a b t) = Inr () \<Longrightarrow>
      owner (snd (assign i a b t)) s = (if a \<le> s \<and> s \<le> b then known t i else owner t s)"
    and assign_known: "ok t \<Longrightarrow> (known (snd (assign i a b t)) j = None) = (known t j = None)"
    and assign_me: "me (snd (assign i a b t)) = me t"
    and assign_ok: "ok t \<Longrightarrow> ok (snd (assign i a b t))"
begin

definition owner_id :: "'t \<Rightarrow> u16 \<Rightarrow> string option" where
  "owner_id t s = map_option node_id (owner t s)"

lemma owns_owner_id: "owns t s \<longleftrightarrow> owner_id t s = Some (me t)"
  by (auto simp: owns_iff owner_id_def)

lemma assign_owner_id:
  assumes "ok t" "a \<le> b" "b < HASH_SLOTS" "known t i \<noteq> None"
  shows "owner_id (snd (assign i a b t)) s = (if a \<le> s \<and> s \<le> b then Some i else owner_id t s)"
proof -
  have "fst (assign i a b t) = Inr ()" using assms by (simp add: assign_result)
  moreover obtain n where "known t i = Some n" using assms(4) by blast
  ultimately show ?thesis
    using assign_owner [OF assms(1)] known_id [OF assms(1)] by (simp add: owner_id_def)
qed

text \<open>Assigning a whole table of ranges, one after the other.\<close>

lemma assign_ranges:
  assumes "ok t" "known t i \<noteq> None" "\<forall>(a, b) \<in> set rs. a \<le> b \<and> b < HASH_SLOTS"
  shows "let t' = fold (\<lambda>(a, b) t. snd (assign i a b t)) rs t in
    ok t' \<and> me t' = me t \<and> known t' i \<noteq> None
    \<and> (\<forall>s. owner_id t' s = (if \<exists>(a, b) \<in> set rs. a \<le> s \<and> s \<le> b then Some i else owner_id t s))"
  using assms
proof (induction rs arbitrary: t)
  case (Cons r rs)
  obtain a b where r: "r = (a, b)" by (cases r)
  let ?t = "snd (assign i a b t)"
  have ab: "a \<le> b" "b < HASH_SLOTS" using Cons.prems(3) r by auto
  have "ok ?t" "known ?t i \<noteq> None" "me ?t = me t"
    using Cons.prems assign_ok assign_known assign_me by auto
  with Cons.IH [of ?t] Cons.prems(3) assign_owner_id [OF Cons.prems(1) ab Cons.prems(2)] r
  show ?case by (auto simp: Let_def)
qed (simp add: Let_def)

end

lemma add_slots_range_result:
  "topo_inv P t \<Longrightarrow>
    fst (add_slots_range i a b t) = Inr () \<longleftrightarrow> a \<le> b \<and> b < HASH_SLOTS \<and> hm_get (nodes t) i \<noteq> None"
  by (auto simp: add_slots_range_eq split: option.split)

lemma add_slots_range_error:
  "topo_inv P t \<Longrightarrow> fst (add_slots_range i a b t) \<noteq> Inr () \<Longrightarrow> snd (add_slots_range i a b t) = t"
  by (auto simp: add_slots_range_eq split: option.splits if_splits)

lemma add_slots_range_owner:
  assumes "topo_inv P t" "fst (add_slots_range i a b t) = Inr ()"
  shows "get_node_for_slot (snd (add_slots_range i a b t)) s =
    (if a \<le> s \<and> s \<le> b then hm_get (nodes t) i else get_node_for_slot t s)"
proof -
  have g: "a \<le> b" "b < HASH_SLOTS" "hm_get (nodes t) i \<noteq> None"
    using assms(2) by (simp_all add: add_slots_range_result [OF assms(1)])
  then obtain n where n: "hm_get (nodes t) i = Some n" by blast
  have len: "length (slot_to_node t) = 16384" using assms(1) by (simp add: topo_inv_def)
  have "unat b < 16384" using g(2) by (simp add: word_less_nat_alt)
  moreover have "\<not> (b < a \<or> HASH_SLOTS \<le> b)" using g(1,2) by auto
  ultimately show ?thesis
    using n len unfolding add_slots_range_eq [OF assms(1)]
    by (auto simp: get_node_for_slot_def nth_assigned word_le_nat_alt)
qed

interpretation topo: slot_table "topo_inv P" get_node_for_slot owns_slot myself_id "\<lambda>t. hm_get (nodes t)" add_slots_range for P
proof unfold_locales
  fix t s
  show "owns_slot t s \<longleftrightarrow> (\<exists>n. get_node_for_slot t s = Some n \<and> node_id n = myself_id t)"
    by (auto simp: owns_slot_def split: option.split)
next
  fix t i n
  show "topo_inv P t \<Longrightarrow> hm_get (nodes t) i = Some n \<Longrightarrow> node_id n = i"
    using hm_get_in by (fastforce simp: topo_inv_def)
next
  fix t s
  show "topo_inv P t \<Longrightarrow> get_node_for_slot t s \<noteq> None \<Longrightarrow> s < HASH_SLOTS"
    by (auto simp: topo_inv_def get_node_for_slot_def word_less_nat_alt split: if_splits)
next
  fix t i a b j
  show "(hm_get (nodes (snd (add_slots_range i a b t))) j = None) = (hm_get (nodes t) j = None)"
    by (auto simp: add_slots_range_def hm_get_put hm_get_None split: option.split prod.split bool.split)
next
  fix t i a b
  show "myself_id (snd (add_slots_range i a b t)) = myself_id t"
    by (simp add: add_slots_range_def split: option.split prod.split bool.split)
qed (auto simp: add_slots_range_result add_slots_range_error add_slots_range_owner topo_inv_add_slots)

end
