(* ===== verification/Repl_State.thy ===== *)
theory Repl_State
  imports Rust_Std
begin

text \<open>
  \<open>src/replication/state.rs\<close> and \<open>src/replication/rdb.rs\<close>: the replication state every
  connection shares, the propagation of writes to the replicas, and the empty snapshot a
  replica is sent.

  The channels to the replicas are tokio's \<open>mpsc::unbounded_channel\<close>, which is not part of
  the program.  A sender is a handle (the number of its connection); sending is the
  parameter \<open>send\<close>, which returns whether the message was accepted and the channels
  afterwards.  What tokio documents of it is the hypothesis \<open>channel_laws\<close>.
\<close>

section \<open>State\<close>

datatype server_role = Master | Replica (master_host: string) (master_port: u16)

type_synonym conn_id = nat

record repl_state =
  role :: server_role
  master_replid :: string
  master_repl_offset :: u64
  replica_bytes_processed :: u64
  connected_replicas :: usize
  downstream_senders :: "conn_id list"

definition new_master :: "string option \<Rightarrow> repl_state" where
  "new_master replid =
     \<lparr>role = Master,
      master_replid = (case replid of Some r \<Rightarrow> r | None \<Rightarrow> ''8371b4fb1155b71f4a04d3e1bc3e18c4a990aeeb''),
      master_repl_offset = 0, replica_bytes_processed = 0, connected_replicas = 0, downstream_senders = []\<rparr>"

definition new_replica :: "string \<Rightarrow> u16 \<Rightarrow> repl_state" where
  "new_replica host p =
     \<lparr>role = Replica host p, master_replid = ''?'', master_repl_offset = 0, replica_bytes_processed = 0,
      connected_replicas = 0, downstream_senders = []\<rparr>"

definition is_replica :: "repl_state \<Rightarrow> bool" where
  "is_replica r = (case role r of Replica _ _ \<Rightarrow> True | Master \<Rightarrow> False)"

definition get_replid :: "repl_state \<Rightarrow> string" where
  "get_replid r = master_replid r"

definition set_replid :: "string \<Rightarrow> repl_state \<Rightarrow> repl_state" where
  "set_replid i r = r\<lparr>master_replid := i\<rparr>"

definition info_replication :: "repl_state \<Rightarrow> string" where
  "info_replication r =
     (case role r of
        Master \<Rightarrow>
          ''# Replication'' @ crlf @ ''role:master'' @ crlf
          @ ''connected_slaves:'' @ show_u64 (connected_replicas r) @ crlf
          @ ''master_replid:'' @ get_replid r @ crlf
          @ ''master_repl_offset:'' @ show_u64 (master_repl_offset r) @ crlf
          @ ''second_repl_offset:-1'' @ crlf @ ''repl_backlog_active:0'' @ crlf
      | Replica host p \<Rightarrow>
          ''# Replication'' @ crlf @ ''role:slave'' @ crlf
          @ ''master_host:'' @ host @ crlf @ ''master_port:'' @ show_u16 p @ crlf
          @ ''master_link_status:up'' @ crlf @ ''master_last_io_seconds_ago:0'' @ crlf
          @ ''master_sync_in_progress:0'' @ crlf
          @ ''slave_repl_offset:'' @ show_u64 (replica_bytes_processed r) @ crlf
          @ ''slave_priority:100'' @ crlf @ ''slave_read_only:1'' @ crlf
          @ ''connected_slaves:0'' @ crlf @ ''master_replid:'' @ get_replid r @ crlf)"

definition register_downstream :: "conn_id \<Rightarrow> repl_state \<Rightarrow> repl_state" where
  "register_downstream tx r =
     r\<lparr>downstream_senders := downstream_senders r @ [tx], connected_replicas := connected_replicas r + 1\<rparr>"

section \<open>Propagation\<close>

type_synonym 'c sender = "conn_id \<Rightarrow> bytes \<Rightarrow> 'c \<Rightarrow> bool \<times> 'c"

text \<open>\<open>senders.retain(|tx| tx.send(raw.clone()).is_ok())\<close>: in order, keeping the accepted ones.\<close>

fun retain_send :: "'c sender \<Rightarrow> bytes \<Rightarrow> conn_id list \<Rightarrow> 'c \<Rightarrow> conn_id list \<times> 'c" where
  "retain_send send raw [] c = ([], c)"
| "retain_send send raw (tx # txs) c =
     (case send tx raw c of (accepted, c1) \<Rightarrow>
        (case retain_send send raw txs c1 of (kept, c2) \<Rightarrow>
           (if accepted then tx # kept else kept, c2)))"

definition propagate_downstream :: "'c sender \<Rightarrow> bytes \<Rightarrow> repl_state \<times> 'c \<Rightarrow> repl_state \<times> 'c" where
  "propagate_downstream send raw s =
     (case s of (r, c) \<Rightarrow>
        (case retain_send send raw (downstream_senders r) c of (kept, c') \<Rightarrow>
           (r\<lparr>master_repl_offset := master_repl_offset r + of_nat (length raw), downstream_senders := kept\<rparr>, c')))"

text \<open>
  What tokio documents of an unbounded channel: \<open>send\<close> succeeds exactly while the receiver is
  alive, appends the message at the end of that channel's queue, and touches no other channel.
\<close>

definition channel_laws :: "'c sender \<Rightarrow> ('c \<Rightarrow> conn_id \<Rightarrow> bytes list) \<Rightarrow> ('c \<Rightarrow> conn_id \<Rightarrow> bool) \<Rightarrow> bool" where
  "channel_laws send pending alive \<longleftrightarrow>
     (\<forall>tx raw c. fst (send tx raw c) = alive c tx)
     \<and> (\<forall>tx raw c tx'. alive (snd (send tx raw c)) tx' = alive c tx')
     \<and> (\<forall>tx raw c tx'. pending (snd (send tx raw c)) tx' =
          (if tx' = tx \<and> alive c tx then pending c tx' @ [raw] else pending c tx'))"

section \<open>The empty snapshot\<close>

definition EMPTY_RDB_HEX :: string where
  "EMPTY_RDB_HEX = ''524544495330303131fa0972656469732d76657205372e322e30fa0a72656469732d62697473c040fa056374696d65c26d086265fa08757365642d6d656dc2b0c41000fa08616f662d62617365c000fff62278d2db30eb16''"

definition hex_digit :: "char \<Rightarrow> nat option" where
  "hex_digit c =
     (let b = byte c
      in if 48 \<le> b \<and> b \<le> 57 then Some (b - 48)
         else if 97 \<le> b \<and> b \<le> 102 then Some (b - 87)
         else if 65 \<le> b \<and> b \<le> 70 then Some (b - 55)
         else None)"

text \<open>\<open>u8::from_str_radix(&hex[i..i + 2], 16).unwrap_or(0)\<close>; a leading plus sign is accepted.\<close>

definition hex_pair :: "char \<Rightarrow> char \<Rightarrow> nat" where
  "hex_pair c d =
     (case hex_digit d of
        None \<Rightarrow> 0
      | Some lo \<Rightarrow>
          if c = CHR ''+'' then lo
          else (case hex_digit c of None \<Rightarrow> 0 | Some hi \<Rightarrow> hi * 16 + lo))"

fun hex_bytes :: "string \<Rightarrow> bytes" where
  "hex_bytes (c # d # r) = char_of (hex_pair c d) # hex_bytes r"
| "hex_bytes _ = []"

definition get_empty_rdb_bytes :: bytes where
  "get_empty_rdb_bytes = hex_bytes EMPTY_RDB_HEX"

section \<open>Facts\<close>

lemma role_simps [simp]:
  "is_replica (register_downstream tx r) = is_replica r"
  "is_replica (set_replid i r) = is_replica r"
  "is_replica (fst (propagate_downstream send raw (r, c))) = is_replica r"
  by (simp_all add: is_replica_def register_downstream_def set_replid_def propagate_downstream_def split: prod.split)

lemma is_replica_new [simp]: "\<not> is_replica (new_master i)" "is_replica (new_replica h p)"
  by (simp_all add: is_replica_def new_master_def new_replica_def)

lemma channel_lawsD:
  assumes "channel_laws send pending alive"
  shows "fst (send tx raw c) = alive c tx" "alive (snd (send tx raw c)) tx' = alive c tx'"
    "pending (snd (send tx raw c)) tx' = (if tx' = tx \<and> alive c tx then pending c tx' @ [raw] else pending c tx')"
  using assms by (simp_all add: channel_laws_def)

lemma retain_send_spec:
  assumes "channel_laws send pending alive"
  shows "fst (retain_send send raw txs c) = filter (alive c) txs
    \<and> (\<forall>tx. alive (snd (retain_send send raw txs c)) tx = alive c tx)
    \<and> (\<forall>tx. pending (snd (retain_send send raw txs c)) tx =
         (if alive c tx then pending c tx @ replicate (count_list txs tx) raw else pending c tx))"
proof (induction txs arbitrary: c)
  case (Cons x txs)
  obtain ac c1 where s: "send x raw c = (ac, c1)" by (cases "send x raw c")
  have "ac = alive c x" "\<And>tx. alive c1 tx = alive c tx"
    "\<And>tx. pending c1 tx = (if tx = x \<and> alive c x then pending c tx @ [raw] else pending c tx)"
    using channel_lawsD [OF assms, of x raw c] s by auto
  moreover have "alive c1 = alive c" using calculation by blast
  ultimately show ?case using Cons.IH [of c1] s
    by (auto split: prod.split simp: append_replicate_commute replicate_app_Cons_same)
qed simp

lemma propagate_spec:
  assumes "channel_laws send pending alive" "propagate_downstream send raw (r, c) = (r', c')"
  shows "r' = r\<lparr>master_repl_offset := master_repl_offset r + of_nat (length raw),
      downstream_senders := filter (alive c) (downstream_senders r)\<rparr>"
    "alive c' tx = alive c tx"
    "pending c' tx = (if alive c tx then pending c tx @ replicate (count_list (downstream_senders r) tx) raw
      else pending c tx)"
  using retain_send_spec [OF assms(1), of raw "downstream_senders r" c] assms(2)
  by (auto simp: propagate_downstream_def split: prod.splits)

text \<open>A concrete channel: queues and a liveness flag per connection.\<close>

type_synonym queues = "(conn_id \<Rightarrow> bytes list) \<times> (conn_id \<Rightarrow> bool)"

definition queue_send :: "queues sender" where
  "queue_send tx raw c =
     (if snd c tx then (True, ((fst c)(tx := fst c tx @ [raw]), snd c)) else (False, c))"

lemma queue_send_laws: "channel_laws queue_send fst snd"
  by (simp add: channel_laws_def queue_send_def)

section \<open>Properties\<close>

text \<open>
  C36. Propagation.  One call of \<open>propagate_downstream\<close> advances the master offset by the length of
  the command, delivers the command to every registered replica whose connection is alive, once
  per registration and after everything sent before, drops exactly the dead senders, and leaves
  every other channel alone.
\<close>

theorem propagate_effect:
  assumes "channel_laws send pending alive" "propagate_downstream send raw (r, c) = (r', c')"
  shows "master_repl_offset r' = master_repl_offset r + of_nat (length raw)
    \<and> downstream_senders r' = filter (alive c) (downstream_senders r)
    \<and> connected_replicas r' = connected_replicas r \<and> role r' = role r
    \<and> (\<forall>tx. pending c' tx = (if alive c tx
          then pending c tx @ replicate (count_list (downstream_senders r) tx) raw else pending c tx))"
  using propagate_spec [OF assms] by simp

theorem propagate_effect_witness:
  "channel_laws queue_send fst snd
   \<and> (\<exists>r' c'. propagate_downstream queue_send ''xyz''
          (register_downstream 4 (register_downstream 3 (new_master None)), (\<lambda>_. [], \<lambda>tx. tx = 3)) = (r', c')
        \<and> master_repl_offset r' = 3 \<and> downstream_senders r' = [3] \<and> fst c' 3 = [''xyz''])"
proof -
  let ?r = "register_downstream 4 (register_downstream 3 (new_master None))"
  obtain r' c' where p: "propagate_downstream queue_send ''xyz'' (?r, (\<lambda>_. [], \<lambda>tx. tx = 3)) = (r', c')"
    by (cases "propagate_downstream queue_send ''xyz'' (?r, (\<lambda>_. [], \<lambda>tx. tx = 3))")
  then show ?thesis
    using propagate_effect [OF queue_send_laws p] queue_send_laws
    by (auto simp: register_downstream_def new_master_def)
qed

text \<open>
  The snapshot.  The hexadecimal constant decodes, digit pair by digit pair and with no pair
  falling back to zero, to the 88 bytes of an RDB file of version 11: the magic \<open>REDIS0011\<close> at the start and,
  after the auxiliary fields, the end marker 255 followed by an 8-byte checksum.
\<close>

lemma empty_rdb_bytes:
  "length get_empty_rdb_bytes = 88
   \<and> take 9 get_empty_rdb_bytes = ''REDIS0011''
   \<and> byte (get_empty_rdb_bytes ! 79) = 255
   \<and> list_all (\<lambda>c. hex_digit c \<noteq> None) EMPTY_RDB_HEX"
  by (simp add: get_empty_rdb_bytes_def EMPTY_RDB_HEX_def hex_pair_def hex_digit_def byte_def)
     (simp add: char_of_def bit_0)

end
