(* ===== verification/Commands.thy ===== *)
theory Commands
  imports Storage_Contract Topology Repl_State
begin

text \<open>
  \<open>src/commands/mod.rs\<close>: the commands, their recognition in a RESP value (\<open>from_value\<close>)
  and their execution (\<open>execute\<close>) on the shared state.

  \<open>exec_state\<close> gathers what \<open>execute\<close> reads and writes: the database, the replication state
  with the channels to the replicas, the connection's authentication flag, and the topology
  if cluster mode is on.  The outcome \<open>Panicked\<close> is the arithmetic overflow panic of a build
  with overflow checks; without them the addition wraps.

  A clock reading is taken for every \<open>Instant::now()\<close>; an operation on the database reads at
  most three, so a loop over keys moves the clock on by three per key.  Adding the duration of
  \<open>PX\<close> to an instant cannot overflow: \<open>2 ^ 64\<close> milliseconds are fewer than \<open>2 ^ 63\<close> seconds.
\<close>

section \<open>Commands\<close>

datatype ClusterSubcommand =
    KeySlot string
  | ClusterInfo
  | Nodes
  | Slots
  | Meet string u16
  | AddSlots "u16 list"

datatype Command =
    Ping "string option"
  | Echo string
  | Get string
  | Set string bytes "u64 option"
  | Del "string list"
  | Exists "string list"
  | Keys string
  | Info "string option"
  | ReplConf "string list"
  | Psync string string
  | Auth "string option" string
  | Cluster ClusterSubcommand
  | Quit
  | CommandDocs

definition target_key :: "Command \<Rightarrow> string option" where
  "target_key cmd =
     (case cmd of
        Get key \<Rightarrow> Some key
      | Set key _ _ \<Rightarrow> Some key
      | Del ks \<Rightarrow> (case ks of [] \<Rightarrow> None | k # _ \<Rightarrow> Some k)
      | Exists ks \<Rightarrow> (case ks of [] \<Rightarrow> None | k # _ \<Rightarrow> Some k)
      | _ \<Rightarrow> None)"

subsection \<open>Recognition\<close>

definition str_or :: "string \<Rightarrow> Value \<Rightarrow> string" where
  "str_or dflt v = (case as_str v of Some s \<Rightarrow> s | None \<Rightarrow> dflt)"

definition arg_str :: "Value list \<Rightarrow> nat \<Rightarrow> string option" where
  "arg_str items i = (if i < length items then as_str (items ! i) else None)"

text \<open>The option loop of \<open>SET\<close>, on \<open>items[3..]\<close>.\<close>

fun set_options :: "Value list \<Rightarrow> u64 option \<Rightarrow> u64 option" where
  "set_options [] px = px"
| "set_options [v] px = px"
| "set_options (v # w # rest) px =
     (if to_ascii_uppercase (str_or [] v) = ''PX''
      then set_options rest
        (case as_str w of
           Some ms \<Rightarrow> (case parse_u64 ms of Inr n \<Rightarrow> Some (of_int n) | Inl _ \<Rightarrow> None)
         | None \<Rightarrow> px)
      else set_options (w # rest) px)"

definition parse_set :: "Value list \<Rightarrow> string + Command" where
  "parse_set items =
     (if length items < 3 then Inl ''ERR wrong number of arguments for 'set' command''
      else (case as_str (items ! 1) of
              None \<Rightarrow> Inl ''Key must be string''
            | Some key \<Rightarrow>
                (let val_bytes = (case as_bytes (items ! 2) of Some b \<Rightarrow> b | None \<Rightarrow> str_or [] (items ! 2))
                 in Inr (Set key val_bytes (set_options (drop 3 items) None)))))"

text \<open>The loop of \<open>CLUSTER ADDSLOTS\<close> over \<open>items[2..]\<close>.\<close>

fun slot_args :: "Value list \<Rightarrow> string + u16 list" where
  "slot_args [] = Inr []"
| "slot_args (v # vs) =
     (case as_str v of
        None \<Rightarrow> Inl ''Invalid slot integer''
      | Some s \<Rightarrow>
          (case parse_u16 s of
             Inl _ \<Rightarrow> Inl ''Invalid slot integer''
           | Inr slot \<Rightarrow> (case slot_args vs of Inl e \<Rightarrow> Inl e | Inr ss \<Rightarrow> Inr (slot # ss))))"

definition quoted :: "string \<Rightarrow> string" where
  "quoted s = CHR 0x27 # s @ [CHR 0x27]"

definition invalid_port :: string where
  "invalid_port = ''Invalid port for '' @ quoted ''cluster meet''"

definition parse_cluster :: "Value list \<Rightarrow> string + Command" where
  "parse_cluster items =
     (if length items < 2 then Inl ''ERR wrong number of arguments for 'cluster' command''
      else (case as_str (items ! 1) of
          None \<Rightarrow> Inl ''Subcommand must be string''
        | Some sub0 \<Rightarrow>
           (let sub = to_ascii_uppercase sub0
            in if sub = ''KEYSLOT'' then
                 if length items < 3 then Inl ''ERR wrong number of arguments for 'cluster keyslot' command''
                 else Inr (Cluster (KeySlot (str_or [] (items ! 2))))
               else if sub = ''INFO'' then Inr (Cluster ClusterInfo)
               else if sub = ''NODES'' then Inr (Cluster Nodes)
               else if sub = ''SLOTS'' then Inr (Cluster Slots)
               else if sub = ''MEET'' then
                 if length items < 4 then Inl ''ERR wrong number of arguments for 'cluster meet' command''
                 else (case as_str (items ! 3) of
                         None \<Rightarrow> Inl invalid_port
                       | Some s \<Rightarrow>
                           (case parse_u16 s of
                              Inl _ \<Rightarrow> Inl invalid_port
                            | Inr p \<Rightarrow> Inr (Cluster (Meet (str_or ''127.0.0.1'' (items ! 2)) p))))
               else if sub = ''ADDSLOTS'' then
                 if length items < 3 then Inl ''ERR wrong number of arguments for 'cluster addslots' command''
                 else (case slot_args (drop 2 items) of
                         Inl e \<Rightarrow> Inl e
                       | Inr ss \<Rightarrow> Inr (Cluster (AddSlots ss)))
               else Inl (''ERR unknown cluster subcommand '' @ quoted sub))))"

definition parse_auth :: "Value list \<Rightarrow> string + Command" where
  "parse_auth items =
     (if length items = 2 then Inr (Auth None (str_or [] (items ! 1)))
      else if length items \<ge> 3 then Inr (Auth (as_str (items ! 1)) (str_or [] (items ! 2)))
      else Inl ''ERR wrong number of arguments for 'auth' command'')"

text \<open>The \<open>match cmd_name.as_str()\<close>, for a non-empty \<open>items\<close>.\<close>

definition dispatch :: "string \<Rightarrow> Value list \<Rightarrow> string + Command" where
  "dispatch cmd_name items =
     (if cmd_name = ''PING'' then Inr (Ping (arg_str items 1))
      else if cmd_name = ''ECHO'' then
        if length items < 2 then Inl ''ERR wrong number of arguments for 'echo' command''
        else Inr (Echo (str_or [] (items ! 1)))
      else if cmd_name = ''GET'' then
        if length items < 2 then Inl ''ERR wrong number of arguments for 'get' command''
        else (case as_str (items ! 1) of
                None \<Rightarrow> Inl ''Key must be string''
              | Some key \<Rightarrow> Inr (Get key))
      else if cmd_name = ''SET'' then parse_set items
      else if cmd_name = ''DEL'' then
        if length items < 2 then Inl ''ERR wrong number of arguments for 'del' command''
        else Inr (Del (List.map_filter as_str (drop 1 items)))
      else if cmd_name = ''EXISTS'' then
        if length items < 2 then Inl ''ERR wrong number of arguments for 'exists' command''
        else Inr (Exists (List.map_filter as_str (drop 1 items)))
      else if cmd_name = ''KEYS'' then
        Inr (Keys (case arg_str items 1 of Some p \<Rightarrow> p | None \<Rightarrow> ''*''))
      else if cmd_name = ''INFO'' then Inr (Info (arg_str items 1))
      else if cmd_name = ''REPLCONF'' then Inr (ReplConf (List.map_filter as_str (drop 1 items)))
      else if cmd_name = ''PSYNC'' then
        Inr (Psync (case arg_str items 1 of Some i \<Rightarrow> i | None \<Rightarrow> ''?'')
                   (case arg_str items 2 of Some i \<Rightarrow> i | None \<Rightarrow> ''-1''))
      else if cmd_name = ''AUTH'' then parse_auth items
      else if cmd_name = ''CLUSTER'' then parse_cluster items
      else if cmd_name = ''QUIT'' then Inr Quit
      else if cmd_name = ''COMMAND'' then Inr CommandDocs
      else Inl (''unknown command '' @ quoted cmd_name))"

definition from_value :: "Value \<Rightarrow> string + Command" where
  "from_value v =
     (case v of
        Array (Some items) \<Rightarrow>
          (case items of
             [] \<Rightarrow> Inl ''Empty command array''
           | first # _ \<Rightarrow>
               (case as_str first of
                  None \<Rightarrow> Inl ''First element must be string command name''
                | Some s \<Rightarrow> dispatch (to_ascii_uppercase s) items))
      | _ \<Rightarrow> Inl ''Expected Array frame for Redis command'')"

section \<open>Execution\<close>

record 'c exec_state =
  xs_db :: db
  xs_repl :: repl_state
  xs_chan :: 'c
  xs_auth :: bool
  xs_topo :: "cluster_topology option"

datatype outcome = Returned "Value option" | Panicked

text \<open>A loop that counts the keys on which an operation answers yes.\<close>

fun count_loop :: "(string \<Rightarrow> 's \<Rightarrow> bool \<times> 's) \<Rightarrow> string list \<Rightarrow> 's \<Rightarrow> nat \<times> 's" where
  "count_loop f [] s = (0, s)"
| "count_loop f (k # ks) s =
     (case f k s of (b, s1) \<Rightarrow>
        (case count_loop f ks s1 of (n, s2) \<Rightarrow> ((if b then 1 else 0) + n, s2)))"

fun timed_count_loop :: "(clock \<Rightarrow> string \<Rightarrow> 's \<Rightarrow> bool \<times> 's) \<Rightarrow> clock \<Rightarrow> string list \<Rightarrow> 's \<Rightarrow> nat \<times> 's" where
  "timed_count_loop f clk [] s = (0, s)"
| "timed_count_loop f clk (k # ks) s =
     (case f clk k s of (b, s1) \<Rightarrow>
        (case timed_count_loop f (\<lambda>i. clk (i + 3)) ks s1 of (n, s2) \<Rightarrow> ((if b then 1 else 0) + n, s2)))"

definition propagate_raw :: "'c sender \<Rightarrow> bytes option \<Rightarrow> 'c exec_state \<Rightarrow> 'c exec_state" where
  "propagate_raw send raw_cmd x =
     (if \<not> is_replica (xs_repl x) then
        (case raw_cmd of
           Some raw \<Rightarrow>
             (case propagate_downstream send raw (xs_repl x, xs_chan x) of
                (r, c) \<Rightarrow> x\<lparr>xs_repl := r, xs_chan := c\<rparr>)
         | None \<Rightarrow> x)
      else x)"

definition exec_set :: "platform \<Rightarrow> 'c sender \<Rightarrow> clock \<Rightarrow> string \<Rightarrow> bytes \<Rightarrow> u64 option \<Rightarrow> bytes option
    \<Rightarrow> 'c exec_state \<Rightarrow> outcome \<times> 'c exec_state" where
  "exec_set P send clk key v px_ms raw_cmd x =
     (let d = (case px_ms of
                 None \<Rightarrow> db_set P clk key v None (xs_db x)
               | Some ms \<Rightarrow> db_set P (\<lambda>i. clk (i + 1)) key v (Some (clk 0 + unat ms * 1000000)) (xs_db x))
      in (Returned (Some value_ok), propagate_raw send raw_cmd (x\<lparr>xs_db := d\<rparr>)))"

definition exec_del :: "platform \<Rightarrow> 'c sender \<Rightarrow> string list \<Rightarrow> bytes option
    \<Rightarrow> 'c exec_state \<Rightarrow> outcome \<times> 'c exec_state" where
  "exec_del P send ks raw_cmd x =
     (case count_loop (db_del P) ks (xs_db x) of (n, d) \<Rightarrow>
        (let x1 = x\<lparr>xs_db := d\<rparr>
         in (Returned (Some (Integer (int n))), if n > 0 then propagate_raw send raw_cmd x1 else x1)))"

text \<open>\<open>REPLCONF\<close>.\<close>

definition exec_replconf :: "string list \<Rightarrow> 'c exec_state \<Rightarrow> Value option" where
  "exec_replconf args x =
     (case args of
        [] \<Rightarrow> Some (value_error ''ERR REPLCONF requires arguments'')
      | a # _ \<Rightarrow>
          (let sub = to_ascii_uppercase a
           in if sub = ''GETACK'' then
                Some (Array (Some [BulkString (Some ''REPLCONF''), BulkString (Some ''ACK''),
                        value_string (show_u64 (replica_bytes_processed (xs_repl x)))]))
              else if sub = ''ACK'' then None
              else Some value_ok))"

text \<open>\<open>format!("{:040x}", n)\<close>.\<close>

fun show_hex :: "nat \<Rightarrow> nat \<Rightarrow> string" where
  "show_hex 0 n = []"
| "show_hex (Suc w) n = show_hex w (n div 16) @ [(''0123456789abcdef'') ! (n mod 16)]"

definition node_id_hash :: "platform \<Rightarrow> string \<Rightarrow> string" where
  "node_id_hash P s = show_hex 40 (unat (hash_str P s))"

text \<open>The loop of \<open>AddSlots\<close>: the first error ends it, the slots before stay assigned.\<close>

fun add_slots_loop :: "string \<Rightarrow> u16 list \<Rightarrow> cluster_topology \<Rightarrow> outcome \<times> cluster_topology" where
  "add_slots_loop i [] t = (Returned (Some value_ok), t)"
| "add_slots_loop i (s # ss) t =
     (case add_slots_range i s s t of
        (Inl (SlotError e), t') \<Rightarrow> (Returned (Some (value_error e)), t')
      | (Inl IndexPanic, t') \<Rightarrow> (Panicked, t')
      | (Inr _, t') \<Rightarrow> add_slots_loop i ss t')"

definition exec_cluster :: "platform \<Rightarrow> ClusterSubcommand \<Rightarrow> 'c exec_state \<Rightarrow> outcome \<times> 'c exec_state" where
  "exec_cluster P subcmd x =
     (case xs_topo x of
        None \<Rightarrow> (Returned (Some (value_error ''ERR This instance has cluster support disabled'')), x)
      | Some t \<Rightarrow>
          (case subcmd of
             KeySlot k \<Rightarrow> (Returned (Some (Integer (uint (key_slot k)))), x)
           | ClusterInfo \<Rightarrow> (Returned (Some (value_string (format_cluster_info t))), x)
           | Nodes \<Rightarrow> (Returned (Some (value_string (format_cluster_nodes t))), x)
           | Slots \<Rightarrow> (Returned (Some (format_cluster_slots t)), x)
           | Meet ip p \<Rightarrow>
               (case add_u16 P p 10000 of
                  None \<Rightarrow> (Panicked, x)
                | Some bus \<Rightarrow>
                    (Returned (Some value_ok),
                     x\<lparr>xs_topo := Some (add_node P
                         (node_new (node_id_hash P (ip @ '':'' @ show_u16 p)) ip p bus False True) t)\<rparr>))
           | AddSlots ss \<Rightarrow>
               (case topo_myself t of
                  Some me \<Rightarrow>
                    (case add_slots_loop (node_id me) ss t of (out, t') \<Rightarrow>
                       (out, x\<lparr>xs_topo := Some t'\<rparr>))
                | None \<Rightarrow> (Returned (Some value_ok), x))))"

text \<open>The second \<open>match self\<close>, after the authentication gate.\<close>

definition exec_body :: "platform \<Rightarrow> 'c sender \<Rightarrow> clock \<Rightarrow> Command \<Rightarrow> bytes option
    \<Rightarrow> 'c exec_state \<Rightarrow> outcome \<times> 'c exec_state" where
  "exec_body P send clk cmd raw_cmd x =
     (case cmd of
        Auth _ _ \<Rightarrow> (Returned (Some value_ok), x\<lparr>xs_auth := True\<rparr>)
      | Quit \<Rightarrow> (Returned (Some value_ok), x)
      | Ping msg \<Rightarrow> (Returned (Some (case msg of Some m \<Rightarrow> value_string m | None \<Rightarrow> value_pong)), x)
      | Echo msg \<Rightarrow> (Returned (Some (value_string msg)), x)
      | Get key \<Rightarrow>
          (case db_get P clk key (xs_db x) of (r, d) \<Rightarrow>
             (Returned (Some (case r of Some b \<Rightarrow> BulkString (Some b) | None \<Rightarrow> null_bulk)), x\<lparr>xs_db := d\<rparr>))
      | Set key v px_ms \<Rightarrow> exec_set P send clk key v px_ms raw_cmd x
      | Del ks \<Rightarrow> exec_del P send ks raw_cmd x
      | Exists ks \<Rightarrow>
          (case timed_count_loop (db_exists P) clk ks (xs_db x) of (n, d) \<Rightarrow>
             (Returned (Some (Integer (int n))), x\<lparr>xs_db := d\<rparr>))
      | Keys _ \<Rightarrow> (Returned (Some (Array (Some (map value_string (db_keys (clk 0) (xs_db x)))))), x)
      | Info _ \<Rightarrow> (Returned (Some (value_string (info_replication (xs_repl x)))), x)
      | ReplConf args \<Rightarrow> (Returned (exec_replconf args x), x)
      | Psync _ _ \<Rightarrow>
          (Returned (Some (SimpleString (''FULLRESYNC '' @ get_replid (xs_repl x) @ '' 0''))), x)
      | Cluster subcmd \<Rightarrow> exec_cluster P subcmd x
      | CommandDocs \<Rightarrow> (Returned (Some (Array (Some []))), x))"

definition execute :: "platform \<Rightarrow> 'c sender \<Rightarrow> clock \<Rightarrow> Command \<Rightarrow> bytes option \<Rightarrow> string option
    \<Rightarrow> 'c exec_state \<Rightarrow> outcome \<times> 'c exec_state" where
  "execute P send clk cmd raw_cmd requirepass x =
     (case requirepass of
        Some pass \<Rightarrow>
          if \<not> xs_auth x then
            (case cmd of
               Auth _ password \<Rightarrow>
                 if password = pass then (Returned (Some value_ok), x\<lparr>xs_auth := True\<rparr>)
                 else (Returned (Some (value_error ''WRONGPASS invalid username-password pair or user is disabled.'')), x)
             | Quit \<Rightarrow> (Returned (Some value_ok), x)
             | _ \<Rightarrow> (Returned (Some (value_error ''NOAUTH Authentication required.'')), x))
          else exec_body P send clk cmd raw_cmd x
      | None \<Rightarrow> exec_body P send clk cmd raw_cmd x)"

end
