(* ===== verification/Topology_Reports.thy ===== *)
theory Topology_Reports
  imports Topology
begin

text \<open>
  The configuration syntax of slot ranges and the reports of the cluster: a specification
  string assigns the ranges it spells, \<open>CLUSTER SLOTS\<close> is a faithful, maximal run-length
  encoding of the slot table, and \<open>CLUSTER INFO\<close> reports full coverage exactly when every
  slot has an owner.
\<close>

section \<open>Slot specifications\<close>

lemma split_on_no_sep: "sep \<notin> set s \<Longrightarrow> split_on sep s = [s]"
  by (induction s) auto

lemma split_on_append: "sep \<notin> set s \<Longrightarrow> split_on sep (s @ sep # r) = s # split_on sep r"
  by (induction s) auto

lemma split_on_join:
  "xs \<noteq> [] \<Longrightarrow> \<forall>x \<in> set xs. sep \<notin> set x \<Longrightarrow> split_on sep (join [sep] xs) = xs"
  by (induction "[sep]" xs rule: join.induct) (simp_all add: split_on_no_sep split_on_append)

lemma split_once_append: "sep \<notin> set a \<Longrightarrow> split_once sep (a @ sep # b) = Some (a, b)"
  by (induction a) auto

definition digit_ends :: "string \<Rightarrow> bool" where
  "digit_ends s \<longleftrightarrow> s \<noteq> [] \<and> to_digit (hd s) \<noteq> None \<and> to_digit (last s) \<noteq> None"

lemma solid_digit: "to_digit c \<noteq> None \<Longrightarrow> solid c"
  by (auto simp: to_digit_def solid_def Let_def split: if_splits)

lemma trim_digits: "digit_ends s \<Longrightarrow> trim s = s"
  by (simp add: digit_ends_def trim_solid solid_digit del: not_None_eq)

lemma parse_u16_show [simp]: "parse_u16 (show_u16 w) = Inr w"
proof -
  have "unat w < 2 ^ 16" using unsigned_less [of w, where 'a = nat] by simp
  then have "int (unat w) < int (2 ^ 16)" by (simp only: of_nat_less_iff)
  then have "int (unat w) \<le> 2 ^ 16 - 1" by simp
  then show ?thesis using parse_int_show_nat [of "unat w" "2 ^ 16 - 1" False 0]
    by (simp add: parse_u16_def show_u16_def)
qed

lemma show_u16_not_Nil [simp]: "show_u16 w \<noteq> []"
  by (simp add: show_u16_def)

lemma digit_ends_show_u16 [simp]: "digit_ends (show_u16 w)"
  using show_nat_digits [of _ "unat w"] by (simp add: digit_ends_def show_u16_def del: not_None_eq)

lemma digit_ends_show_range [simp]: "digit_ends (show_range r)"
  using digit_ends_show_u16 [of "fst r"] digit_ends_show_u16 [of "snd r"]
  by (simp add: digit_ends_def show_range_def)

lemma not_in_show_u16: "to_digit c = None \<Longrightarrow> c \<notin> set (show_u16 w)"
  using show_nat_digits [of c "unat w"] by (auto simp: show_u16_def)

lemma to_digit_sep: "to_digit CHR ''-'' = None" "to_digit CHR '','' = None"
  by (simp_all add: to_digit_def byte_def)

lemma assign_part_show_range: "assign_part i (show_range (a, b)) t = add_slots_range i a b t"
proof (cases "a = b")
  case True
  have "split_once CHR ''-'' (show_u16 a) = None"
    by (simp add: split_once_None not_in_show_u16 to_digit_sep)
  then show ?thesis using True by (simp add: assign_part_def Let_def show_range_def trim_digits)
next
  case False
  have "split_once CHR ''-'' (show_range (a, b)) = Some (show_u16 a, show_u16 b)"
    using False split_once_append [of "CHR ''-''" "show_u16 a" "show_u16 b"]
    by (simp add: show_range_def not_in_show_u16 to_digit_sep)
  moreover have "show_range (a, b) \<noteq> []" by (simp add: show_range_def)
  ultimately show ?thesis by (simp add: assign_part_def Let_def trim_digits)
qed

lemma assign_parts_show_ranges:
  assumes "topo_inv P t" "hm_get (nodes t) i \<noteq> None" "\<forall>(a, b) \<in> set rs. a \<le> b \<and> b < HASH_SLOTS"
  shows "assign_parts i (map show_range rs) t = (Inr (), fold (\<lambda>(a, b) t. snd (add_slots_range i a b t)) rs t)"
  using assms
proof (induction rs arbitrary: t)
  case (Cons r rs)
  obtain a b where r: "r = (a, b)" by (cases r)
  have "fst (add_slots_range i a b t) = Inr ()" using Cons.prems r by (auto simp: add_slots_range_result [OF Cons.prems(1)])
  then obtain t' where t': "add_slots_range i a b t = (Inr (), t')" by (metis prod.collapse)
  have "topo_inv P t'" "hm_get (nodes t') i \<noteq> None"
    using topo_inv_add_slots [OF Cons.prems(1), of i a b] topo.assign_known [OF Cons.prems(1), of i a b i]
      t' Cons.prems(2) by auto
  then show ?case using Cons.IH [of t'] Cons.prems(3) r t' by (simp add: assign_part_show_range)
qed simp

lemma show_range_no_comma: "CHR '','' \<notin> set (show_range r)"
  by (simp add: show_range_def not_in_show_u16 to_digit_sep)

lemma parse_and_assign_show_ranges:
  assumes "topo_inv P t" "hm_get (nodes t) i \<noteq> None" "\<forall>(a, b) \<in> set rs. a \<le> b \<and> b < HASH_SLOTS"
  shows "parse_and_assign_slots i (join '','' (map show_range rs)) t =
    (Inr (), fold (\<lambda>(a, b) t. snd (add_slots_range i a b t)) rs t)"
proof (cases "rs = []")
  case True
  have "trim [] = []"
    by (simp add: trim_def trim_start.simps [of "[]"] trim_end.simps [of "[]"] leading_ws_def trailing_ws_def
        whitespace_def)
  then show ?thesis using True by (simp add: parse_and_assign_slots_def assign_part_def)
next
  case False
  then have "split_on CHR '','' (join '','' (map show_range rs)) = map show_range rs"
    by (intro split_on_join) (auto simp: show_range_no_comma)
  then show ?thesis using assign_parts_show_ranges [OF assms] by (simp add: parse_and_assign_slots_def)
qed

section \<open>\<open>CLUSTER SLOTS\<close> as a run-length encoding\<close>

definition covers :: "slot_range list \<Rightarrow> nat \<Rightarrow> string \<Rightarrow> bool" where
  "covers rs s i \<longleftrightarrow> (\<exists>(a, b, n) \<in> set rs. unat a \<le> s \<and> s \<le> unat b \<and> node_id n = i)"

text \<open>Two neighbours in the list do not overlap, and touch only if their owners differ.\<close>

definition apart :: "slot_range \<Rightarrow> slot_range \<Rightarrow> bool" where
  "apart r r' = (case (r, r') of ((a, b, n), (a', b', n')) \<Rightarrow>
     unat b < unat a' \<and> (Suc (unat b) = unat a' \<longrightarrow> node_id n \<noteq> node_id n'))"

text \<open>The ranges found so far, the current one last.\<close>

definition found :: "slot_range list \<times> slot_range option \<Rightarrow> slot_range list" where
  "found st = fst st @ (case snd st of None \<Rightarrow> [] | Some r \<Rightarrow> [r])"

definition rle_inv :: "cluster_node option list \<Rightarrow> nat \<Rightarrow> slot_range list \<times> slot_range option \<Rightarrow> bool" where
  "rle_inv ss m st \<longleftrightarrow>
     (\<forall>s < m. \<forall>i. covers (found st) s i \<longleftrightarrow> (\<exists>n. ss ! s = Some n \<and> node_id n = i))
     \<and> (\<forall>(a, b, n) \<in> set (found st). unat a \<le> unat b \<and> unat b < m)
     \<and> (case snd st of
          None \<Rightarrow> \<forall>(a, b, n) \<in> set (fst st). Suc (unat b) < m
        | Some (a, b, n) \<Rightarrow> Suc (unat b) = m)
     \<and> successively apart (found st)"

lemma covers_append: "covers (rs @ [(a, b, n)]) s i \<longleftrightarrow>
    covers rs s i \<or> unat a \<le> s \<and> s \<le> unat b \<and> node_id n = i"
  by (auto simp: covers_def)

lemma not_covers: "\<forall>(a, b, n) \<in> set rs. unat a \<le> unat b \<and> unat b < m \<Longrightarrow> \<not> covers rs m i"
  by (auto simp: covers_def)

lemma apart_end: "apart r (a, b, n) = apart r (a, b', n)"
  by (auto simp: apart_def split: prod.split)

lemma successively_snoc: "successively Q (xs @ [x]) \<longleftrightarrow> successively Q xs \<and> (xs = [] \<or> Q (last xs) x)"
  by (auto simp: successively_append_iff)

lemma last_bound:
  assumes "\<forall>(a, b, n) \<in> set rs. Suc (unat b) < m" "unat a = m"
  shows "rs = [] \<or> apart (last rs) (a, b, n)"
proof (cases "rs = []")
  case False
  obtain a' b' n' where l: "last rs = (a', b', n')" by (cases "last rs")
  have "last rs \<in> set rs" using False by simp
  then have "Suc (unat b') < m" using assms(1) l by auto
  then show ?thesis using l assms(2) by (simp add: apart_def)
qed simp

lemma rle_step:
  assumes inv: "rle_inv ss m st" and m: "m < length ss" and len: "length ss \<le> 2 ^ 16"
  shows "rle_inv ss (Suc m) (range_step (m, ss ! m) st)"
proof -
  have um: "unat (of_nat m :: u16) = m" using m len by (intro unat_of_nat_less) simp
  obtain ranges cur where st: "st = (ranges, cur)" by (cases st)
  show ?thesis
  proof (cases cur)
    case None
    have nc: "\<not> covers ranges m i" for i
      using inv st None by (intro not_covers) (auto simp: rle_inv_def found_def)
    show ?thesis
    proof (cases "ss ! m")
      case (Some c)
      have "ranges = [] \<or> apart (last ranges) (of_nat m, of_nat m, c)"
        using inv st None um by (intro last_bound [where m = m]) (auto simp: rle_inv_def)
      then have "successively apart (ranges @ [(of_nat m, of_nat m, c)])"
        using inv st None by (simp add: successively_snoc rle_inv_def found_def)
      moreover have "covers (ranges @ [(of_nat m, of_nat m, c)]) s i \<longleftrightarrow>
          covers ranges s i \<or> s = m \<and> node_id c = i" for s i
        using um by (auto simp: covers_append)
      ultimately show ?thesis
        using inv st None Some nc um by (fastforce simp: rle_inv_def found_def less_Suc_eq)
    qed (use inv st None nc in \<open>fastforce simp: rle_inv_def found_def less_Suc_eq\<close>)
  next
    case (Some r)
    obtain a b n where r: "r = (a, b, n)" by (cases r)
    have b: "Suc (unat b) = m" using inv st Some r by (simp add: rle_inv_def)
    have bounds: "\<forall>(a, b, n) \<in> set (ranges @ [(a, b, n)]). unat a \<le> unat b \<and> unat b < m"
      using inv st Some r by (simp add: rle_inv_def found_def)
    have nc: "\<not> covers ranges m i" "\<not> covers (ranges @ [(a, b, n)]) m i" for i
      using bounds by (auto intro!: not_covers)
    have cov: "\<forall>s < m. \<forall>i. covers (ranges @ [(a, b, n)]) s i \<longleftrightarrow> (\<exists>n. ss ! s = Some n \<and> node_id n = i)"
      and succ: "successively apart (ranges @ [(a, b, n)])"
      using inv st Some r by (simp_all add: rle_inv_def found_def)
    consider (gap) "ss ! m = None" | (same) c where "ss ! m = Some c" "node_id n = node_id c"
      | (other) c where "ss ! m = Some c" "node_id n \<noteq> node_id c" by (cases "ss ! m") auto
    then show ?thesis
    proof cases
      case gap
      then show ?thesis using st Some r bounds nc cov succ b
        by (fastforce simp: rle_inv_def found_def less_Suc_eq)
    next
      case same
      have "\<forall>s < m. \<forall>i. covers (ranges @ [(a, of_nat m, n)]) s i = covers (ranges @ [(a, b, n)]) s i"
        using um b by (auto simp: covers_append)
      moreover have "covers (ranges @ [(a, of_nat m, n)]) m i \<longleftrightarrow> node_id n = i" for i
        using um b bounds nc by (auto simp: covers_append)
      moreover have "successively apart (ranges @ [(a, of_nat m, n)])"
        using succ apart_end by (fastforce simp: successively_snoc)
      ultimately show ?thesis using st Some r bounds cov um same
        by (fastforce simp: rle_inv_def found_def less_Suc_eq)
    next
      case other
      have "apart (a, b, n) (of_nat m, of_nat m, c)" using other um b by (simp add: apart_def)
      then have "successively apart ((ranges @ [(a, b, n)]) @ [(of_nat m, of_nat m, c)])"
        using succ unfolding successively_snoc [of apart "ranges @ [(a, b, n)]"] by simp
      moreover have "covers ((ranges @ [(a, b, n)]) @ [(of_nat m, of_nat m, c)]) s i \<longleftrightarrow>
          covers (ranges @ [(a, b, n)]) s i \<or> s = m \<and> node_id c = i" for s i
        unfolding covers_append [of "ranges @ [(a, b, n)]"] using um by auto
      ultimately show ?thesis using st Some r bounds cov um other nc
        by (fastforce simp: rle_inv_def found_def less_Suc_eq)
    qed
  qed
qed

lemma rle_fold:
  assumes "rle_inv ss m st" "m \<le> length ss" "length ss \<le> 2 ^ 16"
  shows "rle_inv ss (length ss) (fold range_step (enumerate m (drop m ss)) st)"
  using assms(1,2)
proof (induction "length ss - m" arbitrary: m st)
  case (Suc k)
  then have m: "m < length ss" by simp
  then have "drop m ss = ss ! m # drop (Suc m) ss" by (simp add: Cons_nth_drop_Suc)
  then show ?case
    using Suc.hyps(1) [of "Suc m" "range_step (m, ss ! m) st"] Suc.hyps(2) rle_step [OF Suc.prems(1) m assms(3)] m
    by simp
qed simp

lemma slot_ranges_found: "slot_ranges ss = found (fold range_step (enumerate 0 ss) ([], None))"
  by (simp add: slot_ranges_def found_def split: prod.split option.split)

lemma slot_ranges_spec:
  assumes "length ss \<le> 2 ^ 16"
  shows "(\<forall>s < length ss. \<forall>i. covers (slot_ranges ss) s i \<longleftrightarrow> (\<exists>n. ss ! s = Some n \<and> node_id n = i))
    \<and> (\<forall>(a, b, n) \<in> set (slot_ranges ss). unat a \<le> unat b \<and> unat b < length ss)
    \<and> successively apart (slot_ranges ss)"
proof -
  have "rle_inv ss 0 ([], None)" by (simp add: rle_inv_def found_def)
  from rle_fold [OF this _ assms] show ?thesis by (auto simp: slot_ranges_found rle_inv_def)
qed

section \<open>Properties\<close>

definition sample_topology :: cluster_topology where
  "sample_topology = topology_new sample_platform (node_new ''n1'' ''10.0.0.1'' 7000 17000 True True)"

lemma permutes_sample_platform: "permutes (bucket_order sample_platform)"
  by (simp add: permutes_def sample_platform_def)

lemma topo_inv_sample [simp]: "topo_inv sample_platform sample_topology"
  unfolding sample_topology_def by (rule topo_inv_new [OF permutes_sample_platform])

lemma sample_topology_nodes [simp]: "hm_get (nodes sample_topology) ''n1'' \<noteq> None"
  by (simp add: sample_topology_def topology_new_def node_new_def hm_insert_def hm_arrange_def hm_keys_def
      hm_get_def sample_platform_def)

text \<open>
  C35. Configured slots.  A specification that spells valid ranges (\<open>7\<close>, \<open>0-5460\<close>, comma separated)
  is accepted, and afterwards a slot belongs to the node exactly if a range contains it; every
  other slot keeps the owner it had.
\<close>

theorem slot_spec_assigns:
  assumes "topo_inv P t" "hm_get (nodes t) i \<noteq> None" "\<forall>(a, b) \<in> set rs. a \<le> b \<and> b < HASH_SLOTS"
  shows "\<exists>t'. parse_and_assign_slots i (join '','' (map show_range rs)) t = (Inr (), t')
    \<and> topo_inv P t' \<and> myself_id t' = myself_id t
    \<and> (\<forall>s. map_option node_id (get_node_for_slot t' s) =
          (if \<exists>(a, b) \<in> set rs. a \<le> s \<and> s \<le> b then Some i
           else map_option node_id (get_node_for_slot t s)))"
  using parse_and_assign_show_ranges [OF assms] topo.assign_ranges [OF assms]
  by (auto simp: Let_def topo.owner_id_def)

theorem slot_spec_assigns_witness:
  "topo_inv sample_platform sample_topology
   \<and> (\<exists>t'. parse_and_assign_slots ''n1'' (join '','' (map show_range [(0, 5460), (7000, 7000)])) sample_topology = (Inr (), t')
        \<and> map_option node_id (get_node_for_slot t' 7000) = Some ''n1'')"
proof -
  have "\<forall>(a, b) \<in> set [(0, 5460), (7000, 7000 :: u16)]. a \<le> b \<and> b < HASH_SLOTS" by (simp add: HASH_SLOTS_def)
  from slot_spec_assigns [OF topo_inv_sample sample_topology_nodes this] obtain t' where
    "parse_and_assign_slots ''n1'' (join '','' (map show_range [(0, 5460), (7000, 7000)])) sample_topology = (Inr (), t')"
    and own: "\<forall>s. map_option node_id (get_node_for_slot t' s) =
      (if \<exists>(a, b) \<in> set [(0, 5460), (7000, 7000)]. a \<le> s \<and> s \<le> b then Some ''n1''
       else map_option node_id (get_node_for_slot sample_topology s))" by blast
  moreover have "map_option node_id (get_node_for_slot t' 7000) = Some ''n1''"
    using spec [OF own, of 7000] by (simp del: map_option_eq_Some)
  ultimately show ?thesis using topo_inv_sample by blast
qed

text \<open>
  Rejected assignments.  \<open>add_slots_range\<close> succeeds exactly for a non-empty range below 16384 of
  a known node, and on failure the topology is unchanged; on success the slots of the range, and
  only they, belong to that node.
\<close>

lemma add_slots_range_effect:
  assumes "topo_inv P t"
  shows "(fst (add_slots_range i a b t) = Inr () \<longleftrightarrow> a \<le> b \<and> b < HASH_SLOTS \<and> hm_get (nodes t) i \<noteq> None)
    \<and> (fst (add_slots_range i a b t) \<noteq> Inr () \<longrightarrow> snd (add_slots_range i a b t) = t)
    \<and> (fst (add_slots_range i a b t) = Inr () \<longrightarrow>
        (\<forall>s. get_node_for_slot (snd (add_slots_range i a b t)) s =
            (if a \<le> s \<and> s \<le> b then hm_get (nodes t) i else get_node_for_slot t s)))
    \<and> topo_inv P (snd (add_slots_range i a b t))"
  using add_slots_range_result [OF assms] add_slots_range_error [OF assms] add_slots_range_owner [OF assms]
    topo_inv_add_slots [OF assms]
  by blast

text \<open>
  C23. \<open>CLUSTER SLOTS\<close>.  The reply is the list of the entries of some ranges that describe the slot
  table exactly: a slot lies in a range of node \<open>i\<close> exactly if \<open>i\<close> owns it; the ranges are in
  ascending order, do not overlap, and neighbours that touch belong to different nodes.
\<close>

theorem cluster_slots_rle:
  assumes "topo_inv P t"
  shows "\<exists>rs. format_cluster_slots t = Array (Some (map range_entry rs))
    \<and> (\<forall>s i. s < HASH_SLOTS \<longrightarrow>
        (covers rs (unat s) i \<longleftrightarrow> (\<exists>n. get_node_for_slot t s = Some n \<and> node_id n = i)))
    \<and> (\<forall>(a, b, n) \<in> set rs. a \<le> b \<and> b < HASH_SLOTS) \<and> successively apart rs"
proof (intro exI conjI)
  have len: "length (slot_to_node t) = 16384" using assms by (simp add: topo_inv_def)
  then have sp: "(\<forall>s < length (slot_to_node t). \<forall>i. covers (slot_ranges (slot_to_node t)) s i \<longleftrightarrow>
      (\<exists>n. slot_to_node t ! s = Some n \<and> node_id n = i))
    \<and> (\<forall>(a, b, n) \<in> set (slot_ranges (slot_to_node t)). unat a \<le> unat b \<and> unat b < length (slot_to_node t))
    \<and> successively apart (slot_ranges (slot_to_node t))" by (intro slot_ranges_spec) simp
  show "format_cluster_slots t = Array (Some (map range_entry (slot_ranges (slot_to_node t))))"
    by (simp add: format_cluster_slots_def)
  show "\<forall>s i. s < HASH_SLOTS \<longrightarrow> (covers (slot_ranges (slot_to_node t)) (unat s) i \<longleftrightarrow>
      (\<exists>n. get_node_for_slot t s = Some n \<and> node_id n = i))"
    using sp len by (simp add: get_node_for_slot_def word_less_nat_alt)
  show "\<forall>(a, b, n) \<in> set (slot_ranges (slot_to_node t)). a \<le> b \<and> b < HASH_SLOTS"
    using sp len by (simp add: word_le_nat_alt word_less_nat_alt)
  show "successively apart (slot_ranges (slot_to_node t))" using sp by simp
qed

theorem cluster_slots_rle_witness:
  "\<exists>t rs. add_slots_range ''n1'' 3 7 sample_topology = (Inr (), t)
     \<and> format_cluster_slots t = Array (Some (map range_entry rs)) \<and> covers rs 5 ''n1'' \<and> successively apart rs"
proof -
  let ?t = "snd (add_slots_range ''n1'' 3 7 sample_topology)"
  have ok: "fst (add_slots_range ''n1'' 3 7 sample_topology) = Inr ()"
    using sample_topology_nodes by (simp add: add_slots_range_result [OF topo_inv_sample] HASH_SLOTS_def)
  have "map_option node_id (get_node_for_slot ?t 5) = Some ''n1''"
    using topo.assign_owner_id [OF topo_inv_sample, of 3 7 "''n1''" 5] sample_topology_nodes
    by (simp add: topo.owner_id_def HASH_SLOTS_def)
  then obtain n where n: "get_node_for_slot ?t 5 = Some n" "node_id n = ''n1''" by auto
  obtain rs where rs: "format_cluster_slots ?t = Array (Some (map range_entry rs))" "successively apart rs"
    "\<forall>s i. s < HASH_SLOTS \<longrightarrow> (covers rs (unat s) i \<longleftrightarrow> (\<exists>n. get_node_for_slot ?t s = Some n \<and> node_id n = i))"
    using cluster_slots_rle [OF topo_inv_add_slots [OF topo_inv_sample], of "''n1''" 3 7] by blast
  have "covers rs 5 ''n1''" using rs(3) [rule_format, of 5 "''n1''"] n by (simp add: HASH_SLOTS_def)
  then show ?thesis using ok rs(1,2) by (metis prod.collapse)
qed

lemma length_filter_all: "length (filter Q xs) = length xs \<longleftrightarrow> (\<forall>x \<in> set xs. Q x)"
  by (metis filter_True length_filter_less less_irrefl)

text \<open>
  \<open>CLUSTER INFO\<close>.  The report starts with \<open>cluster_state:ok\<close> exactly when every hash slot has an
  owner.
\<close>

lemma cluster_state_ok:
  assumes "topo_inv P t"
  shows "take 16 (format_cluster_info t) = ''cluster_state:ok'' \<longleftrightarrow>
    (\<forall>s. s < HASH_SLOTS \<longrightarrow> get_node_for_slot t s \<noteq> None)"
proof -
  have len: "length (slot_to_node t) = 16384" using assms by (simp add: topo_inv_def)
  have "assigned_count t = 16384 \<longleftrightarrow> (\<forall>x \<in> set (slot_to_node t). x \<noteq> None)"
    using len length_filter_all [of "\<lambda>s. s \<noteq> None" "slot_to_node t"] by (simp only: assigned_count_def)
  also have "\<dots> \<longleftrightarrow> (\<forall>s. s < HASH_SLOTS \<longrightarrow> get_node_for_slot t s \<noteq> None)"
  proof
    assume "\<forall>x \<in> set (slot_to_node t). x \<noteq> None"
    then show "\<forall>s. s < HASH_SLOTS \<longrightarrow> get_node_for_slot t s \<noteq> None"
      using len by (simp add: get_node_for_slot_def word_less_nat_alt)
  next
    assume r: "\<forall>s. s < HASH_SLOTS \<longrightarrow> get_node_for_slot t s \<noteq> None"
    have "slot_to_node t ! j \<noteq> None" if j: "j < 16384" for j
    proof -
      have u: "unat (of_nat j :: u16) = j" using j by (intro unat_of_nat_less) simp
      then show ?thesis using r [rule_format, of "of_nat j"] j len
        by (simp add: get_node_for_slot_def word_less_nat_alt)
    qed
    then show "\<forall>x \<in> set (slot_to_node t). x \<noteq> None" using len by (simp add: all_set_conv_all_nth)
  qed
  finally show ?thesis by (simp add: format_cluster_info_def Let_def)
qed

end
