(* ===== verification/Storage_Drift.thy ===== *)
theory Storage_Drift
  imports Storage_Contract
begin

text \<open>
  The storage without the accounting: what the operations keep even when \<open>used_memory\<close> is not the
  sum of the sizes, as an expiry round that is interrupted can leave it.  The structure (shape,
  unique keys, every key in its shard, every entry with its size) is kept by everything, and \<open>get\<close>, \<open>set\<close>
  (with its eviction loop) and \<open>del\<close> neither add to the error of the counter nor take from it.
\<close>

definition storage_ok :: "platform \<Rightarrow> db \<Rightarrow> bool" where
  "storage_ok P d \<longleftrightarrow> permutes (bucket_order P) \<and> db_shape d
     \<and> (\<forall>i < length (shards d). shard_ok P d i (shards d ! i))"

text \<open>By how much the counter exceeds the sizes of the stored entries, modulo the word size.\<close>

definition drift :: "db \<Rightarrow> usize" where
  "drift d = used_memory d - total_size d"

text \<open>The database with the counter corrected by \<open>u\<close>.\<close>

definition settle :: "usize \<Rightarrow> db \<Rightarrow> db" where
  "settle u d = d\<lparr>used_memory := used_memory d - u\<rparr>"

lemma settle_simps [simp]:
  "shards (settle u d) = shards d" "shard_mask (settle u d) = shard_mask d" "max_memory_bytes (settle u d) = max_memory_bytes d"
  "shard_index P (settle u d) k = shard_index P d k" "settle 0 d = d"
  by (simp_all add: settle_def shard_index_def)

lemma db_inv_settle: "db_inv P (settle u d) \<longleftrightarrow> storage_ok P d \<and> drift d = u"
proof -
  have "used_memory d - u = total_size d \<longleftrightarrow> drift d = u" by (auto simp: drift_def algebra_simps)
  then show ?thesis
    by (auto simp: db_inv_def storage_ok_def settle_def db_shape_def shard_ok_def total_size_def)
qed

lemma db_inv_drift: "db_inv P d \<longleftrightarrow> storage_ok P d \<and> drift d = 0"
  using db_inv_settle [of P 0 d] by simp

section \<open>Client operations\<close>

lemma settle_remove_entry: "remove_entry i k sz (settle u d) = settle u (remove_entry i k sz d)"
  by (simp add: remove_entry_def settle_def algebra_simps)

lemma settle_get: "db_get P clk k (settle u d) = map_prod id (settle u) (db_get P clk k d)"
proof -
  have "get_hit P clk k (settle u d) = map_prod id (settle u) (get_hit P clk k d)"
    by (simp add: get_hit_def Let_def settle_def shard_index_def split: option.split)
  moreover have "get_lazy P now k (settle u d) = settle u (get_lazy P now k d)" for now d
    by (simp add: get_lazy_def Let_def settle_remove_entry split: option.split)
  ultimately show ?thesis by (simp add: db_get_def case_prod_beta split: option.split)
qed

lemma settle_del: "db_del P k (settle u d) = map_prod id (settle u) (db_del P k d)"
  by (simp add: db_del_def Let_def settle_remove_entry split: option.split)

lemma settle_insert: "set_insert P k e (settle u d) = settle u (set_insert P k e d)"
  by (simp add: set_insert_def Let_def settle_def shard_index_def algebra_simps split: option.split)

lemma settled_get: "db_inv P (settle u d) \<Longrightarrow> db_inv P (settle u (snd (db_get P clk k d)))"
  using db_inv_get [of P "settle u d" clk k] by (simp add: settle_get)

lemma settled_del: "db_inv P (settle u d) \<Longrightarrow> db_inv P (settle u (snd (db_del P k d)))"
  using db_inv_del [of P "settle u d" k] by (simp add: settle_del)

text \<open>The eviction loop reads the counter, but what it removes it subtracts.\<close>

lemma settled_ensure: "db_inv P (settle u d) \<Longrightarrow> db_inv P (settle u (ensure_memory_capacity d))"
proof (induction d rule: ensure_memory_capacity.induct)
  case (1 d)
  show ?case
  proof (cases "\<exists>i k t e. used_memory d \<ge> max_memory_bytes d \<and> find_oldest (shards d) = Some (i, k, t)
      \<and> hm_get (shards d ! i) k = Some e")
    case True
    then obtain i k t e where full: "used_memory d \<ge> max_memory_bytes d"
      and v: "find_oldest (shards d) = Some (i, k, t)" "hm_get (shards d ! i) k = Some e" by blast
    have "i < length (shards d)" using find_oldest_Some [OF v(1)] by blast
    then have "db_inv P (settle u (remove_entry i k (approx_size_bytes e) d))"
      using db_inv_remove_entry [OF "1.prems", of i k e] v(2) by (simp add: settle_remove_entry)
    then have "db_inv P (settle u (ensure_memory_capacity (remove_entry i k (approx_size_bytes e) d)))"
      using "1.IH" full v by blast
    then show ?thesis using full v by (simp add: ensure_memory_capacity.simps [of d])
  next
    case False
    then have "ensure_memory_capacity d = d"
      by (subst ensure_memory_capacity.simps) (auto split: option.split)
    then show ?thesis using "1.prems" by simp
  qed
qed

lemma settled_set: "db_inv P (settle u d) \<Longrightarrow> db_inv P (settle u (db_set P clk k v x d))"
  using settled_ensure [of P u d] db_inv_set_insert
  by (auto simp: db_set_room set_room_def simp flip: settle_insert)

section \<open>Expiry\<close>

lemma storage_ok_remove_entry:
  assumes "storage_ok P d"
  shows "storage_ok P (remove_entry i k sz d)"
proof (cases "i < length (shards d)")
  case True
  then have "shard_ok P d i (hm_remove (shards d ! i) k)"
    using assms by (auto simp: storage_ok_def shard_ok_def hm_remove_def hm_wf_def hm_keys_def distinct_map_filter)
  then have "shard_ok P d j ((shards d)[i := hm_remove (shards d ! i) k] ! j)" if "j < length (shards d)" for j
    using that assms True by (cases "j = i") (auto simp: storage_ok_def)
  moreover have "db_shape (remove_entry i k sz d)" using assms by (simp add: storage_ok_def db_shape_def)
  ultimately show ?thesis using assms
    by (simp add: storage_ok_def shard_ok_def remove_entry_def)
qed (use assms in \<open>auto simp: storage_ok_def remove_entry_def db_shape_def shard_ok_def\<close>)

lemma storage_ok_purge_remove: "storage_ok P (snd s) \<Longrightarrow> storage_ok P (snd (purge_remove i ks s))"
  by (induction i ks s rule: purge_remove.induct) (simp_all add: storage_ok_remove_entry)

end
