(* ===== verification/Command_Facts.thy ===== *)
theory Command_Facts
  imports Commands Topology_Reports Storage_Drift
begin

text \<open>
  What executing a command does: the counting loops on any store that meets the contract
  \<open>kv_store\<close>, the invariant of the shared state, propagation to the replicas, and the one
  command that can panic.  The wire format of commands is in
  \<open>Command_Wire\<close>.
\<close>

section \<open>Counting loops over a store\<close>

context kv_store
begin

lemma count_del:
  assumes "ok s" "count_loop kv_del ks s = (n, s')"
  shows "n = card (set ks \<inter> dom (stored s)) \<and> ok s'
    \<and> (\<forall>k. stored s' k = (if k \<in> set ks then None else stored s k))"
  using assms
proof (induction ks arbitrary: s n s')
  case (Cons k ks)
  obtain b s1 where b: "kv_del k s = (b, s1)" by (cases "kv_del k s")
  obtain m s2 where m: "count_loop kv_del ks s1 = (m, s2)" by (cases "count_loop kv_del ks s1")
  have s1: "b \<longleftrightarrow> stored s k \<noteq> None" "ok s1" "\<And>k'. stored s1 k' = (if k' = k then None else stored s k')"
    using del_result [OF Cons.prems(1), of k] ok_del [OF Cons.prems(1), of k] del_stored [OF Cons.prems(1), of k] b
    by auto
  have IH: "m = card (set ks \<inter> dom (stored s1))" "ok s2"
    "\<And>k'. stored s2 k' = (if k' \<in> set ks then None else stored s1 k')" using Cons.IH [OF s1(2) m] by auto
  have "dom (stored s1) = dom (stored s) - {k}" using s1(3) by (auto split: if_splits)
  then have "set ks \<inter> dom (stored s1) = (set (k # ks) \<inter> dom (stored s)) - {k}" by auto
  then have "card (set (k # ks) \<inter> dom (stored s)) = (if b then 1 else 0) + m"
    using IH(1) s1(1) card_Suc_Diff1 [of "set (k # ks) \<inter> dom (stored s)" k] by (auto simp: dom_def)
  then show ?case using Cons.prems(2) b m IH s1 by auto
qed simp

definition kv_exists :: "clock \<Rightarrow> string \<Rightarrow> 's \<Rightarrow> bool \<times> 's" where
  "kv_exists clk k s = (case kv_get clk k s of (r, s') \<Rightarrow> (r \<noteq> None, s'))"

lemma count_exists:
  assumes "ok s" "mono clk" "timed_count_loop kv_exists clk ks s = (n, s')"
  shows "n = (\<Sum>j < length ks. of_bool (visible (clk (3 * j)) (stored s (ks ! j)) \<noteq> None)) \<and> ok s'
    \<and> (\<forall>t k. clk (3 * length ks) \<le> t \<longrightarrow> visible t (stored s' k) = visible t (stored s k))"
  using assms
proof (induction ks arbitrary: s n s' clk)
  case (Cons k ks)
  obtain r s1 where r: "kv_get clk k s = (r, s1)" by (cases "kv_get clk k s")
  let ?clk = "\<lambda>i. clk (i + 3)"
  obtain m s2 where m: "timed_count_loop kv_exists ?clk ks s1 = (m, s2)"
    by (cases "timed_count_loop kv_exists ?clk ks s1")
  have ok1: "ok s1" and res: "r = visible (clk 0) (stored s k)"
    using ok_get [OF Cons.prems(1), of clk k] get_result [OF Cons.prems(1), of clk k] r by auto
  have mono: "mono ?clk" using Cons.prems(2) by (auto simp: mono_def)
  have vis: "visible t (stored s1 k') = visible t (stored s k')" if "clk 0 \<le> t" for t k'
    using get_stored [OF Cons.prems(1,2) that, of k k'] r by simp
  have le: "clk 0 \<le> clk j" for j using Cons.prems(2) by (simp add: mono_def)
  have shift: "3 * j + 3 = 3 * Suc j" for j :: nat by simp
  have IH: "m = (\<Sum>j < length ks. of_bool (visible (?clk (3 * j)) (stored s1 (ks ! j)) \<noteq> None))" "ok s2"
    "\<And>t k. ?clk (3 * length ks) \<le> t \<Longrightarrow> visible t (stored s2 k) = visible t (stored s1 k)"
    using Cons.IH [OF ok1 mono m] by auto
  have "n = (if r \<noteq> None then 1 else 0) + m \<and> s' = s2"
  proof -
    have "kv_exists clk k s = (r \<noteq> None, s1)" using r by (simp add: kv_exists_def)
    then show ?thesis using Cons.prems(3) m by (auto split: if_splits)
  qed
  moreover have "m = (\<Sum>j < length ks. of_bool (visible (clk (3 * Suc j)) (stored s ((k # ks) ! Suc j)) \<noteq> None))"
    using IH(1) vis le by (simp only: shift nth_Cons_Suc)
  moreover have "visible t (stored s2 k') = visible t (stored s k')" if "clk (3 * length (k # ks)) \<le> t" for t k'
  proof -
    have "?clk (3 * length ks) \<le> t" using that by (simp add: add.commute)
    moreover have "clk 0 \<le> t" using that le [of "3 * length (k # ks)"] by linarith
    ultimately show ?thesis using IH(3) vis by simp
  qed
  ultimately show ?case using IH(2) res
    by (auto simp: sum.lessThan_Suc_shift simp del: sum.lessThan_Suc)
qed simp

end

lemma db_exists_kv: "db.kv_exists P = db_exists P"
  by (intro ext) (simp add: db.kv_exists_def db_exists_def)

lemmas db_count_exists = db.count_exists [unfolded db_exists_kv]

section \<open>The invariant of the shared state\<close>

definition xs_inv :: "platform \<Rightarrow> 'c exec_state \<Rightarrow> bool" where
  "xs_inv P x \<longleftrightarrow> db_inv P (xs_db x) \<and> (case xs_topo x of None \<Rightarrow> True | Some t \<Rightarrow> topo_inv P t)"

lemma xs_inv_simps [simp]:
  "xs_inv P (x\<lparr>xs_auth := b\<rparr>) = xs_inv P x"
  "xs_inv P x \<Longrightarrow> xs_inv P (x\<lparr>xs_db := d\<rparr>) = db_inv P d"
  "xs_inv P x \<Longrightarrow> xs_inv P (x\<lparr>xs_topo := Some t\<rparr>) = topo_inv P t"
  by (simp_all add: xs_inv_def)

lemma propagate_raw_frame [simp]:
  "xs_db (propagate_raw send raw x) = xs_db x" "xs_topo (propagate_raw send raw x) = xs_topo x"
  "xs_auth (propagate_raw send raw x) = xs_auth x" "xs_inv P (propagate_raw send raw x) = xs_inv P x"
  by (simp_all add: propagate_raw_def xs_inv_def split: option.split prod.split)

lemma topo_inv_add_slots_loop: "topo_inv P t \<Longrightarrow> topo_inv P (snd (add_slots_loop i ss t))"
proof (induction ss arbitrary: t)
  case (Cons s ss)
  then show ?case using topo_inv_add_slots [OF Cons.prems, of i s s]
    by (auto split: prod.split sum.split slot_error.split)
qed simp

lemma add_slots_loop_no_panic: "topo_inv P t \<Longrightarrow> fst (add_slots_loop i ss t) \<noteq> Panicked"
proof (induction ss arbitrary: t)
  case (Cons s ss)
  then show ?case
    using topo_inv_add_slots [OF Cons.prems, of i s s] add_slots_range_no_panic [OF Cons.prems, of i s s]
    by (auto split: prod.split sum.split slot_error.split)
qed simp

text \<open>
  The same with the memory counter off by \<open>u\<close>: no command changes by how much it is off.
\<close>

definition xs_off :: "platform \<Rightarrow> usize \<Rightarrow> 'c exec_state \<Rightarrow> bool" where
  "xs_off P u x \<longleftrightarrow> db_inv P (settle u (xs_db x)) \<and> (case xs_topo x of None \<Rightarrow> True | Some t \<Rightarrow> topo_inv P t)"

lemma xs_inv_off: "xs_inv P x = xs_off P 0 x"
  by (simp add: xs_inv_def xs_off_def)

lemma xs_off_simps [simp]:
  "xs_off P u (x\<lparr>xs_auth := b\<rparr>) = xs_off P u x" "xs_off P u (propagate_raw send raw x) = xs_off P u x"
  "xs_off P u x \<Longrightarrow> xs_off P u (x\<lparr>xs_db := d\<rparr>) = db_inv P (settle u d)"
  "xs_off P u x \<Longrightarrow> xs_off P u (x\<lparr>xs_topo := Some t\<rparr>) = topo_inv P t"
  by (simp_all add: xs_off_def)

lemma xs_off_db: "xs_off P u x \<Longrightarrow> db_inv P (settle u (xs_db x))"
  by (simp add: xs_off_def)

lemma xs_inv_db: "xs_inv P x \<Longrightarrow> db_inv P (xs_db x)"
  by (simp add: xs_inv_def)

lemma xs_off_cluster:
  assumes "xs_off P u x"
  shows "xs_off P u (snd (exec_cluster P c x))"
proof (cases "xs_topo x")
  case (Some t)
  then have "topo_inv P t" using assms by (simp add: xs_off_def)
  then show ?thesis
    using assms Some
    by (cases c) (simp_all add: exec_cluster_def case_prod_beta topo_inv_add_slots_loop topo_inv_add_node
        split: option.split)
qed (use assms in \<open>simp add: exec_cluster_def\<close>)

lemma settled_timed_loop:
  "db_inv P (settle u d) \<Longrightarrow> db_inv P (settle u (snd (timed_count_loop (db_exists P) clk ks d)))"
  by (induction ks arbitrary: clk d) (simp_all add: case_prod_beta snd_db_exists settled_get)

lemma settled_count_del: "db_inv P (settle u d) \<Longrightarrow> db_inv P (settle u (snd (count_loop (db_del P) ks d)))"
  by (induction ks arbitrary: d) (simp_all add: case_prod_beta settled_del)

lemma xs_off_exec_set: "xs_off P u x \<Longrightarrow> xs_off P u (snd (exec_set P send clk k v px raw x))"
  by (simp add: exec_set_def Let_def settled_set xs_off_db split: option.split)

lemma xs_off_exec_del: "xs_off P u x \<Longrightarrow> xs_off P u (snd (exec_del P send ks raw x))"
  by (simp add: exec_del_def Let_def case_prod_beta settled_count_del xs_off_db)

lemma xs_off_body: "xs_off P u x \<Longrightarrow> xs_off P u (snd (exec_body P send clk cmd raw x))"
  by (cases cmd) (simp_all add: exec_body_def case_prod_beta xs_off_exec_set xs_off_exec_del xs_off_cluster
      settled_timed_loop settled_get xs_off_db)

lemma xs_off_execute:
  "xs_off P u x \<Longrightarrow> xs_off P u (snd (execute P send clk cmd raw requirepass x))"
  by (cases cmd) (simp_all add: execute_def xs_off_body split: option.split)

lemma xs_inv_body: "xs_inv P x \<Longrightarrow> xs_inv P (snd (exec_body P send clk cmd raw x))"
  by (simp add: xs_inv_off xs_off_body)

lemma xs_inv_execute [inv_intros]:
  "xs_inv P x \<Longrightarrow> xs_inv P (snd (execute P send clk cmd raw requirepass x))"
  by (simp add: xs_inv_off xs_off_execute)

section \<open>Properties\<close>

text \<open>A request of one connection: the clock readings, the command and its raw bytes.\<close>

type_synonym request = "clock \<times> Command \<times> bytes option"

fun exec_run :: "platform \<Rightarrow> 'c sender \<Rightarrow> string option \<Rightarrow> request list \<Rightarrow> 'c exec_state
    \<Rightarrow> outcome list \<times> 'c exec_state" where
  "exec_run P send pass [] x = ([], x)"
| "exec_run P send pass ((clk, cmd, raw) # rs) x =
     (case execute P send clk cmd raw pass x of (out, x1) \<Rightarrow>
        (case exec_run P send pass rs x1 of (outs, x2) \<Rightarrow> (out # outs, x2)))"

text \<open>A state the witnesses use: the sample database, a master, one replica, cluster mode.\<close>

definition sample_state :: "bool \<Rightarrow> queues exec_state" where
  "sample_state au = \<lparr>xs_db = sample_db, xs_repl = register_downstream 1 (new_master None),
     xs_chan = (\<lambda>_. [], \<lambda>_. True), xs_auth = au, xs_topo = Some sample_topology\<rparr>"

lemma xs_inv_sample [simp]: "xs_inv sample_platform (sample_state au)"
  by (simp add: xs_inv_def sample_state_def)

lemma sample_state_simps [simp]:
  "xs_auth (sample_state au) = au" "xs_db (sample_state au) = sample_db"
  "xs_topo (sample_state au) = Some sample_topology" "\<not> is_replica (xs_repl (sample_state au))"
  by (simp_all add: sample_state_def)

text \<open>
  \<open>SET\<close> then \<open>GET\<close>.  For a client the gate lets through, \<open>GET\<close> after \<open>SET\<close> replies with the value that
  was set, and with the null bulk string from the instant \<open>PX\<close> milliseconds after the \<open>SET\<close> on.
\<close>

lemma set_get_commands:
  assumes "xs_inv P x" "pass = None \<or> xs_auth x"
  shows "fst (execute P send clk' (Get k) raw' pass (snd (execute P send clk (Set k v px) raw pass x))) =
    Returned (Some (case px of
        None \<Rightarrow> BulkString (Some v)
      | Some ms \<Rightarrow> if clk 0 + unat ms * 1000000 \<le> clk' 0 then null_bulk else BulkString (Some v)))"
proof -
  have "pass = None \<or> xs_auth (snd (exec_set P send clk k v px raw x))"
    using assms(2) by (auto simp: exec_set_def Let_def)
  then show ?thesis
    using assms db.read_own_write [OF xs_inv_db [OF assms(1)]]
    by (auto simp: execute_def exec_body_def exec_set_def Let_def case_prod_beta split: option.split)
qed

text \<open>
  C31. \<open>DEL\<close> and \<open>EXISTS\<close>.  \<open>DEL\<close> replies with the number of distinct listed keys that were stored and
  removes exactly the listed keys; \<open>EXISTS\<close> counts a key as often as it is listed, each at its own
  instant, and no later reader sees a difference.
\<close>

theorem del_exists_count:
  assumes "xs_inv P x" "pass = None \<or> xs_auth x" "mono clk"
    "execute P send clk (Del ks) raw pass x = (out, x1)" "execute P send clk (Exists ks) raw pass x = (out2, x2)"
  shows "out = Returned (Some (Integer (int (card (set ks \<inter> dom (db_lookup P (xs_db x)))))))
    \<and> db_lookup P (xs_db x1) = (\<lambda>k. if k \<in> set ks then None else db_lookup P (xs_db x) k)
    \<and> out2 = Returned (Some (Integer (int (\<Sum>j < length ks. of_bool (db_view P (clk (3 * j)) (xs_db x) (ks ! j) \<noteq> None)))))
    \<and> (\<forall>t k. clk (3 * length ks) \<le> t \<longrightarrow> db_view P t (xs_db x2) k = db_view P t (xs_db x) k)"
proof -
  have inv: "db_inv P (xs_db x)" using assms(1) by (rule xs_inv_db)
  obtain n d where n: "count_loop (db_del P) ks (xs_db x) = (n, d)" by (cases "count_loop (db_del P) ks (xs_db x)")
  obtain m d2 where m: "timed_count_loop (db_exists P) clk ks (xs_db x) = (m, d2)"
    by (cases "timed_count_loop (db_exists P) clk ks (xs_db x)")
  have "execute P send clk cmd raw pass x = exec_body P send clk cmd raw x" for cmd
    using assms(2) by (auto simp: execute_def split: option.split)
  then have "out = Returned (Some (Integer (int n)))" "xs_db x1 = d" "out2 = Returned (Some (Integer (int m)))" "xs_db x2 = d2"
    using assms(4,5) n m by (auto simp: exec_body_def exec_del_def Let_def)
  then show ?thesis
    using db.count_del [OF inv n] db_count_exists [OF inv assms(3) m] by (auto simp: db_view_visible fun_eq_iff)
qed

theorem del_exists_count_witness:
  "\<exists>out x1 out2 x2.
     execute sample_platform queue_send (\<lambda>i. 30 + i) (Del [''a'', ''b'', ''a'']) None None (sample_state True) = (out, x1)
     \<and> execute sample_platform queue_send (\<lambda>i. 30 + i) (Exists [''a'', ''b'', ''a'']) None None (sample_state True) = (out2, x2)
     \<and> db_lookup sample_platform (xs_db x1) ''b'' = None"
proof -
  let ?e = "\<lambda>c. execute sample_platform queue_send (\<lambda>i. 30 + i) c None None (sample_state True)"
  obtain out x1 out2 x2 where e: "?e (Del [''a'', ''b'', ''a'']) = (out, x1)" "?e (Exists [''a'', ''b'', ''a'']) = (out2, x2)"
    by (metis surj_pair)
  show ?thesis
    using del_exists_count [OF xs_inv_sample _ sample_mono e] e by simp
qed

lemma execute_propagation:
  assumes "xs_inv P x" "pass = None \<or> xs_auth x" "execute P send clk cmd raw pass x = (out, x')"
  shows "(xs_repl x', xs_chan x') =
    (if \<not> is_replica (xs_repl x) \<and> raw \<noteq> None
        \<and> ((\<exists>k v px. cmd = Set k v px) \<or> (\<exists>ks. cmd = Del ks \<and> set ks \<inter> dom (db_lookup P (xs_db x)) \<noteq> {}))
     then propagate_downstream send (the raw) (xs_repl x, xs_chan x)
     else (xs_repl x, xs_chan x))"
proof -
  have e: "exec_body P send clk cmd raw x = (out, x')"
    using assms(2,3) by (auto simp: execute_def split: option.splits)
  have p: "(xs_repl (propagate_raw send raw y), xs_chan (propagate_raw send raw y)) =
      (if \<not> is_replica (xs_repl y) \<and> raw \<noteq> None then propagate_downstream send (the raw) (xs_repl y, xs_chan y)
       else (xs_repl y, xs_chan y))" for y :: "'a exec_state"
    by (simp add: propagate_raw_def split: option.split prod.split)
  have c: "(xs_repl (snd (exec_cluster P sub x)), xs_chan (snd (exec_cluster P sub x))) = (xs_repl x, xs_chan x)" for sub
    by (cases sub) (simp_all add: exec_cluster_def case_prod_beta split: option.split)
  show ?thesis
  proof (cases cmd)
    case (Del ks)
    obtain n d where n: "count_loop (db_del P) ks (xs_db x) = (n, d)" by (cases "count_loop (db_del P) ks (xs_db x)")
    have "n > 0 \<longleftrightarrow> set ks \<inter> dom (db_lookup P (xs_db x)) \<noteq> {}"
      using db.count_del [OF xs_inv_db [OF assms(1)] n] by (simp add: card_gt_0_iff)
    moreover have "x' = (if n > 0 then propagate_raw send raw (x\<lparr>xs_db := d\<rparr>) else x\<lparr>xs_db := d\<rparr>)"
      using e Del n by (simp add: exec_body_def exec_del_def Let_def)
    ultimately show ?thesis using p [of "x\<lparr>xs_db := d\<rparr>"] Del by auto
  next
    case (Set k v px)
    then obtain d where "x' = propagate_raw send raw (x\<lparr>xs_db := d\<rparr>)"
      using e by (auto simp: exec_body_def exec_set_def Let_def)
    then show ?thesis using p [of "x\<lparr>xs_db := d\<rparr>"] Set by simp
  next
    case (Cluster sub)
    then show ?thesis using e c [of sub] by (simp add: exec_body_def)
  qed (use e in \<open>auto simp: exec_body_def case_prod_beta\<close>)
qed

text \<open>
  C15. Propagation is exact.  For a client the gate lets through, a command is sent to the replicas
  exactly once if it is a \<open>SET\<close>, or a \<open>DEL\<close> that removes something, on a master; in every other
  case the replication state and the channels are untouched.  On a replica nothing is sent.
\<close>

theorem propagation_exact:
  assumes "xs_inv P x" "pass = None \<or> xs_auth x" "execute P send clk cmd raw pass x = (out, x')"
  shows "(xs_repl x', xs_chan x') =
    (if \<not> is_replica (xs_repl x) \<and> raw \<noteq> None
        \<and> ((\<exists>k v px. cmd = Set k v px) \<or> (\<exists>ks. cmd = Del ks \<and> set ks \<inter> dom (db_lookup P (xs_db x)) \<noteq> {}))
     then propagate_downstream send (the raw) (xs_repl x, xs_chan x)
     else (xs_repl x, xs_chan x))"
  using execute_propagation [OF assms] .

theorem propagation_exact_witness:
  "\<exists>out x'. execute sample_platform queue_send (\<lambda>i. 30 + i) (Set ''k'' ''v'' None) (Some ''raw'') None (sample_state True) = (out, x')
     \<and> (xs_repl x', xs_chan x') = propagate_downstream queue_send ''raw'' (xs_repl (sample_state True), xs_chan (sample_state True))"
proof -
  obtain out x' where e: "execute sample_platform queue_send (\<lambda>i. 30 + i) (Set ''k'' ''v'' None) (Some ''raw'') None
      (sample_state True) = (out, x')" by (metis surj_pair)
  show ?thesis using propagation_exact [OF xs_inv_sample _ e] e by simp
qed

text \<open>
  The invariants of the database and of the slot table survive any sequence of requests.
\<close>

lemma shared_state_invariant:
  assumes "xs_inv P x"
  shows "xs_inv P (snd (exec_run P send pass rs x))"
  using assms
proof (induction rs arbitrary: x)
  case (Cons r rs)
  obtain clk cmd raw where r: "r = (clk, cmd, raw)" by (cases r)
  then show ?case using Cons.IH [OF xs_inv_execute [OF Cons.prems]] by (simp add: case_prod_beta)
qed simp

lemma execute_panics_gate:
  "fst (execute P send clk cmd raw pass x) = Panicked \<longleftrightarrow>
     (pass = None \<or> xs_auth x) \<and> (\<exists>sub. cmd = Cluster sub \<and> fst (exec_cluster P sub x) = Panicked)"
proof -
  have g: "fst (execute P send clk cmd raw pass x) = Panicked \<longleftrightarrow>
      (pass = None \<or> xs_auth x) \<and> fst (exec_body P send clk cmd raw x) = Panicked"
    by (cases cmd) (auto simp: execute_def split: option.split)
  show ?thesis
    unfolding g by (cases cmd) (simp_all add: exec_body_def exec_set_def exec_del_def Let_def case_prod_beta)
qed

lemma add_u16_bus_port: "add_u16 P p 10000 = None \<longleftrightarrow> overflow_checks P \<and> 55536 \<le> unat p"
  by (auto simp: add_u16_def)

lemma exec_cluster_panics:
  assumes "xs_off P u x"
  shows "fst (exec_cluster P sub x) = Panicked \<longleftrightarrow>
      xs_topo x \<noteq> None \<and> (\<exists>ip p. sub = Meet ip p \<and> add_u16 P p 10000 = None)"
proof (cases "xs_topo x")
  case (Some t)
  then have "topo_inv P t" using assms by (simp add: xs_off_def)
  then show ?thesis using Some
    by (cases sub) (auto simp: exec_cluster_def case_prod_beta add_slots_loop_no_panic split: option.split)
qed (simp add: exec_cluster_def)

lemma execute_no_cluster: "xs_topo x = None \<Longrightarrow> fst (execute P send clk cmd raw pass x) \<noteq> Panicked"
  by (simp add: execute_panics_gate exec_cluster_def)

text \<open>
  C32. Panics.  In every state that satisfies the invariants of the storage and of the slot table, exact
  memory accounting aside (the counter may be off by any \<open>u\<close>), executing a command panics in one case only: a client past the gate sends \<open>CLUSTER MEET\<close> with a port of 55536 or more to a cluster node
  whose build checks overflow; that panic leaves the state unchanged.  In particular every index
  \<open>CLUSTER ADDSLOTS\<close> writes to is inside the slot table, whatever numbers the client sends, and
  every shard index the storage reads or writes is inside the table of shards.
\<close>

theorem execute_panics_iff:
  assumes "xs_off P u x"
  shows "(fst (execute P send clk cmd raw pass x) = Panicked \<longleftrightarrow>
       (pass = None \<or> xs_auth x) \<and> xs_topo x \<noteq> None \<and> overflow_checks P
       \<and> (\<exists>ip p. cmd = Cluster (Meet ip p) \<and> unat p \<ge> 55536))
    \<and> (fst (execute P send clk cmd raw pass x) = Panicked \<longrightarrow> snd (execute P send clk cmd raw pass x) = x)
    \<and> shard_index P (xs_db x) k < length (shards (xs_db x))"
proof (intro conjI impI)
  show iff: "fst (execute P send clk cmd raw pass x) = Panicked \<longleftrightarrow>
      (pass = None \<or> xs_auth x) \<and> xs_topo x \<noteq> None \<and> overflow_checks P
      \<and> (\<exists>ip p. cmd = Cluster (Meet ip p) \<and> unat p \<ge> 55536)"
    using exec_cluster_panics [OF assms] add_u16_bus_port by (auto simp: execute_panics_gate)
  assume "fst (execute P send clk cmd raw pass x) = Panicked"
  then obtain ip p t where c: "cmd = Cluster (Meet ip p)" "xs_topo x = Some t" "pass = None \<or> xs_auth x"
    "add_u16 P p 10000 = None" unfolding iff add_u16_bus_port by blast
  then show "snd (execute P send clk cmd raw pass x) = x"
    by (auto simp: execute_def exec_body_def exec_cluster_def split: option.split)
next
  show "shard_index P (xs_db x) k < length (shards (xs_db x))"
    using db_inv_shape [OF xs_off_db [OF assms]] shard_index_less [of "settle u (xs_db x)" P k] by simp
qed

theorem execute_panics_iff_witness:
  "fst (execute sample_platform queue_send (\<lambda>i. i) (Cluster (Meet ''10.0.0.2'' 60000)) None None (sample_state True)) = Panicked
   \<and> fst (execute sample_platform queue_send (\<lambda>i. i) (Cluster (AddSlots [3, 20000])) None None (sample_state True)) \<noteq> Panicked"
  using execute_panics_iff [OF xs_inv_sample [of True, unfolded xs_inv_off], of queue_send "\<lambda>i. i" "Cluster (Meet ''10.0.0.2'' 60000)" None None "[]"]
    execute_panics_iff [OF xs_inv_sample [of True, unfolded xs_inv_off], of queue_send "\<lambda>i. i" "Cluster (AddSlots [3, 20000])" None None "[]"]
  by (simp add: sample_platform_def)

end
