(* ===== verification/Command_Wire.thy ===== *)
theory Command_Wire
  imports Command_Facts
begin

text \<open>
  Commands on the wire: a client's encoding of a command as an array of bulk strings, and that
  the server recognises the command it encodes, whatever follows on the connection.
\<close>

definition bulks :: "string list \<Rightarrow> Value list" where
  "bulks ss = map (\<lambda>s. BulkString (Some s)) ss"

fun subcommand_args :: "ClusterSubcommand \<Rightarrow> string list" where
  "subcommand_args (KeySlot k) = [''KEYSLOT'', k]"
| "subcommand_args ClusterInfo = [''INFO'']"
| "subcommand_args Nodes = [''NODES'']"
| "subcommand_args Slots = [''SLOTS'']"
| "subcommand_args (Meet ip p) = [''MEET'', ip, show_u16 p]"
| "subcommand_args (AddSlots ss) = ''ADDSLOTS'' # map show_u16 ss"

fun command_args :: "Command \<Rightarrow> string list" where
  "command_args (Ping m) = ''PING'' # (case m of None \<Rightarrow> [] | Some s \<Rightarrow> [s])"
| "command_args (Echo m) = [''ECHO'', m]"
| "command_args (Get k) = [''GET'', k]"
| "command_args (Set k v px) = [''SET'', k, v] @ (case px of None \<Rightarrow> [] | Some ms \<Rightarrow> [''PX'', show_u64 ms])"
| "command_args (Del ks) = ''DEL'' # ks"
| "command_args (Exists ks) = ''EXISTS'' # ks"
| "command_args (Keys p) = [''KEYS'', p]"
| "command_args (Info s) = ''INFO'' # (case s of None \<Rightarrow> [] | Some s \<Rightarrow> [s])"
| "command_args (ReplConf args) = ''REPLCONF'' # args"
| "command_args (Psync i off) = [''PSYNC'', i, off]"
| "command_args (Auth u p) = ''AUTH'' # (case u of None \<Rightarrow> [p] | Some n \<Rightarrow> [n, p])"
| "command_args (Cluster sub) = ''CLUSTER'' # subcommand_args sub"
| "command_args Quit = [''QUIT'']"
| "command_args CommandDocs = [''COMMAND'']"

definition command_value :: "Command \<Rightarrow> Value" where
  "command_value c = Array (Some (bulks (command_args c)))"

text \<open>Strings are UTF-8, the value of a \<open>SET\<close> is any bytes, and a key or slot list is not empty.\<close>

fun wf_command :: "Command \<Rightarrow> bool" where
  "wf_command (Set k v px) = is_utf8 k"
| "wf_command (Del ks) = (ks \<noteq> [] \<and> list_all is_utf8 ks)"
| "wf_command (Exists ks) = (ks \<noteq> [] \<and> list_all is_utf8 ks)"
| "wf_command (Cluster (KeySlot k)) = is_utf8 k"
| "wf_command (Cluster (Meet ip p)) = is_utf8 ip"
| "wf_command (Cluster (AddSlots ss)) = (ss \<noteq> [])"
| "wf_command c = list_all is_utf8 (command_args c)"

lemma bulks_simps [simp]:
  "bulks [] = []" "bulks (s # ss) = BulkString (Some s) # bulks ss" "length (bulks ss) = length ss"
  "bulks ss = [] \<longleftrightarrow> ss = []"
  by (simp_all add: bulks_def)

lemma as_str_bulk [simp]: "is_utf8 s \<Longrightarrow> as_str (BulkString (Some s)) = Some s"
  by simp

lemma is_utf8_show_word [simp]: "is_utf8 (show_u16 w)" "is_utf8 (show_u64 v)"
  by (simp_all add: show_u16_def show_u64_def)

lemma map_filter_bulks [simp]: "list_all is_utf8 ss \<Longrightarrow> List.map_filter as_str (bulks ss) = ss"
  by (induction ss) (simp_all add: map_filter_simps)

lemma slot_args_show [simp]: "slot_args (bulks (map show_u16 ss)) = Inr ss"
  by (induction ss) (simp_all del: as_str.simps)

lemma parse_u64_show [simp]: "parse_u64 (show_u64 w) = Inr (uint w)"
proof -
  have "unat w < 2 ^ 64" using unsigned_less [of w, where 'a = nat] by simp
  then have "int (unat w) < int (2 ^ 64)" by (simp only: of_nat_less_iff)
  then have "int (unat w) \<le> 2 ^ 64 - 1" by simp
  then show ?thesis using parse_int_show_nat [of "unat w" "2 ^ 64 - 1" False 0]
    by (simp add: parse_u64_def show_u64_def)
qed

lemma is_utf8_upper [simp]:
  "is_utf8 ''PX''" "is_utf8 ''PING''" "is_utf8 ''ECHO''" "is_utf8 ''GET''" "is_utf8 ''SET''" "is_utf8 ''DEL''"
  "is_utf8 ''EXISTS''" "is_utf8 ''KEYS''" "is_utf8 ''INFO''" "is_utf8 ''REPLCONF''" "is_utf8 ''PSYNC''"
  "is_utf8 ''AUTH''" "is_utf8 ''CLUSTER''" "is_utf8 ''QUIT''" "is_utf8 ''COMMAND''" "is_utf8 ''KEYSLOT''"
  "is_utf8 ''NODES''" "is_utf8 ''SLOTS''" "is_utf8 ''MEET''" "is_utf8 ''ADDSLOTS''"
  by (simp_all add: is_utf8_ascii byte_def)

lemma upper_names [simp]:
  "to_ascii_uppercase ''PX'' = ''PX''" "to_ascii_uppercase ''PING'' = ''PING''" "to_ascii_uppercase ''ECHO'' = ''ECHO''"
  "to_ascii_uppercase ''GET'' = ''GET''" "to_ascii_uppercase ''SET'' = ''SET''" "to_ascii_uppercase ''DEL'' = ''DEL''"
  "to_ascii_uppercase ''EXISTS'' = ''EXISTS''" "to_ascii_uppercase ''KEYS'' = ''KEYS''"
  "to_ascii_uppercase ''INFO'' = ''INFO''" "to_ascii_uppercase ''REPLCONF'' = ''REPLCONF''"
  "to_ascii_uppercase ''PSYNC'' = ''PSYNC''" "to_ascii_uppercase ''AUTH'' = ''AUTH''"
  "to_ascii_uppercase ''CLUSTER'' = ''CLUSTER''" "to_ascii_uppercase ''QUIT'' = ''QUIT''"
  "to_ascii_uppercase ''COMMAND'' = ''COMMAND''" "to_ascii_uppercase ''KEYSLOT'' = ''KEYSLOT''"
  "to_ascii_uppercase ''NODES'' = ''NODES''" "to_ascii_uppercase ''SLOTS'' = ''SLOTS''"
  "to_ascii_uppercase ''MEET'' = ''MEET''" "to_ascii_uppercase ''ADDSLOTS'' = ''ADDSLOTS''"
  by (simp_all add: to_ascii_uppercase_def ascii_upper_def byte_def)

lemma from_value_cluster:
  "wf_command (Cluster sub) \<Longrightarrow> from_value (command_value (Cluster sub)) = Inr (Cluster sub)"
  by (cases sub) (simp_all add: command_value_def from_value_def dispatch_def parse_cluster_def Let_def str_or_def
      del: as_str.simps)

lemma from_value_command: "wf_command c \<Longrightarrow> from_value (command_value c) = Inr c"
proof (cases c)
  case (Set k v px)
  assume "wf_command c"
  then show ?thesis using Set
    by (cases px) (simp_all add: command_value_def from_value_def dispatch_def parse_set_def str_or_def Let_def
        numeral_3_eq_3 numeral_2_eq_2 del: as_str.simps)
next
  case (Cluster sub)
  then show "wf_command c \<Longrightarrow> ?thesis" using from_value_cluster by simp
qed (auto simp: command_value_def from_value_def dispatch_def arg_str_def str_or_def parse_auth_def
    numeral_2_eq_2 simp del: as_str.simps split: option.splits)

lemma reparse_bulks: "map reparse (bulks ss) = bulks ss"
  by (induction ss) simp_all

text \<open>
  C14. Commands on the wire.  If the server receives the serialization of a command encoded as an array
  of bulk strings, then parsing it consumes exactly those bytes, whatever follows, and the value is
  recognised as that command, for every command of the protocol.
\<close>

theorem command_wire_roundtrip:
  assumes "wf_command c" "encodable P (command_value c)"
  shows "\<exists>v. parse P (serialize (command_value c) [] @ rest) = (Done (Some v), rest) \<and> from_value v = Inr c"
proof -
  have "reparse (command_value c) = command_value c" by (simp add: command_value_def reparse_bulks)
  then show ?thesis
    using parse_encode [OF assms(2), of rest] from_value_command [OF assms(1)] by (simp add: serialize_encode)
qed

theorem command_wire_roundtrip_witness:
  "\<exists>v. parse sample_platform (serialize (command_value (Set ''k'' ''v'' (Some 10))) [] @ ''*1'') = (Done (Some v), ''*1'')
     \<and> from_value v = Inr (Set ''k'' ''v'' (Some 10))"
proof -
  have "length (show_u64 10) \<le> 2" by (simp add: show_u64_def show_nat.simps)
  then have "encodable sample_platform (command_value (Set ''k'' ''v'' (Some 10)))"
    by (simp add: command_value_def sample_platform_def)
  moreover have "wf_command (Set ''k'' ''v'' (Some 10))" by (simp add: is_utf8_ascii byte_def)
  ultimately show ?thesis using command_wire_roundtrip by blast
qed

end
