(* ===== verification/Framing.thy ===== *)
theory Framing
  imports Resp
begin

text \<open>
  The framing contract between the parser and the two loops that consume frames from a
  growing buffer (a client connection and the replica's stream): a decoder only ever removes
  a prefix, removes something when it returns a value, and does not change its verdict when
  more bytes arrive.  Interpreted on \<open>Value::parse\<close>.
\<close>

locale frame_codec =
  fixes dec :: "bytes \<Rightarrow> parse_result \<times> bytes"
  assumes dec_consumes: "consumes dec"
    and dec_stable: "stable dec"
begin

lemma dec_shorter: "dec b = (Done (Some v), rest) \<Longrightarrow> length rest < length b"
  using consumesD [OF dec_consumes, of b "Done (Some v)" rest] by force

text \<open>The raw bytes of the frame, as both loops compute them.\<close>

lemma dec_raw:
  assumes "dec b = (r, rest)"
  shows "take (length b - length rest) b @ rest = b"
proof -
  obtain p where "b = p @ rest" using consumesD [OF dec_consumes assms] by metis
  then show ?thesis by simp
qed

lemma dec_extend:
  assumes "dec b = (r, rest)" "r \<noteq> Done None"
  shows "dec (b @ x) = (r, rest @ x)"
  using stableD [OF dec_stable assms] .

lemma raw_extend:
  assumes "dec b = (r, rest)"
  shows "take (length (b @ x) - length (rest @ x)) (b @ x) = take (length b - length rest) b"
proof -
  obtain p where "b = p @ rest" using consumesD [OF dec_consumes assms] by metis
  then show ?thesis by simp
qed

end

interpretation resp: frame_codec "parse P" for P
  by unfold_locales (rule consumes_parse, rule stable_parse)

end
