(* ===== verification/Connection.thy ===== *)
theory Connection
  imports Command_Wire Framing
begin

text \<open>
  \<open>src/connection.rs\<close>: one client connection.  \<open>Connection::handle\<close> is a loop around
  \<open>tokio::select!\<close>; an iteration is the function \<open>conn_step\<close> of the event that was
  selected (shutdown, a message from the replication channel, or the result of a read),
  followed by the inner loop over the complete frames in the buffer, \<open>drain\<close>.

  The socket is not part of the program.  What the completed writes have written is
  \<open>cn_out\<close>; whether the next write (with its flush) succeeds is the parameter \<open>sink\<close>, a
  function of what was written before and of the data.  A write that fails may have sent a
  prefix of its data, which \<open>cn_out\<close> does not record; nothing is written after it, since the
  error ends the connection.  The read side is the event.  The reads of the clock for the
  \<open>j\<close>-th frame of the connection are \<open>clks j\<close>.  \<open>max_payload\<close> is \<open>max_payload_size\<close>.
  Logging and \<open>TCP_NODELAY\<close> have no effect on the state and are left out.
\<close>

record 'c conn =
  cn_buffer :: bytes
  cn_replica :: bool
  cn_out :: bytes
  cn_frames :: nat
  cn_xs :: "'c exec_state"

text \<open>
  How the inner loop ends: out of complete frames, after a protocol error (the buffer is cleared
  and the connection goes on), \<open>QUIT\<close>, a failed write, or a panic of the task.
\<close>

datatype drained = NeedMore | ProtocolError | CloseAfterReply | WriteFailed | TaskPanic

datatype frame_flow = NextFrame | Break drained

type_synonym sink = "bytes \<Rightarrow> bytes \<Rightarrow> bool"

definition conn_new :: "string option \<Rightarrow> 'c exec_state \<Rightarrow> 'c conn" where
  "conn_new requirepass x =
     \<lparr>cn_buffer = [], cn_replica = False, cn_out = [], cn_frames = 0,
      cn_xs = x\<lparr>xs_auth := (requirepass = None)\<rparr>\<rparr>"

text \<open>\<open>write_all(..).await?\<close> with its flush, followed by \<open>k\<close>.\<close>

definition write_then :: "sink \<Rightarrow> bytes \<Rightarrow> ('c conn \<Rightarrow> frame_flow \<times> 'c conn) \<Rightarrow> 'c conn \<Rightarrow> frame_flow \<times> 'c conn" where
  "write_then sink data k c =
     (if sink (cn_out c) data then k (c\<lparr>cn_out := cn_out c @ data\<rparr>) else (Break WriteFailed, c))"

definition next_frame :: "'c conn \<Rightarrow> frame_flow \<times> 'c conn" where
  "next_frame c = (NextFrame, c)"

definition handle_psync :: "sink \<Rightarrow> conn_id \<Rightarrow> 'c conn \<Rightarrow> frame_flow \<times> 'c conn" where
  "handle_psync sink tx c =
     write_then sink (''+FULLRESYNC '' @ get_replid (xs_repl (cn_xs c)) @ '' 0'' @ crlf)
       (write_then sink (''$'' @ show_nat (length get_empty_rdb_bytes) @ crlf)
         (write_then sink get_empty_rdb_bytes
           (\<lambda>c. next_frame (c\<lparr>cn_replica := True,
              cn_xs := (cn_xs c)\<lparr>xs_repl := register_downstream tx (xs_repl (cn_xs c))\<rparr>\<rparr>)))) c"

definition redirect :: "cluster_topology option \<Rightarrow> Command \<Rightarrow> bool \<Rightarrow> bytes option" where
  "redirect topo cmd is_authenticated =
     (case topo of
        None \<Rightarrow> None
      | Some t \<Rightarrow>
          (case target_key cmd of
             None \<Rightarrow> None
           | Some key \<Rightarrow>
               if is_authenticated then
                 (let slot = key_slot key
                  in if \<not> owns_slot t slot then
                       Some (case get_node_for_slot t slot of
                               Some owner \<Rightarrow> ''-MOVED '' @ show_u16 slot @ '' '' @ endpoint owner @ crlf
                             | None \<Rightarrow> ''-CLUSTERDOWN The cluster is down'' @ crlf)
                     else None)
               else None))"

definition handle_command :: "platform \<Rightarrow> 'c sender \<Rightarrow> sink \<Rightarrow> string option \<Rightarrow> clock \<Rightarrow> Command \<Rightarrow> bytes
    \<Rightarrow> 'c conn \<Rightarrow> frame_flow \<times> 'c conn" where
  "handle_command P send sink requirepass clk cmd raw c =
     (case redirect (xs_topo (cn_xs c)) cmd (xs_auth (cn_xs c)) of
        Some resp \<Rightarrow> write_then sink resp next_frame c
      | None \<Rightarrow>
          (case execute P send clk cmd (Some raw) requirepass (cn_xs c) of
             (Returned (Some reply), x) \<Rightarrow> write_then sink (serialize reply []) next_frame (c\<lparr>cn_xs := x\<rparr>)
           | (Returned None, x) \<Rightarrow> next_frame (c\<lparr>cn_xs := x\<rparr>)
           | (Panicked, x) \<Rightarrow> (Break TaskPanic, c\<lparr>cn_xs := x\<rparr>)))"

text \<open>One complete frame: \<open>match Command::from_value(&val)\<close>.\<close>

definition handle_value :: "platform \<Rightarrow> 'c sender \<Rightarrow> sink \<Rightarrow> conn_id \<Rightarrow> string option \<Rightarrow> clock \<Rightarrow> Value \<Rightarrow> bytes
    \<Rightarrow> 'c conn \<Rightarrow> frame_flow \<times> 'c conn" where
  "handle_value P send sink tx requirepass clk v raw c =
     (case from_value v of
        Inr cmd \<Rightarrow>
          (case cmd of
             Psync _ _ \<Rightarrow> handle_psync sink tx c
           | Quit \<Rightarrow> write_then sink (serialize value_ok []) (\<lambda>c. (Break CloseAfterReply, c)) c
           | _ \<Rightarrow> handle_command P send sink requirepass clk cmd raw c)
      | Inl e \<Rightarrow> write_then sink (serialize (value_error e) []) next_frame c)"

text \<open>
  The inner loop; \<open>buf\<close> is \<open>self.buffer\<close>, kept in \<open>cn_buffer\<close> as well.  The parser never
  has the outcome \<open>TooDeep\<close> (\<open>parse_not_deep\<close>).
\<close>

function drain :: "platform \<Rightarrow> 'c sender \<Rightarrow> sink \<Rightarrow> conn_id \<Rightarrow> string option \<Rightarrow> (nat \<Rightarrow> clock) \<Rightarrow> bytes
    \<Rightarrow> 'c conn \<Rightarrow> drained \<times> 'c conn" where
  "drain P send sink tx requirepass clks buf c =
     (if buf = [] then (NeedMore, c\<lparr>cn_buffer := []\<rparr>)
      else (case parse P buf of
          (Done (Some v), rest) \<Rightarrow>
            (let raw = take (length buf - length rest) buf
             in case handle_value P send sink tx requirepass (clks (cn_frames c)) v raw
                       (c\<lparr>cn_buffer := rest, cn_frames := Suc (cn_frames c)\<rparr>) of
                  (NextFrame, c') \<Rightarrow> drain P send sink tx requirepass clks rest c'
                | (Break how, c') \<Rightarrow> (how, c'))
        | (Done None, _) \<Rightarrow> (NeedMore, c\<lparr>cn_buffer := buf\<rparr>)
        | (Fail e, _) \<Rightarrow>
            (let msg = serialize (value_error (''ERR protocol error: '' @ show_parse_error e)) []
             in if sink (cn_out c) msg
                then (ProtocolError, c\<lparr>cn_out := cn_out c @ msg, cn_buffer := []\<rparr>)
                else (WriteFailed, c\<lparr>cn_buffer := buf\<rparr>))
        | (Panic, _) \<Rightarrow> (TaskPanic, c\<lparr>cn_buffer := buf\<rparr>)
        | (TooDeep, _) \<Rightarrow> (TaskPanic, c\<lparr>cn_buffer := buf\<rparr>)))"
  by pat_completeness auto
termination
  by (relation "measure (\<lambda>(P, send, sink, tx, pass, clks, buf, c). length buf)")
     (auto dest: sym resp.dec_shorter)

declare drain.simps [simp del]

section \<open>The outer loop\<close>

datatype conn_event = Shutdown | Replicated bytes | ReadError | ReadData bytes

datatype conn_flow = Continue | Closed | Failed | Crashed

text \<open>The inner loop of one iteration and how it ends the outer one.\<close>

definition conn_drain :: "platform \<Rightarrow> 'c sender \<Rightarrow> sink \<Rightarrow> conn_id \<Rightarrow> string option \<Rightarrow> (nat \<Rightarrow> clock)
    \<Rightarrow> 'c conn \<Rightarrow> conn_flow \<times> 'c conn" where
  "conn_drain P send sink tx requirepass clks c =
     (case drain P send sink tx requirepass clks (cn_buffer c) c of
        (NeedMore, c') \<Rightarrow> (Continue, c')
      | (ProtocolError, c') \<Rightarrow> (Continue, c')
      | (CloseAfterReply, c') \<Rightarrow> (Closed, c')
      | (WriteFailed, c') \<Rightarrow> (Failed, c')
      | (TaskPanic, c') \<Rightarrow> (Crashed, c'))"

text \<open>
  One iteration.  A read of no bytes is the end of the stream.  \<open>downstream_rx.recv()\<close> is only
  polled once the connection is a replica's.
\<close>

definition conn_step :: "platform \<Rightarrow> 'c sender \<Rightarrow> sink \<Rightarrow> conn_id \<Rightarrow> string option \<Rightarrow> nat \<Rightarrow> (nat \<Rightarrow> clock)
    \<Rightarrow> conn_event \<Rightarrow> 'c conn \<Rightarrow> conn_flow \<times> 'c conn" where
  "conn_step P send sink tx requirepass max_payload clks ev c =
     (case ev of
        Shutdown \<Rightarrow> (Closed, c)
      | Replicated data \<Rightarrow>
          if \<not> cn_replica c then (Continue, c)
          else if sink (cn_out c) data
          then conn_drain P send sink tx requirepass clks (c\<lparr>cn_out := cn_out c @ data\<rparr>)
          else (Failed, c)
      | ReadError \<Rightarrow> (Failed, c)
      | ReadData data \<Rightarrow>
          if data = [] then (Closed, c)
          else
            (let c1 = c\<lparr>cn_buffer := cn_buffer c @ data\<rparr>
             in if length (cn_buffer c1) > max_payload then
                  (let out = serialize (value_error ''ERR max payload size exceeded'') []
                   in (Closed, if sink (cn_out c1) out then c1\<lparr>cn_out := cn_out c1 @ out\<rparr> else c1))
                else conn_drain P send sink tx requirepass clks c1))"

text \<open>The loop over the events of a connection's life, until it ends.\<close>

fun conn_run :: "platform \<Rightarrow> 'c sender \<Rightarrow> sink \<Rightarrow> conn_id \<Rightarrow> string option \<Rightarrow> nat \<Rightarrow> (nat \<Rightarrow> clock)
    \<Rightarrow> conn_event list \<Rightarrow> 'c conn \<Rightarrow> conn_flow \<times> 'c conn" where
  "conn_run P send sink tx requirepass max_payload clks [] c = (Continue, c)"
| "conn_run P send sink tx requirepass max_payload clks (ev # evs) c =
     (case conn_step P send sink tx requirepass max_payload clks ev c of
        (Continue, c') \<Rightarrow> conn_run P send sink tx requirepass max_payload clks evs c'
      | (how, c') \<Rightarrow> (how, c'))"

end
