(* ===== verification/Connection_Facts.thy ===== *)
theory Connection_Facts
  imports Connection
begin

text \<open>
  What a connection guarantees: TCP fragmentation does not matter, the buffer stays within the
  configured limit, pipelined commands are executed in order with one reply each, slots of
  other nodes are redirected, and authentication protects the data.
\<close>

section \<open>One frame\<close>

lemma write_then_cases:
  "write_then sink data k c = (if sink (cn_out c) data then k (c\<lparr>cn_out := cn_out c @ data\<rparr>) else (Break WriteFailed, c))"
  by (simp add: write_then_def)

lemmas frame_defs = handle_psync_def handle_command_def write_then_def next_frame_def

lemma handle_command_frame:
  "handle_command P send sink pass clk cmd raw c = (fl, c') \<Longrightarrow>
     cn_buffer c' = cn_buffer c \<and> cn_frames c' = cn_frames c \<and> cn_replica c' = cn_replica c"
  by (auto simp: frame_defs split: option.splits prod.splits outcome.splits if_splits)

lemma handle_psync_frame:
  "handle_psync sink tx c = (fl, c') \<Longrightarrow> cn_buffer c' = cn_buffer c \<and> cn_frames c' = cn_frames c"
  by (auto simp: frame_defs split: if_splits)

text \<open>The five kinds of frames.\<close>

lemma handle_value_cases:
  obtains (bad) e where "from_value v = Inl e"
      "handle_value P send sink tx pass clk v raw c = write_then sink (serialize (value_error e) []) next_frame c"
  | (psync) i off where "from_value v = Inr (Psync i off)"
      "handle_value P send sink tx pass clk v raw c = handle_psync sink tx c"
  | (quit) "from_value v = Inr Quit"
      "handle_value P send sink tx pass clk v raw c =
         write_then sink (serialize value_ok []) (\<lambda>c. (Break CloseAfterReply, c)) c"
  | (cmd) cmd where "from_value v = Inr cmd" "cmd \<noteq> Quit" "\<And>i off. cmd \<noteq> Psync i off"
      "handle_value P send sink tx pass clk v raw c = handle_command P send sink pass clk cmd raw c"
proof (cases "from_value v")
  case (Inl e)
  then show ?thesis using that(1) by (simp add: handle_value_def)
next
  case (Inr cmd)
  then show ?thesis using that(2-4) by (cases cmd) (auto simp: handle_value_def)
qed

lemma handle_value_frame:
  assumes "handle_value P send sink tx pass clk v raw c = (fl, c')"
  shows "cn_buffer c' = cn_buffer c \<and> cn_frames c' = cn_frames c"
proof (cases rule: handle_value_cases [where v = v and P = P and send = send and sink = sink and tx = tx
      and pass = pass and clk = clk and raw = raw and c = c])
  case (cmd cmd)
  then show ?thesis using assms handle_command_frame by metis
next
  case (psync i off)
  then show ?thesis using assms handle_psync_frame by metis
qed (use assms in \<open>auto simp: write_then_def next_frame_def split: if_splits\<close>)

text \<open>A frame is handled without looking at the rest of the buffer.\<close>

lemma handle_value_buffer:
  "handle_value P send sink tx pass clk v raw (c\<lparr>cn_buffer := z\<rparr>) =
     map_prod id (\<lambda>c. c\<lparr>cn_buffer := z\<rparr>) (handle_value P send sink tx pass clk v raw c)"
proof -
  have "handle_command P send sink pass clk cmd raw (c\<lparr>cn_buffer := z\<rparr>) =
      map_prod id (\<lambda>c. c\<lparr>cn_buffer := z\<rparr>) (handle_command P send sink pass clk cmd raw c)" for cmd
    by (simp add: frame_defs split: option.split prod.split outcome.split)
  moreover have "handle_psync sink tx (c\<lparr>cn_buffer := z\<rparr>) =
      map_prod id (\<lambda>c. c\<lparr>cn_buffer := z\<rparr>) (handle_psync sink tx c)"
    by (simp add: frame_defs)
  ultimately show ?thesis
    by (cases "from_value v", (simp add: handle_value_def frame_defs))
       (auto simp: handle_value_def write_then_def split: Command.split)
qed

section \<open>The inner loop\<close>

lemma drain_buffer_irrelevant:
  "drain P send sink tx pass clks buf (c\<lparr>cn_buffer := z\<rparr>) = drain P send sink tx pass clks buf c"
  by (simp add: drain.simps [of _ _ _ _ _ _ buf] Let_def split: prod.split parse_result.split option.split)

text \<open>One iteration, by the verdict of the parser.\<close>

lemma drain_cases:
  "drain P send sink tx pass clks [] c = (NeedMore, c\<lparr>cn_buffer := []\<rparr>)"
  "buf \<noteq> [] \<Longrightarrow> parse P buf = (Done None, r) \<Longrightarrow>
     drain P send sink tx pass clks buf c = (NeedMore, c\<lparr>cn_buffer := buf\<rparr>)"
  "buf \<noteq> [] \<Longrightarrow> parse P buf = (Panic, r) \<Longrightarrow>
     drain P send sink tx pass clks buf c = (TaskPanic, c\<lparr>cn_buffer := buf\<rparr>)"
  "buf \<noteq> [] \<Longrightarrow> parse P buf = (Done (Some v), rest) \<Longrightarrow>
     drain P send sink tx pass clks buf c =
       (case handle_value P send sink tx pass (clks (cn_frames c)) v (take (length buf - length rest) buf)
              (c\<lparr>cn_buffer := rest, cn_frames := Suc (cn_frames c)\<rparr>) of
          (NextFrame, c') \<Rightarrow> drain P send sink tx pass clks rest c'
        | (Break how, c') \<Rightarrow> (how, c'))"
  by (simp_all add: drain.simps [of _ _ _ _ _ _ buf] drain.simps [of _ _ _ _ _ _ "[]"] Let_def)

text \<open>
  Induction over the iterations: \<open>Q buf c how c'\<close> for the result of draining \<open>buf\<close> from \<open>c\<close>.
\<close>

lemma drain_induct [consumes 1, case_names empty partial bad panic break step]:
  assumes "drain P send sink tx pass clks buf c = (how, c')"
    and empty: "\<And>c. Q [] c NeedMore (c\<lparr>cn_buffer := []\<rparr>)"
    and partial: "\<And>buf c r. buf \<noteq> [] \<Longrightarrow> parse P buf = (Done None, r) \<Longrightarrow> Q buf c NeedMore (c\<lparr>cn_buffer := buf\<rparr>)"
    and bad: "\<And>buf c e r how c'. buf \<noteq> [] \<Longrightarrow> parse P buf = (Fail e, r) \<Longrightarrow>
      drain P send sink tx pass clks buf c = (how, c') \<Longrightarrow> Q buf c how c'"
    and panic: "\<And>buf c r. buf \<noteq> [] \<Longrightarrow> parse P buf = (Panic, r) \<Longrightarrow> Q buf c TaskPanic (c\<lparr>cn_buffer := buf\<rparr>)"
    and break: "\<And>buf c v rest how c'. buf \<noteq> [] \<Longrightarrow> parse P buf = (Done (Some v), rest) \<Longrightarrow>
      handle_value P send sink tx pass (clks (cn_frames c)) v (take (length buf - length rest) buf)
        (c\<lparr>cn_buffer := rest, cn_frames := Suc (cn_frames c)\<rparr>) = (Break how, c') \<Longrightarrow> Q buf c how c'"
    and step: "\<And>buf c v rest c1 how c'. buf \<noteq> [] \<Longrightarrow> parse P buf = (Done (Some v), rest) \<Longrightarrow>
      handle_value P send sink tx pass (clks (cn_frames c)) v (take (length buf - length rest) buf)
        (c\<lparr>cn_buffer := rest, cn_frames := Suc (cn_frames c)\<rparr>) = (NextFrame, c1) \<Longrightarrow>
      drain P send sink tx pass clks rest c1 = (how, c') \<Longrightarrow> Q rest c1 how c' \<Longrightarrow> Q buf c how c'"
  shows "Q buf c how c'"
  using assms(1)
proof (induction "length buf" arbitrary: buf c rule: less_induct)
  case less
  show ?case
  proof (cases "buf = []")
    case True
    then show ?thesis using less.prems empty [of c] by (auto simp: drain_cases(1))
  next
    case ne: False
    obtain pr rest where p: "parse P buf = (pr, rest)" by (cases "parse P buf")
    show ?thesis
    proof (cases pr)
      case (Done vo)
      show ?thesis
      proof (cases vo)
        case None
        then show ?thesis using less.prems partial [OF ne, of rest c] p Done by (auto simp: drain_cases(2) [OF ne])
      next
        case (Some v)
        let ?h = "handle_value P send sink tx pass (clks (cn_frames c)) v (take (length buf - length rest) buf)
            (c\<lparr>cn_buffer := rest, cn_frames := Suc (cn_frames c)\<rparr>)"
        have p': "parse P buf = (Done (Some v), rest)" using p Done Some by simp
        obtain fl c1 where h: "?h = (fl, c1)" by (cases ?h)
        show ?thesis
        proof (cases fl)
          case NextFrame
          then have d: "drain P send sink tx pass clks rest c1 = (how, c')"
            using less.prems h by (simp add: drain_cases(4) [OF ne p'])
          show ?thesis
            using step [OF ne p' _ d less.hyps [OF resp.dec_shorter [OF p'] d]] h NextFrame by simp
        next
          case (Break how')
          then show ?thesis using less.prems h break [OF ne p'] by (simp add: drain_cases(4) [OF ne p'])
        qed
      qed
    next
      case (Fail e)
      then show ?thesis using bad [OF ne _ less.prems] p by simp
    next
      case Panic
      then show ?thesis using less.prems panic [OF ne, of rest c] p by (auto simp: drain_cases(3) [OF ne])
    next
      case TooDeep
      then show ?thesis using p by simp
    qed
  qed
qed

subsection \<open>Fragmentation\<close>

lemma drain_extend:
  assumes "drain P send sink tx pass clks buf c = (how, c')" "how = NeedMore"
  shows "drain P send sink tx pass clks (buf @ x) c = drain P send sink tx pass clks (cn_buffer c' @ x) c'"
  using assms
proof (induction rule: drain_induct)
  case (empty c)
  then show ?case by (simp add: drain_buffer_irrelevant)
next
  case (partial buf c r)
  then show ?case by (simp add: drain_buffer_irrelevant)
next
  case (bad buf c e r how c')
  then show ?case by (simp add: drain.simps [of _ _ _ _ _ _ buf] Let_def split: if_splits)
next
  case (break buf c v rest how c')
  then show ?case
    by (cases rule: handle_value_cases [where v = v and P = P and send = send and sink = sink and tx = tx
        and pass = pass and clk = "clks (cn_frames c)" and raw = "take (length buf - length rest) buf"
        and c = "c\<lparr>cn_buffer := rest, cn_frames := Suc (cn_frames c)\<rparr>"])
       (auto simp: frame_defs split: if_splits option.splits prod.splits outcome.splits)
next
  case (step buf c v rest c1 how c')
  have p: "parse P (buf @ x) = (Done (Some v), rest @ x)" using resp.dec_extend [OF step(2)] by simp
  have raw: "take (length (buf @ x) - length (rest @ x)) (buf @ x) = take (length buf - length rest) buf"
    by (rule resp.raw_extend [OF step(2)])
  let ?h = "handle_value P send sink tx pass (clks (cn_frames c)) v (take (length buf - length rest) buf)"
  have upd: "c\<lparr>cn_buffer := rest @ x, cn_frames := Suc (cn_frames c)\<rparr> =
      c\<lparr>cn_buffer := rest, cn_frames := Suc (cn_frames c)\<rparr>\<lparr>cn_buffer := rest @ x\<rparr>" by simp
  have "?h (c\<lparr>cn_buffer := rest @ x, cn_frames := Suc (cn_frames c)\<rparr>) = (NextFrame, c1\<lparr>cn_buffer := rest @ x\<rparr>)"
    unfolding upd handle_value_buffer step(3) by simp
  then have "drain P send sink tx pass clks (buf @ x) c
      = drain P send sink tx pass clks (rest @ x) (c1\<lparr>cn_buffer := rest @ x\<rparr>)"
    using drain_cases(4) [OF _ p, of send sink tx pass clks c] step(1) raw by simp
  then show ?case using step(5) step.prems by (simp add: drain_buffer_irrelevant)
qed simp_all

subsection \<open>What is left in the buffer\<close>

lemma drain_buffer:
  assumes "drain P send sink tx pass clks buf c = (how, c')"
  shows "length (cn_buffer c') \<le> length buf
    \<and> (how = NeedMore \<longrightarrow> cn_buffer c' = [] \<or> fst (parse P (cn_buffer c')) = Done None)"
  using assms
proof (induction rule: drain_induct)
  case (bad buf c e r how c')
  then show ?case by (auto simp: drain.simps [of _ _ _ _ _ _ buf] Let_def split: if_splits)
next
  case (break buf c v rest how c')
  have "how \<noteq> NeedMore"
    using break by (cases rule: handle_value_cases [where v = v and P = P and send = send and sink = sink and tx = tx
        and pass = pass and clk = "clks (cn_frames c)" and raw = "take (length buf - length rest) buf"
        and c = "c\<lparr>cn_buffer := rest, cn_frames := Suc (cn_frames c)\<rparr>"])
       (auto simp: frame_defs split: if_splits option.splits prod.splits outcome.splits)
  then show ?case using handle_value_frame [OF break(3)] resp.dec_shorter [OF break(2)] by simp
next
  case (step buf c v rest c1 how c')
  then show ?case using resp.dec_shorter [OF step(2)] by simp
qed simp_all

lemma conn_drain_buffer:
  "conn_drain P send sink tx pass clks c = (fl, c') \<Longrightarrow> length (cn_buffer c') \<le> length (cn_buffer c)"
  using drain_buffer by (fastforce simp: conn_drain_def split: prod.splits drained.splits)

lemma conn_step_buffer:
  assumes "conn_step P send sink tx pass mx clks ev c = (Continue, c')" "length (cn_buffer c) \<le> mx"
  shows "length (cn_buffer c') \<le> mx"
proof (cases ev)
  case (ReadData data)
  then show ?thesis using assms conn_drain_buffer
    by (fastforce simp: conn_step_def Let_def split: if_splits)
next
  case (Replicated data)
  then show ?thesis using assms conn_drain_buffer
    by (fastforce simp: conn_step_def split: if_splits)
qed (use assms in \<open>simp_all add: conn_step_def\<close>)

section \<open>Pipelines\<close>

text \<open>The bytes of a command, and of the reply to it.\<close>

definition wire :: "Command \<Rightarrow> bytes" where
  "wire c = serialize (command_value c) []"

definition reply_bytes :: "outcome \<Rightarrow> bytes" where
  "reply_bytes out = (case out of Returned (Some v) \<Rightarrow> serialize v [] | _ \<Rightarrow> [])"

definition plain :: "platform \<Rightarrow> Command \<Rightarrow> bool" where
  "plain P c \<longleftrightarrow> wf_command c \<and> encodable P (command_value c) \<and> c \<noteq> Quit \<and> (\<forall>i off. c \<noteq> Psync i off)"

fun requests :: "(nat \<Rightarrow> clock) \<Rightarrow> nat \<Rightarrow> Command list \<Rightarrow> request list" where
  "requests clks j [] = []"
| "requests clks j (c # cs) = (clks j, c, Some (wire c)) # requests clks (Suc j) cs"

lemma wire_not_Nil [simp]: "wire c \<noteq> []"
  by (simp add: wire_def serialize_encode command_value_def)

lemma parse_wire:
  assumes "plain P c"
  shows "parse P (wire c @ rest) = (Done (Some (command_value c)), rest)"
  using assms parse_encode [of P "command_value c" rest] reparse_bulks
  by (simp add: plain_def wire_def serialize_encode command_value_def)

lemma execute_no_topo: "xs_topo x = None \<Longrightarrow> xs_topo (snd (execute P send clk cmd raw pass x)) = None"
  by (cases cmd) (auto simp: execute_def exec_body_def exec_set_def exec_del_def exec_cluster_def Let_def
      case_prod_beta split: option.split)

lemma handle_value_plain:
  assumes "plain P cmd" "xs_topo (cn_xs c) = None"
    "execute P send clk cmd (Some raw) pass (cn_xs c) = (out, x)"
  shows "handle_value P send (\<lambda>_ _. True) tx pass clk (command_value cmd) raw c =
    (NextFrame, c\<lparr>cn_xs := x, cn_out := cn_out c @ reply_bytes out\<rparr>)"
proof -
  have "from_value (command_value cmd) = Inr cmd" using from_value_command assms(1) by (simp add: plain_def)
  then have "handle_value P send (\<lambda>_ _. True) tx pass clk (command_value cmd) raw c
      = handle_command P send (\<lambda>_ _. True) pass clk cmd raw c"
    using assms(1) by (cases cmd) (simp_all add: handle_value_def plain_def)
  moreover have "out \<noteq> Panicked" using execute_no_cluster [of "cn_xs c" P send clk cmd "Some raw" pass] assms(2,3) by simp
  ultimately show ?thesis using assms(2,3)
    by (simp add: handle_command_def redirect_def write_then_def next_frame_def reply_bytes_def
        split: outcome.split option.split)
qed

lemma drain_pipeline:
  assumes "list_all (plain P) cmds" "xs_topo (cn_xs c) = None"
    "rest = [] \<or> fst (parse P rest) = Done None"
    "exec_run P send pass (requests clks (cn_frames c) cmds) (cn_xs c) = (outs, x)"
  shows "drain P send (\<lambda>_ _. True) tx pass clks (concat (map wire cmds) @ rest) c =
    (NeedMore, c\<lparr>cn_buffer := rest, cn_frames := cn_frames c + length cmds, cn_xs := x,
       cn_out := cn_out c @ concat (map reply_bytes outs)\<rparr>)"
  using assms
proof (induction cmds arbitrary: c outs)
  case Nil
  show ?case
  proof (cases "rest = []")
    case False
    with Nil obtain r where "parse P rest = (Done None, r)" by (metis prod.collapse)
    then show ?thesis using Nil False by (simp add: drain_cases(2))
  qed (use Nil in \<open>simp add: drain_cases(1)\<close>)
next
  case (Cons cmd cmds)
  let ?b = "concat (map wire cmds) @ rest"
  let ?c = "c\<lparr>cn_buffer := ?b, cn_frames := Suc (cn_frames c)\<rparr>"
  have pl: "plain P cmd" using Cons.prems(1) by simp
  obtain out x1 where ex: "execute P send (clks (cn_frames c)) cmd (Some (wire cmd)) pass (cn_xs c) = (out, x1)"
    by (metis surj_pair)
  obtain outs' where run: "exec_run P send pass (requests clks (Suc (cn_frames c)) cmds) x1 = (outs', x)" "outs = out # outs'"
    using Cons.prems(4) ex by (auto split: prod.splits)
  let ?c1 = "?c\<lparr>cn_xs := x1, cn_out := cn_out c @ reply_bytes out\<rparr>"
  have "parse P (wire cmd @ ?b) = (Done (Some (command_value cmd)), ?b)" by (rule parse_wire [OF pl])
  moreover have "handle_value P send (\<lambda>_ _. True) tx pass (clks (cn_frames c)) (command_value cmd) (wire cmd) ?c
      = (NextFrame, ?c1)"
    using handle_value_plain [OF pl, of ?c send "clks (cn_frames c)" "wire cmd" pass out x1 tx] ex Cons.prems(2) by simp
  ultimately have "drain P send (\<lambda>_ _. True) tx pass clks (wire cmd @ ?b) c =
      drain P send (\<lambda>_ _. True) tx pass clks ?b ?c1"
    by (simp add: drain_cases(4))
  moreover have "xs_topo x1 = None" using execute_no_topo [OF Cons.prems(2)] ex by (metis snd_conv)
  ultimately show ?case using Cons.IH [of ?c1 outs'] Cons.prems(1,3) run by simp
qed

section \<open>Authentication\<close>

text \<open>
  From \<open>c\<close> to \<open>c'\<close> only registrations of the connection itself as a replica may have happened,
  unless the client has authenticated.
\<close>

definition gated :: "conn_id \<Rightarrow> 'c conn \<Rightarrow> 'c conn \<Rightarrow> bool" where
  "gated tx c c' \<longleftrightarrow> xs_auth (cn_xs c') \<or>
     (xs_db (cn_xs c') = xs_db (cn_xs c) \<and> xs_topo (cn_xs c') = xs_topo (cn_xs c)
      \<and> xs_chan (cn_xs c') = xs_chan (cn_xs c)
      \<and> (\<exists>m. xs_repl (cn_xs c') = (register_downstream tx ^^ m) (xs_repl (cn_xs c)) \<and> (m > 0 \<longrightarrow> cn_replica c')))"

lemma gated_refl: "cn_xs c' = cn_xs c \<Longrightarrow> gated tx c c'"
  by (auto simp: gated_def intro: exI [of _ 0])

lemma execute_gate:
  "\<not> xs_auth (snd (execute P send clk cmd raw (Some pass) x)) \<Longrightarrow>
     \<not> xs_auth x \<and> snd (execute P send clk cmd raw (Some pass) x) = x"
  by (cases cmd) (auto simp: execute_def exec_body_def exec_set_def exec_del_def exec_cluster_def Let_def
      case_prod_beta split: option.splits ClusterSubcommand.splits if_splits)

lemma gated_handle_value:
  assumes "handle_value P send sink tx (Some pass) clk v raw c = (fl, c')"
  shows "gated tx c c' \<and> (xs_auth (cn_xs c) \<longrightarrow> xs_auth (cn_xs c')) \<and> (cn_replica c \<longrightarrow> cn_replica c')"
proof (cases rule: handle_value_cases [where v = v and P = P and send = send and sink = sink and tx = tx
      and pass = "Some pass" and clk = clk and raw = raw and c = c])
  case (psync i off)
  have "\<exists>m. register_downstream tx r = (register_downstream tx ^^ m) r" for r
    by (intro exI [of _ 1]) simp
  then show ?thesis using assms psync
    by (auto simp: frame_defs gated_def intro: exI [of _ 0] split: if_splits)
next
  case (cmd cmd)
  let ?e = "execute P send clk cmd (Some raw) (Some pass) (cn_xs c)"
  have "cn_xs c' \<in> {cn_xs c, snd ?e}" and "cn_replica c' = cn_replica c"
    using assms cmd by (auto simp: frame_defs split: option.splits prod.splits outcome.splits if_splits)
  then show ?thesis
    using execute_gate [of P send clk cmd "Some raw" pass "cn_xs c"] gated_refl [of c' c]
    by (cases "xs_auth (snd ?e)") (auto simp: gated_def)
qed (use assms gated_refl in \<open>auto simp: write_then_def next_frame_def split: if_splits\<close>)

lemma gated_trans:
  assumes "gated tx c c1" "gated tx c1 c2" "xs_auth (cn_xs c1) \<Longrightarrow> xs_auth (cn_xs c2)" "cn_replica c1 \<Longrightarrow> cn_replica c2"
  shows "gated tx c c2"
proof (cases "xs_auth (cn_xs c2)")
  case False
  then have "\<not> xs_auth (cn_xs c1)" using assms(3) by blast
  then obtain m m' where
    "xs_repl (cn_xs c1) = (register_downstream tx ^^ m) (xs_repl (cn_xs c))" "m > 0 \<longrightarrow> cn_replica c1"
    "xs_repl (cn_xs c2) = (register_downstream tx ^^ m') (xs_repl (cn_xs c1))" "m' > 0 \<longrightarrow> cn_replica c2"
    using assms(1,2) False unfolding gated_def by blast
  then have "xs_repl (cn_xs c2) = (register_downstream tx ^^ (m' + m)) (xs_repl (cn_xs c))"
    "m' + m > 0 \<longrightarrow> cn_replica c2" using assms(4) by (auto simp: funpow_add)
  then show ?thesis using assms(1,2) \<open>\<not> xs_auth (cn_xs c1)\<close> False unfolding gated_def by metis
qed (simp add: gated_def)

lemma gated_drain:
  assumes "drain P send sink tx (Some pass) clks buf c = (how, c')"
  shows "gated tx c c' \<and> (xs_auth (cn_xs c) \<longrightarrow> xs_auth (cn_xs c')) \<and> (cn_replica c \<longrightarrow> cn_replica c')"
  using assms
proof (induction rule: drain_induct)
  case (bad buf c e r how c')
  then have "cn_xs c' = cn_xs c" "cn_replica c' = cn_replica c"
    by (auto simp: drain.simps [of _ _ _ _ _ _ buf] Let_def split: if_splits)
  then show ?case by (simp add: gated_refl)
next
  case (break buf c v rest how c')
  then show ?case using gated_handle_value [OF break(3)] by (simp add: gated_def)
next
  case (step buf c v rest c1 how c')
  have "gated tx c c1 \<and> (xs_auth (cn_xs c) \<longrightarrow> xs_auth (cn_xs c1)) \<and> (cn_replica c \<longrightarrow> cn_replica c1)"
    using gated_handle_value [OF step(3)] by (simp add: gated_def)
  then show ?case using step(5) gated_trans by metis
qed (simp_all add: gated_refl)

subsection \<open>What an unauthenticated client sees\<close>

text \<open>The complete frames at the front of a buffer.\<close>

function frames :: "platform \<Rightarrow> bytes \<Rightarrow> Value list" where
  "frames P buf = (case parse P buf of (Done (Some v), rest) \<Rightarrow> v # frames P rest | _ \<Rightarrow> [])"
  by pat_completeness auto
termination
  by (relation "measure (\<lambda>(P, buf). length buf)") (auto dest: sym resp.dec_shorter)

declare frames.simps [simp del]

text \<open>Neither the right password nor a \<open>PSYNC\<close>.\<close>

definition harmless :: "string \<Rightarrow> Value \<Rightarrow> bool" where
  "harmless pass v \<longleftrightarrow> (case from_value v of
     Inr (Auth _ password) \<Rightarrow> password \<noteq> pass | Inr (Psync _ _) \<Rightarrow> False | _ \<Rightarrow> True)"

text \<open>The same client, on servers whose shared state may differ.\<close>

definition same_client :: "'c conn \<Rightarrow> 'd conn \<Rightarrow> bool" where
  "same_client c d \<longleftrightarrow> cn_buffer c = cn_buffer d \<and> cn_replica c = cn_replica d
     \<and> cn_out c = cn_out d \<and> cn_frames c = cn_frames d"

definition gate_reply :: "Value \<Rightarrow> Value" where
  "gate_reply v = (case from_value v of
     Inl e \<Rightarrow> value_error e
   | Inr Quit \<Rightarrow> value_ok
   | Inr (Auth _ _) \<Rightarrow> value_error ''WRONGPASS invalid username-password pair or user is disabled.''
   | Inr _ \<Rightarrow> value_error ''NOAUTH Authentication required.'')"

definition gate_flow :: "Value \<Rightarrow> frame_flow" where
  "gate_flow v = (if from_value v = Inr Quit then Break CloseAfterReply else NextFrame)"

lemma handle_value_gate:
  assumes "harmless pass v" "\<not> xs_auth (cn_xs c)"
  shows "handle_value P send sink tx (Some pass) clk v raw c
    = write_then sink (serialize (gate_reply v) []) (\<lambda>c. (gate_flow v, c)) c"
proof (cases "from_value v")
  case (Inr cmd)
  have r: "redirect t cmd False = None" for t
    by (simp add: redirect_def split: option.split)
  show ?thesis using assms Inr r
    by (cases cmd) (simp_all add: harmless_def handle_value_def handle_command_def execute_def gate_reply_def
        gate_flow_def next_frame_def [abs_def])
qed (simp add: handle_value_def gate_reply_def gate_flow_def next_frame_def [abs_def])

lemma write_then_same:
  assumes "write_then sink data (\<lambda>c. (fl, c)) c = (fl', c')" "same_client c d"
  shows "cn_xs c' = cn_xs c \<and> (\<exists>d'. write_then sink data (\<lambda>c. (fl, c)) d = (fl', d') \<and> same_client c' d' \<and> cn_xs d' = cn_xs d)"
  using assms by (auto simp: write_then_def same_client_def split: if_splits)

lemma handle_value_same:
  assumes "handle_value P send sink tx (Some pass) clk v raw c = (fl, c')" "same_client c d"
    "harmless pass v" "\<not> xs_auth (cn_xs c)" "\<not> xs_auth (cn_xs d)"
  shows "cn_xs c' = cn_xs c \<and> (\<exists>d'. handle_value Q send' sink tx' (Some pass) clk' v raw d = (fl, d')
    \<and> same_client c' d' \<and> cn_xs d' = cn_xs d)"
  using assms(1,2) unfolding handle_value_gate [OF assms(3,4)] handle_value_gate [OF assms(3,5)]
  by (rule write_then_same)

lemma drain_same:
  assumes "drain P send sink tx (Some pass) clks buf c = (how, c')" "same_client c d"
    "list_all (harmless pass) (frames P buf)" "\<not> xs_auth (cn_xs c)" "\<not> xs_auth (cn_xs d)"
  shows "cn_xs c' = cn_xs c \<and> (\<exists>d'. drain P send' sink tx' (Some pass) clks' buf d = (how, d')
    \<and> same_client c' d' \<and> cn_xs d' = cn_xs d)"
  using assms
proof (induction arbitrary: d rule: drain_induct)
  case (bad buf c e r how c')
  then show ?case
    by (auto simp: drain.simps [of _ _ _ _ _ _ buf] Let_def same_client_def split: if_splits)
next
  case (break buf c v rest how c')
  then have h: "harmless pass v" by (simp add: frames.simps [of P buf])
  let ?d = "d\<lparr>cn_buffer := rest, cn_frames := Suc (cn_frames d)\<rparr>"
  have "same_client (c\<lparr>cn_buffer := rest, cn_frames := Suc (cn_frames c)\<rparr>) ?d"
    using break.prems(1) by (simp add: same_client_def)
  from handle_value_same [OF break(3) this h, of P send' tx' "clks' (cn_frames d)"] break.prems(3,4)
  show ?case by (auto simp: drain_cases(4) [OF break(1,2)])
next
  case (step buf c v rest c1 how c')
  then have h: "harmless pass v" and hs: "list_all (harmless pass) (frames P rest)"
    by (simp_all add: frames.simps [of P buf])
  let ?d = "d\<lparr>cn_buffer := rest, cn_frames := Suc (cn_frames d)\<rparr>"
  have "same_client (c\<lparr>cn_buffer := rest, cn_frames := Suc (cn_frames c)\<rparr>) ?d"
    using step.prems(1) by (simp add: same_client_def)
  from handle_value_same [OF step(3) this h, of P send' tx' "clks' (cn_frames d)"] step.prems(3,4)
  obtain d1 where "cn_xs c1 = cn_xs c" "cn_xs d1 = cn_xs d" "same_client c1 d1"
    and e: "handle_value P send' sink tx' (Some pass) (clks' (cn_frames d)) v (take (length buf - length rest) buf) ?d = (NextFrame, d1)"
    by auto
  then show ?case using step.IH [of d1] hs step.prems(3,4) by (auto simp: drain_cases(4) [OF step(1,2)])
qed (auto simp: drain_cases same_client_def)

section \<open>Properties\<close>

text \<open>
  C9. Without the password.  With a password configured, let a client that has not authenticated send any
  bytes at all whose frames contain neither an \<open>AUTH\<close> with the right password nor a \<open>PSYNC\<close> (which
  \<open>connection.rs\<close> serves before the gate: \<open>psync_bypasses_auth\<close> below).  Then nothing of the shared
  state changes and the client is not authenticated afterwards; and the client cannot tell two
  servers with the same password apart: whatever the data, the slot tables, the replication state
  and the clocks of the two, it gets the same replies and the connection goes on or ends the same way.
\<close>

theorem unauthenticated_noninterference:
  assumes "\<not> xs_auth (cn_xs c)" "\<not> xs_auth (cn_xs d)" "same_client c d"
    "list_all (harmless pass) (frames P buf)"
    "drain P send sink tx (Some pass) clks buf c = (how, c')"
  shows "cn_xs c' = cn_xs c
    \<and> (\<exists>d'. drain P send' sink tx' (Some pass) clks' buf d = (how, d')
          \<and> cn_out d' = cn_out c' \<and> same_client c' d' \<and> cn_xs d' = cn_xs d)"
  using drain_same [OF assms(5,3,4,1,2), of send' tx' clks'] by (auto simp: same_client_def)

lemma frames_wire: "plain P cmd \<Longrightarrow> frames P (wire cmd @ rest) = command_value cmd # frames P rest"
  by (simp add: frames.simps [of P "wire cmd @ rest"] parse_wire)

lemma frames_Nil: "frames P [] = []"
  by (simp add: frames.simps [of P "[]"] parse_def parse_body_def)

lemma harmless_command: "plain P cmd \<Longrightarrow> (\<And>u. cmd \<noteq> Auth u pass) \<Longrightarrow> harmless pass (command_value cmd)"
  using from_value_command by (cases cmd) (auto simp: plain_def harmless_def)

lemma sample_requests:
  "plain sample_platform (Get ''a'')" "plain sample_platform (Auth None ''guess'')"
  "from_value (command_value (Get ''a'')) = Inr (Get ''a'')"
  "from_value (command_value (Auth None ''guess'')) = Inr (Auth None ''guess'')"
  "harmless ''pw'' (command_value (Get ''a''))" "harmless ''pw'' (command_value (Auth None ''guess''))"
proof -
  show p: "plain sample_platform (Get ''a'')" "plain sample_platform (Auth None ''guess'')"
    by (simp_all add: plain_def command_value_def sample_platform_def is_utf8_ascii byte_def)
  then show "from_value (command_value (Get ''a'')) = Inr (Get ''a'')"
    "from_value (command_value (Auth None ''guess'')) = Inr (Auth None ''guess'')"
    using from_value_command by (simp_all add: plain_def)
  show "harmless ''pw'' (command_value (Get ''a''))" "harmless ''pw'' (command_value (Auth None ''guess''))"
    using harmless_command [OF p(1), of "''pw''"] harmless_command [OF p(2), of "''pw''"] by simp_all
qed

text \<open>Two requests of a client that does not know the password, with the replies.\<close>

lemma sample_gate_drain:
  "\<exists>c'. drain sample_platform queue_send (\<lambda>_ _. True) 7 (Some ''pw'') (\<lambda>_ i. 30 + i)
        (wire (Get ''a'') @ wire (Auth None ''guess'')) (conn_new (Some ''pw'') (sample_state True)) = (NeedMore, c')
     \<and> cn_xs c' = sample_state False
     \<and> cn_out c' = serialize (value_error ''NOAUTH Authentication required.'') []
         @ serialize (value_error ''WRONGPASS invalid username-password pair or user is disabled.'') []"
proof -
  have "\<not> xs_auth (cn_xs (conn_new (Some ''pw'') (sample_state True)))" by (simp add: conn_new_def)
  moreover have "gate_reply (command_value (Get ''a'')) = value_error ''NOAUTH Authentication required.''"
    "gate_reply (command_value (Auth None ''guess''))
      = value_error ''WRONGPASS invalid username-password pair or user is disabled.''"
    by (simp_all add: gate_reply_def sample_requests(3,4))
  ultimately show ?thesis
    using parse_wire [OF sample_requests(1)] parse_wire [OF sample_requests(2), of "[]"]
    by (simp add: drain_cases handle_value_gate sample_requests(3-6) write_then_def gate_flow_def conn_new_def)
      (simp add: sample_state_def)
qed

theorem unauthenticated_noninterference_witness:
  "\<exists>c' d'. drain sample_platform queue_send (\<lambda>_ _. True) 7 (Some ''pw'') (\<lambda>_ i. 30 + i)
        (wire (Get ''a'') @ wire (Auth None ''guess'')) (conn_new (Some ''pw'') (sample_state True)) = (NeedMore, c')
     \<and> drain sample_platform queue_send (\<lambda>_ _. True) 8 (Some ''pw'') (\<lambda>_ i. 90 + i)
        (wire (Get ''a'') @ wire (Auth None ''guess''))
        (conn_new (Some ''pw'') ((sample_state True)\<lparr>xs_db := with_config 1 0, xs_topo := None\<rparr>)) = (NeedMore, d')
     \<and> cn_xs c' = sample_state False \<and> cn_out d' = cn_out c'
     \<and> cn_out c' = serialize (value_error ''NOAUTH Authentication required.'') []
         @ serialize (value_error ''WRONGPASS invalid username-password pair or user is disabled.'') []"
proof -
  let ?c = "conn_new (Some ''pw'') (sample_state True)"
  let ?d = "conn_new (Some ''pw'') ((sample_state True)\<lparr>xs_db := with_config 1 0, xs_topo := None\<rparr>)"
  obtain c' where c: "drain sample_platform queue_send (\<lambda>_ _. True) 7 (Some ''pw'') (\<lambda>_ i. 30 + i)
      (wire (Get ''a'') @ wire (Auth None ''guess'')) ?c = (NeedMore, c')" and out: "cn_xs c' = sample_state False"
    "cn_out c' = serialize (value_error ''NOAUTH Authentication required.'') []
         @ serialize (value_error ''WRONGPASS invalid username-password pair or user is disabled.'') []"
    using sample_gate_drain by blast
  have fr: "list_all (harmless ''pw'') (frames sample_platform (wire (Get ''a'') @ wire (Auth None ''guess'')))"
    using frames_wire [OF sample_requests(2), of "[]"]
    by (simp add: frames_wire [OF sample_requests(1)] frames_Nil sample_requests(5,6))
  have n: "\<not> xs_auth (cn_xs ?c)" "\<not> xs_auth (cn_xs ?d)" and s: "same_client ?c ?d"
    by (simp_all add: same_client_def conn_new_def)
  from unauthenticated_noninterference [OF n s fr c, of queue_send 8 "\<lambda>_ i. 90 + i"] c out
  show ?thesis by auto
qed

text \<open>
  C10. Fragmentation.  If the complete frames in a first chunk are processed and the rest is kept for
  more bytes, then receiving a second chunk has the same effect as receiving both chunks in one
  read: same replies, same state, same end of the connection.
\<close>

theorem fragmentation_irrelevant:
  assumes "drain P send sink tx pass clks (cn_buffer c @ d1) c = (NeedMore, c1)" "d1 \<noteq> []" "d2 \<noteq> []"
    "length (cn_buffer c) + length d1 + length d2 \<le> mx"
  shows "conn_step P send sink tx pass mx clks (ReadData d1) c = (Continue, c1)
    \<and> conn_step P send sink tx pass mx clks (ReadData (d1 @ d2)) c
        = conn_step P send sink tx pass mx clks (ReadData d2) c1"
proof -
  have "length (cn_buffer c1) \<le> length (cn_buffer c @ d1)" using drain_buffer [OF assms(1)] by simp
  then have "length (cn_buffer c1 @ d2) \<le> mx" using assms(4) by simp
  then show ?thesis
    using assms drain_extend [OF assms(1) refl, of d2]
    by (simp add: conn_step_def conn_drain_def drain_buffer_irrelevant)
qed

definition sample_conn :: "queues conn" where
  "sample_conn = conn_new None (sample_state True\<lparr>xs_topo := None\<rparr>)"

lemma plain_sample: "plain sample_platform (Get ''a'')"
  by (simp add: plain_def command_value_def sample_platform_def is_utf8_ascii byte_def)

theorem fragmentation_irrelevant_witness:
  "\<exists>c1. conn_step sample_platform queue_send (\<lambda>_ _. True) 7 None 1000 (\<lambda>_ i. 30 + i) (ReadData (wire (Get ''a''))) sample_conn
        = (Continue, c1)
     \<and> conn_step sample_platform queue_send (\<lambda>_ _. True) 7 None 1000 (\<lambda>_ i. 30 + i) (ReadData (wire (Get ''a'') @ ''*1'')) sample_conn
        = conn_step sample_platform queue_send (\<lambda>_ _. True) 7 None 1000 (\<lambda>_ i. 30 + i) (ReadData ''*1'') c1"
proof -
  have b: "cn_buffer sample_conn = []" "xs_topo (cn_xs sample_conn) = None"
    by (simp_all add: sample_conn_def conn_new_def)
  obtain outs x where run: "exec_run sample_platform queue_send None
      (requests (\<lambda>_ i. 30 + i) (cn_frames sample_conn) [Get ''a'']) (cn_xs sample_conn) = (outs, x)"
    by (metis surj_pair)
  have "list_all (plain sample_platform) [Get ''a'']" using plain_sample by simp
  from drain_pipeline [OF this b(2) _ run, of "[]" 7] obtain c1 where c1:
    "drain sample_platform queue_send (\<lambda>_ _. True) 7 None (\<lambda>_ i. 30 + i)
      (cn_buffer sample_conn @ wire (Get ''a'')) sample_conn = (NeedMore, c1)" using b(1) by simp
  have "length (wire (Get ''a'')) = 20"
    by (simp add: wire_def serialize_encode command_value_def show_int_def show_nat.simps)
  then show ?thesis using fragmentation_irrelevant [OF c1, of "''*1''" 1000] b by auto
qed

text \<open>
  Bounded buffer.  Whatever happens on a connection, as long as it goes on its receive buffer holds
  at most \<open>max_payload_size\<close> bytes.
\<close>

lemma buffer_bounded:
  assumes "conn_run P send sink tx pass mx clks evs (conn_new pass x) = (Continue, c)"
  shows "length (cn_buffer c) \<le> mx"
proof -
  have "length (cn_buffer c') \<le> mx"
    if "conn_run P send sink tx pass mx clks evs c0 = (Continue, c')" "length (cn_buffer c0) \<le> mx" for c0 c' :: "'a conn"
    using that
  proof (induction evs arbitrary: c0)
    case (Cons ev evs)
    then obtain c1 where "conn_step P send sink tx pass mx clks ev c0 = (Continue, c1)"
      "conn_run P send sink tx pass mx clks evs c1 = (Continue, c')"
      by (auto split: prod.splits conn_flow.splits)
    then show ?case using Cons.IH conn_step_buffer Cons.prems(2) by blast
  qed simp
  then show ?thesis using assms by (simp add: conn_new_def)
qed

text \<open>
  C8. Pipelining.  On a connection outside cluster mode, whose writes succeed, any sequence of
  commands sent back to back (other than \<open>PSYNC\<close> and \<open>QUIT\<close>) is executed in order, each once and each with
  its own bytes as the raw command, the replies are written in the same order, and an incomplete
  frame that follows stays in the buffer.
\<close>

theorem pipeline_in_order:
  assumes "list_all (plain P) cmds" "xs_topo (cn_xs c) = None" "rest = [] \<or> fst (parse P rest) = Done None"
    "exec_run P send pass (requests clks (cn_frames c) cmds) (cn_xs c) = (outs, x)"
  shows "drain P send (\<lambda>_ _. True) tx pass clks (concat (map wire cmds) @ rest) c =
    (NeedMore, c\<lparr>cn_buffer := rest, cn_frames := cn_frames c + length cmds, cn_xs := x,
       cn_out := cn_out c @ concat (map reply_bytes outs)\<rparr>)"
  using drain_pipeline [OF assms] .

theorem pipeline_in_order_witness:
  "\<exists>outs x. exec_run sample_platform queue_send None
        (requests (\<lambda>_ i. 30 + i) 0 [Get ''a'', Get ''a'']) (cn_xs sample_conn) = (outs, x)
     \<and> drain sample_platform queue_send (\<lambda>_ _. True) 7 None (\<lambda>_ i. 30 + i)
          (wire (Get ''a'') @ wire (Get ''a'')) sample_conn
        = (NeedMore, sample_conn\<lparr>cn_buffer := [], cn_frames := 2, cn_xs := x, cn_out := concat (map reply_bytes outs)\<rparr>)"
proof -
  have b: "cn_frames sample_conn = 0" "xs_topo (cn_xs sample_conn) = None" "cn_out sample_conn = []"
    by (simp_all add: sample_conn_def conn_new_def)
  obtain outs x where run: "exec_run sample_platform queue_send None
      (requests (\<lambda>_ i. 30 + i) (cn_frames sample_conn) [Get ''a'', Get ''a'']) (cn_xs sample_conn) = (outs, x)"
    by (metis surj_pair)
  have "list_all (plain sample_platform) [Get ''a'', Get ''a'']" using plain_sample by simp
  from pipeline_in_order [OF this b(2) _ run, of "[]" 7] show ?thesis using run b by auto
qed

text \<open>
  C28. Redirection.  In cluster mode a command of an authenticated client on a key whose slot this node
  does not own is not executed: the shared state is unchanged, and the reply is \<open>MOVED\<close> with the slot
  and the endpoint of an owner other than this node, or \<open>CLUSTERDOWN\<close> if the slot has no owner.  If the
  node owns the slot there is no redirection.
\<close>

theorem redirect_foreign_slot:
  assumes "xs_topo (cn_xs c) = Some t" "xs_auth (cn_xs c)" "target_key cmd = Some k" "from_value v = Inr cmd"
    "\<not> owns_slot t (key_slot k)"
  shows "\<exists>resp. handle_value P send (\<lambda>_ _. True) tx pass clk v raw c = (NextFrame, c\<lparr>cn_out := cn_out c @ resp\<rparr>)
    \<and> (case get_node_for_slot t (key_slot k) of
         Some n \<Rightarrow> node_id n \<noteq> myself_id t
           \<and> resp = ''-MOVED '' @ show_u16 (key_slot k) @ '' '' @ node_ip n @ '':'' @ show_u16 (node_port n) @ crlf
       | None \<Rightarrow> resp = ''-CLUSTERDOWN The cluster is down'' @ crlf)"
proof -
  have "handle_value P send (\<lambda>_ _. True) tx pass clk v raw c = handle_command P send (\<lambda>_ _. True) pass clk cmd raw c"
    using assms(3,4) by (cases cmd) (simp_all add: handle_value_def target_key_def)
  moreover have "node_id n \<noteq> myself_id t" if "get_node_for_slot t (key_slot k) = Some n" for n
    using that assms(5) by (simp add: owns_slot_def)
  ultimately show ?thesis
    using assms by (auto simp: handle_command_def redirect_def Let_def write_then_def next_frame_def endpoint_def
        split: option.split)
qed

theorem redirect_foreign_slot_witness:
  "\<exists>resp. handle_value sample_platform queue_send (\<lambda>_ _. True) 7 None (\<lambda>i. 30 + i) (command_value (Get ''a'')) []
        (conn_new None (sample_state True))
      = (NextFrame, (conn_new None (sample_state True))\<lparr>cn_out := resp\<rparr>)"
proof -
  have "get_node_for_slot sample_topology s = None" for s
    by (simp add: get_node_for_slot_def sample_topology_def topology_new_def del: unat_HASH_SLOTS)
  then have n: "\<not> owns_slot sample_topology (key_slot ''a'')" by (simp add: owns_slot_def)
  have "from_value (command_value (Get ''a'')) = Inr (Get ''a'')"
    using plain_sample from_value_command by (simp add: plain_def)
  from redirect_foreign_slot [OF _ _ _ this n, of "conn_new None (sample_state True)" sample_platform queue_send 7 None
      "\<lambda>i. 30 + i" "[]"]
  show ?thesis by (auto simp: conn_new_def target_key_def)
qed

text \<open>
  C29. The gate at the connection.  With a password configured, whatever bytes a client sends, as long as it
  has not authenticated the database, the slot table and the channels are unchanged, and the
  replication state has changed by registrations of this connection as a replica only.
\<close>

theorem gate_protects_data:
  assumes "drain P send sink tx (Some pass) clks buf c = (how, c')" "\<not> xs_auth (cn_xs c')"
  shows "xs_db (cn_xs c') = xs_db (cn_xs c) \<and> xs_topo (cn_xs c') = xs_topo (cn_xs c)
    \<and> xs_chan (cn_xs c') = xs_chan (cn_xs c)
    \<and> (\<exists>m. xs_repl (cn_xs c') = (register_downstream tx ^^ m) (xs_repl (cn_xs c)) \<and> (m > 0 \<longrightarrow> cn_replica c'))"
  using gated_drain [OF assms(1)] assms(2) by (simp add: gated_def)

theorem gate_protects_data_witness:
  "\<exists>c'. drain sample_platform queue_send (\<lambda>_ _. True) 7 (Some ''pw'') (\<lambda>_ i. 30 + i)
        (wire (Get ''a'') @ wire (Auth None ''guess'')) (conn_new (Some ''pw'') (sample_state True)) = (NeedMore, c')
     \<and> xs_db (cn_xs c') = sample_db"
proof -
  obtain c' where c: "drain sample_platform queue_send (\<lambda>_ _. True) 7 (Some ''pw'') (\<lambda>_ i. 30 + i)
      (wire (Get ''a'') @ wire (Auth None ''guess'')) (conn_new (Some ''pw'') (sample_state True)) = (NeedMore, c')"
    "cn_xs c' = sample_state False" using sample_gate_drain by blast
  from gate_protects_data [OF c(1)] c show ?thesis by (simp add: conn_new_def)
qed

lemma drain_psync:
  assumes "is_utf8 i" "is_utf8 off" "encodable P (command_value (Psync i off))"
  shows "drain P send (\<lambda>_ _. True) tx pass clks (wire (Psync i off)) c =
    (NeedMore, c\<lparr>cn_buffer := [], cn_frames := Suc (cn_frames c), cn_replica := True,
       cn_out := cn_out c @ ''+FULLRESYNC '' @ get_replid (xs_repl (cn_xs c)) @ '' 0'' @ crlf
         @ ''$'' @ show_nat (length get_empty_rdb_bytes) @ crlf @ get_empty_rdb_bytes,
       cn_xs := (cn_xs c)\<lparr>xs_repl := register_downstream tx (xs_repl (cn_xs c))\<rparr>\<rparr>)"
proof -
  have "parse P (wire (Psync i off) @ []) = (Done (Some (command_value (Psync i off))), [])"
    using parse_encode [OF assms(3), of "[]"] reparse_bulks by (simp add: wire_def serialize_encode command_value_def)
  moreover have "from_value (command_value (Psync i off)) = Inr (Psync i off)"
    using assms(1,2) by (intro from_value_command) simp
  ultimately show ?thesis by (simp add: drain_cases(1,4) handle_value_def frame_defs)
qed

text \<open>
  C30. \<open>PSYNC\<close> is outside the gate.  A client that has not authenticated and sends \<open>PSYNC\<close> is answered with the
  replication id and the empty snapshot and is registered as a replica: every later write of an
  authenticated client is sent to it.
\<close>

theorem psync_bypasses_auth:
  assumes "is_utf8 i" "is_utf8 off" "encodable P (command_value (Psync i off))"
    "\<not> xs_auth (cn_xs c)"
  shows "\<exists>c'. drain P send (\<lambda>_ _. True) tx (Some pass) clks (wire (Psync i off)) c = (NeedMore, c')
    \<and> \<not> xs_auth (cn_xs c') \<and> cn_replica c' \<and> tx \<in> set (downstream_senders (xs_repl (cn_xs c')))
    \<and> cn_out c' = cn_out c @ ''+FULLRESYNC '' @ get_replid (xs_repl (cn_xs c)) @ '' 0'' @ crlf
        @ ''$'' @ show_nat (length get_empty_rdb_bytes) @ crlf @ get_empty_rdb_bytes"
  using assms(4) by (simp add: drain_psync [OF assms(1-3)] register_downstream_def)

theorem psync_bypasses_auth_witness:
  "\<exists>c'. drain sample_platform queue_send (\<lambda>_ _. True) 7 (Some ''pw'') (\<lambda>_ i. 30 + i) (wire (Psync ''?'' ''-1''))
        (conn_new (Some ''pw'') (sample_state True)) = (NeedMore, c')
     \<and> \<not> xs_auth (cn_xs c') \<and> 7 \<in> set (downstream_senders (xs_repl (cn_xs c')))"
proof -
  have "encodable sample_platform (command_value (Psync ''?'' ''-1''))"
    by (simp add: command_value_def sample_platform_def)
  moreover have "\<not> xs_auth (cn_xs (conn_new (Some ''pw'') (sample_state True)))" by (simp add: conn_new_def)
  moreover have "is_utf8 ''?''" "is_utf8 ''-1''" by (simp_all add: is_utf8_ascii byte_def)
  ultimately show ?thesis using psync_bypasses_auth by blast
qed

end
