(* ===== verification/Replica.thy ===== *)
theory Replica
  imports Connection_Facts
begin

text \<open>
  \<open>src/replication/replica.rs\<close>: the task of a replica.  It connects to the master, performs the
  handshake (\<open>PING\<close>, \<open>AUTH\<close> if configured, \<open>REPLCONF\<close> twice, \<open>PSYNC\<close>), skips the snapshot, and
  then executes the stream of commands.

  The socket is not part of the program: what the replica has written is \<open>rp_out\<close>, whether the
  next write succeeds is the parameter \<open>sink\<close>, and the results of its reads are the list
  \<open>rp_reads\<close>.  The text of an I/O error is only logged; a failed write is \<open>''write failed''\<close>.  A phase
  of the handshake returns \<open>None\<close> if it still waits for a read, otherwise its
  \<open>Result\<close> with the state it leaves.
\<close>

section \<open>Handshake\<close>

datatype read_result = ReadOk bytes | ReadFail string

record handshake =
  rp_buffer :: bytes
  rp_out :: bytes
  rp_reads :: "read_result list"
  rp_repl :: repl_state

type_synonym phase = "handshake \<Rightarrow> ((string + unit) \<times> handshake) option"

definition and_then :: "phase \<Rightarrow> phase \<Rightarrow> phase" where
  "and_then f g h =
     (case f h of
        None \<Rightarrow> None
      | Some (Inl e, h') \<Rightarrow> Some (Inl e, h')
      | Some (Inr _, h') \<Rightarrow> g h')"

definition send_bytes :: "sink \<Rightarrow> bytes \<Rightarrow> phase" where
  "send_bytes sink data h =
     (if sink (rp_out h) data then Some (Inr (), h\<lparr>rp_out := rp_out h @ data\<rparr>) else Some (Inl ''write failed'', h))"

text \<open>
  The common loop of the three readers: try \<open>f\<close> on the buffer; if it has no verdict yet, read more.
\<close>

fun read_until :: "string \<Rightarrow> string \<Rightarrow> (bytes \<Rightarrow> 'a option) \<Rightarrow> bytes \<Rightarrow> read_result list
    \<Rightarrow> ((string + 'a) \<times> bytes \<times> read_result list) option" where
  "read_until err eof f buf rs =
     (case f buf of
        Some r \<Rightarrow> Some (Inr r, buf, rs)
      | None \<Rightarrow>
          (case rs of
             [] \<Rightarrow> None
           | ReadFail e # rs' \<Rightarrow> Some (Inl (err @ e), buf, rs')
           | ReadOk d # rs' \<Rightarrow>
               if d = [] then Some (Inl eof, buf, rs') else read_until err eof f (buf @ d) rs'))"

definition read_simple_response :: phase where
  "read_simple_response h =
     (case read_until ''Socket read error: '' ''Unexpected EOF from master'' find_crlf (rp_buffer h) (rp_reads h) of
        None \<Rightarrow> None
      | Some (Inl e, buf, rs) \<Rightarrow> Some (Inl e, h\<lparr>rp_buffer := buf, rp_reads := rs\<rparr>)
      | Some (Inr pos, buf, rs) \<Rightarrow> Some (Inr (), h\<lparr>rp_buffer := drop (pos + 2) buf, rp_reads := rs\<rparr>))"

definition starts_with :: "string \<Rightarrow> string \<Rightarrow> bool" where
  "starts_with p s \<longleftrightarrow> take (length p) s = p"

definition read_fullresync_response :: phase where
  "read_fullresync_response h =
     (case read_until ''Socket read error: '' ''Unexpected EOF reading FULLRESYNC'' find_crlf (rp_buffer h) (rp_reads h) of
        None \<Rightarrow> None
      | Some (Inl e, buf, rs) \<Rightarrow> Some (Inl e, h\<lparr>rp_buffer := buf, rp_reads := rs\<rparr>)
      | Some (Inr pos, buf, rs) \<Rightarrow>
          (let line = take (pos + 2) buf; h1 = h\<lparr>rp_buffer := drop (pos + 2) buf, rp_reads := rs\<rparr>
           in case from_utf8 line of
                Inl e \<Rightarrow> Some (Inl (show_utf8_error e), h1)
              | Inr s \<Rightarrow>
                  if starts_with ''+FULLRESYNC'' s then
                    (let parts = split_whitespace (trim s)
                     in if length parts \<ge> 3 then Some (Inr (), h1\<lparr>rp_repl := set_replid (parts ! 1) (rp_repl h1)\<rparr>)
                        else Some (Inr (), h1))
                  else Some (Inl (''Expected +FULLRESYNC, got: '' @ trim s), h1)))"

text \<open>The header test of \<open>read_rdb_file\<close>: the buffer starts with a dollar sign and has a line end.\<close>

definition rdb_header :: "bytes \<Rightarrow> nat option" where
  "rdb_header buf = (if buf \<noteq> [] \<and> buf ! 0 = CHR ''$'' then find_crlf buf else None)"

definition read_rdb_file :: phase where
  "read_rdb_file h =
     (case read_until ''Error reading RDB header: '' ''EOF before RDB header'' rdb_header (rp_buffer h) (rp_reads h) of
        None \<Rightarrow> None
      | Some (Inl e, buf, rs) \<Rightarrow> Some (Inl e, h\<lparr>rp_buffer := buf, rp_reads := rs\<rparr>)
      | Some (Inr pos, buf, rs) \<Rightarrow>
          (let header = take (pos + 2) buf; buf1 = drop (pos + 2) buf; h1 = h\<lparr>rp_buffer := buf1, rp_reads := rs\<rparr>
           in case from_utf8 (take (pos - 1) (drop 1 header)) of
                Inl e \<Rightarrow> Some (Inl (show_utf8_error e), h1)
              | Inr len_str \<Rightarrow>
                  (case parse_u64 len_str of
                     Inl _ \<Rightarrow> Some (Inl ''Invalid RDB length'', h1)
                   | Inr rdb_len \<Rightarrow>
                       (case read_until ''Error reading RDB: '' ''EOF while reading RDB payload''
                               (\<lambda>b. if int (length b) < rdb_len then None else Some ()) buf1 rs of
                          None \<Rightarrow> None
                        | Some (Inl e, buf2, rs2) \<Rightarrow> Some (Inl e, h1\<lparr>rp_buffer := buf2, rp_reads := rs2\<rparr>)
                        | Some (Inr _, buf2, rs2) \<Rightarrow>
                            Some (Inr (), h1\<lparr>rp_buffer := drop (nat rdb_len) buf2, rp_reads := rs2\<rparr>)))))"

definition msg_ping :: bytes where
  "msg_ping = ''*1'' @ crlf @ ''$4'' @ crlf @ ''PING'' @ crlf"

definition msg_auth :: "string \<Rightarrow> bytes" where
  "msg_auth pass = ''*2'' @ crlf @ ''$4'' @ crlf @ ''AUTH'' @ crlf @ ''$'' @ show_nat (length pass) @ crlf @ pass @ crlf"

definition msg_port :: "u16 \<Rightarrow> bytes" where
  "msg_port p = ''*3'' @ crlf @ ''$8'' @ crlf @ ''REPLCONF'' @ crlf @ ''$14'' @ crlf @ ''listening-port'' @ crlf
     @ ''$'' @ show_nat (length (show_u16 p)) @ crlf @ show_u16 p @ crlf"

definition msg_capa :: bytes where
  "msg_capa = ''*5'' @ crlf @ ''$8'' @ crlf @ ''REPLCONF'' @ crlf @ ''$4'' @ crlf @ ''capa'' @ crlf @ ''$3'' @ crlf @ ''eof'' @ crlf
     @ ''$4'' @ crlf @ ''capa'' @ crlf @ ''$6'' @ crlf @ ''psync2'' @ crlf"

definition msg_psync :: bytes where
  "msg_psync = ''*3'' @ crlf @ ''$5'' @ crlf @ ''PSYNC'' @ crlf @ ''$1'' @ crlf @ ''?'' @ crlf @ ''$2'' @ crlf @ ''-1'' @ crlf"

text \<open>Lines 33 to 102 of \<open>run_replica_loop\<close>.\<close>

definition run_handshake :: "sink \<Rightarrow> u16 \<Rightarrow> string option \<Rightarrow> phase" where
  "run_handshake sink my_port masterauth =
     and_then (send_bytes sink msg_ping) (and_then read_simple_response
     (and_then (case masterauth of
          Some pass \<Rightarrow> and_then (send_bytes sink (msg_auth pass)) read_simple_response
        | None \<Rightarrow> (\<lambda>h. Some (Inr (), h)))
     (and_then (send_bytes sink (msg_port my_port)) (and_then read_simple_response
     (and_then (send_bytes sink msg_capa) (and_then read_simple_response
     (and_then (send_bytes sink msg_psync) (and_then read_fullresync_response read_rdb_file))))))))"

section \<open>The command stream\<close>

record 'c stream =
  st_buffer :: bytes
  st_out :: bytes
  st_total :: u64
  st_frames :: nat
  st_xs :: "'c exec_state"

datatype streamed = StreamMore | StreamCorrupt | StreamStop | StreamPanic

text \<open>\<open>total_bytes_processed += consumed\<close> and the store into the shared counter.\<close>

definition count_bytes :: "nat \<Rightarrow> 'c stream \<Rightarrow> 'c stream" where
  "count_bytes n s =
     (let tot = st_total s + of_nat n
      in s\<lparr>st_total := tot, st_xs := (st_xs s)\<lparr>xs_repl := (xs_repl (st_xs s))\<lparr>replica_bytes_processed := tot\<rparr>\<rparr>\<rparr>)"

definition msg_ack :: "u64 \<Rightarrow> bytes" where
  "msg_ack off = ''*3'' @ crlf @ ''$8'' @ crlf @ ''REPLCONF'' @ crlf @ ''$3'' @ crlf @ ''ACK'' @ crlf
     @ ''$'' @ show_nat (length (show_u64 off)) @ crlf @ show_u64 off @ crlf"

definition is_getack :: "string list \<Rightarrow> bool" where
  "is_getack args = (case args of [] \<Rightarrow> False | a # _ \<Rightarrow> to_ascii_uppercase a = ''GETACK'')"

text \<open>One complete frame of \<open>n\<close> bytes; the flag is false when the ACK cannot be written.\<close>

definition stream_frame :: "platform \<Rightarrow> 'c sender \<Rightarrow> sink \<Rightarrow> clock \<Rightarrow> Value \<Rightarrow> nat \<Rightarrow> 'c stream \<Rightarrow> bool \<times> 'c stream" where
  "stream_frame P send sink clk v n s =
     (case from_value v of
        Inr (ReplConf args) \<Rightarrow>
          if is_getack args then
            (let s1 = count_bytes n s; ack = msg_ack (st_total s1)
             in if sink (st_out s1) ack then (True, s1\<lparr>st_out := st_out s1 @ ack\<rparr>) else (False, s1))
          else (True, count_bytes n s)
      | Inr cmd \<Rightarrow>
          (let x = snd (execute P send clk cmd None None ((st_xs s)\<lparr>xs_auth := True, xs_topo := None\<rparr>))
           in (True, count_bytes n (s\<lparr>st_xs := (st_xs s)\<lparr>xs_db := xs_db x, xs_repl := xs_repl x, xs_chan := xs_chan x\<rparr>\<rparr>)))
      | Inl _ \<Rightarrow> (True, count_bytes n s))"

function stream_drain :: "platform \<Rightarrow> 'c sender \<Rightarrow> sink \<Rightarrow> (nat \<Rightarrow> clock) \<Rightarrow> bytes \<Rightarrow> 'c stream
    \<Rightarrow> streamed \<times> 'c stream" where
  "stream_drain P send sink clks buf s =
     (if buf = [] then (StreamMore, s\<lparr>st_buffer := []\<rparr>)
      else (case parse P buf of
          (Done (Some v), rest) \<Rightarrow>
            (case stream_frame P send sink (clks (st_frames s)) v (length buf - length rest)
                   (s\<lparr>st_buffer := rest, st_frames := Suc (st_frames s)\<rparr>) of
               (True, s') \<Rightarrow> stream_drain P send sink clks rest s'
             | (False, s') \<Rightarrow> (StreamStop, s'))
        | (Done None, _) \<Rightarrow> (StreamMore, s\<lparr>st_buffer := buf\<rparr>)
        | (Fail e, _) \<Rightarrow> (StreamCorrupt, s\<lparr>st_buffer := drop 1 buf\<rparr>)
        | (Panic, _) \<Rightarrow> (StreamPanic, s\<lparr>st_buffer := buf\<rparr>)
        | (TooDeep, _) \<Rightarrow> (StreamPanic, s\<lparr>st_buffer := buf\<rparr>)))"
  by pat_completeness auto
termination
  by (relation "measure (\<lambda>(P, send, sink, clks, buf, s). length buf)")
     (auto dest: sym resp.dec_shorter)

declare stream_drain.simps [simp del]

text \<open>The streaming loop on the reads that arrive; the flag tells whether the task is still running.\<close>

fun stream_loop :: "platform \<Rightarrow> 'c sender \<Rightarrow> sink \<Rightarrow> (nat \<Rightarrow> clock) \<Rightarrow> read_result list \<Rightarrow> 'c stream
    \<Rightarrow> bool \<times> 'c stream" where
  "stream_loop P send sink clks rs s =
     (case stream_drain P send sink clks (st_buffer s) s of
        (StreamStop, s') \<Rightarrow> (False, s')
      | (StreamPanic, s') \<Rightarrow> (False, s')
      | (_, s') \<Rightarrow>
          (case rs of
             [] \<Rightarrow> (True, s')
           | ReadFail _ # _ \<Rightarrow> (False, s')
           | ReadOk d # rs' \<Rightarrow>
               if d = [] then (False, s')
               else stream_loop P send sink clks rs' (s'\<lparr>st_buffer := st_buffer s' @ d\<rparr>)))"

section \<open>The whole task\<close>

text \<open>
  \<open>connected\<close> is the result of \<open>TcpStream::connect\<close>.  \<open>None\<close> means that the handshake still waits; the
  flag tells whether the task is still running.
\<close>

definition run_replica_loop :: "platform \<Rightarrow> 'c sender \<Rightarrow> sink \<Rightarrow> (nat \<Rightarrow> clock) \<Rightarrow> bool \<Rightarrow> u16 \<Rightarrow> string option
    \<Rightarrow> read_result list \<Rightarrow> 'c exec_state \<Rightarrow> (bool \<times> 'c stream) option" where
  "run_replica_loop P send sink clks connected my_port masterauth reads x =
     (let start = (\<lambda>h. \<lparr>st_buffer = rp_buffer h, st_out = rp_out h, st_total = 0, st_frames = 0,
                        st_xs = x\<lparr>xs_repl := rp_repl h\<rparr>\<rparr>);
          h0 = \<lparr>rp_buffer = [], rp_out = [], rp_reads = reads, rp_repl = xs_repl x\<rparr>
      in if \<not> connected then Some (False, start h0)
         else (case run_handshake sink my_port masterauth h0 of
                 None \<Rightarrow> None
               | Some (Inl e, h) \<Rightarrow> Some (False, start h)
               | Some (Inr _, h) \<Rightarrow> Some (stream_loop P send sink clks (rp_reads h) (start h))))"

end
