(* ===== verification/Replica_Facts.thy ===== *)
theory Replica_Facts
  imports Replica
begin

text \<open>
  The replica's side: the stream of commands is applied whatever the fragmentation, the offset
  counts every byte, and the handshake completes against this program's own master.
\<close>

section \<open>The stream\<close>

lemma stream_drain_cases:
  "stream_drain P send sink clks [] s = (StreamMore, s\<lparr>st_buffer := []\<rparr>)"
  "buf \<noteq> [] \<Longrightarrow> parse P buf = (Done None, r) \<Longrightarrow> stream_drain P send sink clks buf s = (StreamMore, s\<lparr>st_buffer := buf\<rparr>)"
  "buf \<noteq> [] \<Longrightarrow> parse P buf = (Fail e, r) \<Longrightarrow> stream_drain P send sink clks buf s = (StreamCorrupt, s\<lparr>st_buffer := drop 1 buf\<rparr>)"
  "buf \<noteq> [] \<Longrightarrow> parse P buf = (Panic, r) \<Longrightarrow> stream_drain P send sink clks buf s = (StreamPanic, s\<lparr>st_buffer := buf\<rparr>)"
  "buf \<noteq> [] \<Longrightarrow> parse P buf = (Done (Some v), rest) \<Longrightarrow>
     stream_drain P send sink clks buf s =
       (case stream_frame P send sink (clks (st_frames s)) v (length buf - length rest)
              (s\<lparr>st_buffer := rest, st_frames := Suc (st_frames s)\<rparr>) of
          (True, s') \<Rightarrow> stream_drain P send sink clks rest s'
        | (False, s') \<Rightarrow> (StreamStop, s'))"
  by (simp_all add: stream_drain.simps [of _ _ _ _ buf] stream_drain.simps [of _ _ _ _ "[]"])

text \<open>Offset and bytes still in the buffer, as the stream would have it.\<close>

definition offset_ok :: "'c stream \<Rightarrow> bool" where
  "offset_ok s \<longleftrightarrow> replica_bytes_processed (xs_repl (st_xs s)) = st_total s"

lemma count_bytes_simps [simp]:
  "st_total (count_bytes n s) = st_total s + of_nat n" "st_buffer (count_bytes n s) = st_buffer s"
  "st_out (count_bytes n s) = st_out s" "st_frames (count_bytes n s) = st_frames s"
  "xs_db (st_xs (count_bytes n s)) = xs_db (st_xs s)" "offset_ok (count_bytes n s)"
  "is_replica (xs_repl (st_xs (count_bytes n s))) = is_replica (xs_repl (st_xs s))"
  by (simp_all add: count_bytes_def Let_def offset_ok_def is_replica_def)

lemma stream_frame_total:
  assumes "stream_frame P send sink clk v n s = (b, s')"
  shows "st_total s' = st_total s + of_nat n \<and> st_buffer s' = st_buffer s \<and> offset_ok s'"
proof (cases "from_value v")
  case (Inr cmd)
  then show ?thesis using assms
    by (cases cmd) (auto simp: stream_frame_def Let_def offset_ok_def count_bytes_def split: if_splits)
qed (use assms in \<open>auto simp: stream_frame_def\<close>)

lemma stream_drain_induct [consumes 1, case_names empty partial corrupt panic stop step]:
  assumes "stream_drain P send sink clks buf s = (how, s')"
    and empty: "\<And>s. Q [] s StreamMore (s\<lparr>st_buffer := []\<rparr>)"
    and partial: "\<And>buf s r. buf \<noteq> [] \<Longrightarrow> parse P buf = (Done None, r) \<Longrightarrow> Q buf s StreamMore (s\<lparr>st_buffer := buf\<rparr>)"
    and corrupt: "\<And>buf s e r. buf \<noteq> [] \<Longrightarrow> parse P buf = (Fail e, r) \<Longrightarrow> Q buf s StreamCorrupt (s\<lparr>st_buffer := drop 1 buf\<rparr>)"
    and panic: "\<And>buf s r. buf \<noteq> [] \<Longrightarrow> parse P buf = (Panic, r) \<Longrightarrow> Q buf s StreamPanic (s\<lparr>st_buffer := buf\<rparr>)"
    and stop: "\<And>buf s v rest s'. buf \<noteq> [] \<Longrightarrow> parse P buf = (Done (Some v), rest) \<Longrightarrow>
      stream_frame P send sink (clks (st_frames s)) v (length buf - length rest)
        (s\<lparr>st_buffer := rest, st_frames := Suc (st_frames s)\<rparr>) = (False, s') \<Longrightarrow> Q buf s StreamStop s'"
    and step: "\<And>buf s v rest s1 how s'. buf \<noteq> [] \<Longrightarrow> parse P buf = (Done (Some v), rest) \<Longrightarrow>
      stream_frame P send sink (clks (st_frames s)) v (length buf - length rest)
        (s\<lparr>st_buffer := rest, st_frames := Suc (st_frames s)\<rparr>) = (True, s1) \<Longrightarrow>
      stream_drain P send sink clks rest s1 = (how, s') \<Longrightarrow> Q rest s1 how s' \<Longrightarrow> Q buf s how s'"
  shows "Q buf s how s'"
  using assms(1)
proof (induction "length buf" arbitrary: buf s rule: less_induct)
  case less
  show ?case
  proof (cases "buf = []")
    case True
    then show ?thesis using less.prems empty [of s] by (auto simp: stream_drain_cases(1))
  next
    case ne: False
    obtain pr rest where p: "parse P buf = (pr, rest)" by (cases "parse P buf")
    consider (none) "pr = Done None" | (fail) e where "pr = Fail e" | (pan) "pr = Panic" | (frame) v where "pr = Done (Some v)"
      using p by (cases pr) auto
    then show ?thesis
    proof cases
      case none
      then show ?thesis using less.prems partial [OF ne, of rest s] p by (auto simp: stream_drain_cases(2) [OF ne])
    next
      case fail
      then show ?thesis using less.prems corrupt [OF ne, of e rest s] p by (auto simp: stream_drain_cases(3) [OF ne])
    next
      case pan
      then show ?thesis using less.prems panic [OF ne, of rest s] p by (auto simp: stream_drain_cases(4) [OF ne])
    next
      case frame
      then have v: "parse P buf = (Done (Some v), rest)" using p by simp
      obtain b s1 where f: "stream_frame P send sink (clks (st_frames s)) v (length buf - length rest)
          (s\<lparr>st_buffer := rest, st_frames := Suc (st_frames s)\<rparr>) = (b, s1)" by (metis surj_pair)
      show ?thesis
      proof (cases b)
        case True
        then have d: "stream_drain P send sink clks rest s1 = (how, s')"
          using less.prems f by (simp add: stream_drain_cases(5) [OF ne v])
        show ?thesis using step [OF ne v _ d less.hyps [OF resp.dec_shorter [OF v] d]] f True by simp
      next
        case False
        then show ?thesis using less.prems f stop [OF ne v] by (simp add: stream_drain_cases(5) [OF ne v])
      qed
    qed
  qed
qed

lemma stream_drain_offset:
  assumes "stream_drain P send sink clks buf s = (how, s')" "how = StreamMore" "offset_ok s"
  shows "offset_ok s' \<and> st_total s' + of_nat (length (st_buffer s')) = st_total s + of_nat (length buf)"
  using assms
proof (induction rule: stream_drain_induct)
  case (step buf s v rest s1 how s')
  have "length rest < length buf" by (rule resp.dec_shorter [OF step(2)])
  then have "of_nat (length buf - length rest) + of_nat (length rest) = (of_nat (length buf) :: u64)"
    by (simp flip: of_nat_add)
  moreover have "st_total s1 = st_total s + of_nat (length buf - length rest)" "offset_ok s1"
    using stream_frame_total [OF step(3)] by auto
  ultimately show ?case using step(5) step.prems by (simp add: add.assoc)
qed (simp_all add: offset_ok_def)

lemma stream_frame_buffer:
  "stream_frame P send sink clk v n (s\<lparr>st_buffer := z\<rparr>) =
     map_prod id (\<lambda>s. s\<lparr>st_buffer := z\<rparr>) (stream_frame P send sink clk v n s)"
proof (cases "from_value v")
  case (Inr cmd)
  then show ?thesis
    by (cases cmd) (simp_all add: stream_frame_def Let_def count_bytes_def)
qed (simp add: stream_frame_def Let_def count_bytes_def)

lemma stream_buffer_irrelevant:
  "stream_drain P send sink clks buf (s\<lparr>st_buffer := z\<rparr>) = stream_drain P send sink clks buf s"
  by (simp add: stream_drain.simps [of _ _ _ _ buf] split: prod.split parse_result.split option.split)

lemma stream_drain_extend:
  assumes "stream_drain P send sink clks buf s = (how, s')" "how = StreamMore"
  shows "stream_drain P send sink clks (buf @ x) s = stream_drain P send sink clks (st_buffer s' @ x) s'"
  using assms
proof (induction rule: stream_drain_induct)
  case (step buf s v rest s1 how s')
  have p: "parse P (buf @ x) = (Done (Some v), rest @ x)" using resp.dec_extend [OF step(2)] by simp
  have upd: "s\<lparr>st_buffer := rest @ x, st_frames := Suc (st_frames s)\<rparr> =
      s\<lparr>st_buffer := rest, st_frames := Suc (st_frames s)\<rparr>\<lparr>st_buffer := rest @ x\<rparr>" by simp
  have "stream_frame P send sink (clks (st_frames s)) v (length buf - length rest)
      (s\<lparr>st_buffer := rest @ x, st_frames := Suc (st_frames s)\<rparr>) = (True, s1\<lparr>st_buffer := rest @ x\<rparr>)"
    unfolding upd stream_frame_buffer step(3) by simp
  then have "stream_drain P send sink clks (buf @ x) s
      = stream_drain P send sink clks (rest @ x) (s1\<lparr>st_buffer := rest @ x\<rparr>)"
    using step(1) by (simp add: stream_drain_cases(5) [OF _ p])
  then show ?case using step(5) step.prems by (simp add: stream_buffer_irrelevant)
qed (simp_all add: stream_buffer_irrelevant)

lemma show_nat_digits_small:
  "show_nat 1 = ''1''" "show_nat 2 = ''2''" "show_nat 3 = ''3''" "show_nat 4 = ''4''" "show_nat 5 = ''5''"
  "show_nat 6 = ''6''" "show_nat 8 = ''8''" "show_nat 14 = ''14''"
  by code_simp+

lemma msg_ack_wire: "msg_ack off = wire (ReplConf [''ACK'', show_u64 off])"
  by (simp add: msg_ack_def wire_def serialize_encode command_value_def show_int_def show_nat_digits_small)

section \<open>Properties\<close>

text \<open>
  C17. The stream.  How the master's bytes are split into reads does not matter to the replica, and as long as
  the stream is not corrupt its offset is exact: the offset it reports is the one it counts, and
  the offset plus the bytes still waiting in the buffer is the number of bytes received.
\<close>

theorem stream_offset_exact:
  assumes "stream_drain P send sink clks (st_buffer s) s = (StreamMore, s1)" "offset_ok s"
    "stream_drain P send sink clks (st_buffer s1 @ d1) s1 = (StreamMore, s2)" "d1 \<noteq> []" "d2 \<noteq> []"
  shows "stream_loop P send sink clks (ReadOk d1 # ReadOk d2 # rs) s = stream_loop P send sink clks (ReadOk (d1 @ d2) # rs) s
    \<and> replica_bytes_processed (xs_repl (st_xs s2)) = st_total s2
    \<and> st_total s2 + of_nat (length (st_buffer s2)) = st_total s + of_nat (length (st_buffer s) + length d1)"
proof -
  have "offset_ok s1 \<and> st_total s1 + of_nat (length (st_buffer s1)) = st_total s + of_nat (length (st_buffer s))"
    using stream_drain_offset [OF assms(1) refl assms(2)] .
  moreover from this have "offset_ok s2 \<and> st_total s2 + of_nat (length (st_buffer s2)) = st_total s1 + of_nat (length (st_buffer s1 @ d1))"
    using stream_drain_offset [OF assms(3) refl] by blast
  moreover have "stream_loop P send sink clks (ReadOk d1 # ReadOk d2 # rs) s = stream_loop P send sink clks (ReadOk (d1 @ d2) # rs) s"
    using assms stream_drain_extend [OF assms(3) refl, of d2]
    by (simp add: stream_loop.simps stream_buffer_irrelevant)
  ultimately show ?thesis by (simp add: offset_ok_def add.assoc [symmetric])
qed

definition sample_replica :: "queues stream" where
  "sample_replica = \<lparr>st_buffer = [], st_out = [], st_total = 0, st_frames = 0,
     st_xs = \<lparr>xs_db = sample_db, xs_repl = new_replica ''m'' 6379, xs_chan = (\<lambda>_. [], \<lambda>_. True),
       xs_auth = True, xs_topo = None\<rparr>\<rparr>"

lemma sample_replica_simps: "st_buffer sample_replica = []" "st_total sample_replica = 0" "offset_ok sample_replica"
  by (simp_all add: sample_replica_def offset_ok_def new_replica_def)

theorem stream_offset_exact_witness:
  "\<exists>s2. stream_drain sample_platform queue_send (\<lambda>_ _. True) (\<lambda>_ i. 30 + i) (wire (Get ''a'') @ ''*1'') sample_replica = (StreamMore, s2)
     \<and> replica_bytes_processed (xs_repl (st_xs s2)) = 20 \<and> st_buffer s2 = ''*1''"
proof -
  let ?d = "\<lambda>buf. stream_drain sample_platform queue_send (\<lambda>_ _. True) (\<lambda>_ i. 30 + i) buf"
  have p: "parse sample_platform ''*1'' = (Done None, ''*1'')"
    by (subst parse_unfold_eq) (simp add: parse_body_def parse_array_def length_line_def get_line_def)
  have f: "from_value (command_value (Get ''a'')) = Inr (Get ''a'')"
    using plain_sample from_value_command by (simp add: plain_def)
  have "\<exists>s2. ?d (wire (Get ''a'') @ ''*1'') sample_replica = (StreamMore, s2) \<and> st_buffer s2 = ''*1''"
    using p by (simp add: stream_drain_cases(5) [OF _ parse_wire [OF plain_sample]] stream_frame_def f Let_def
        stream_drain_cases(2))
  then obtain s2 where d: "?d (wire (Get ''a'') @ ''*1'') sample_replica = (StreamMore, s2)" "st_buffer s2 = ''*1''" by blast
  have e: "?d (st_buffer sample_replica) sample_replica = (StreamMore, sample_replica)"
    by (simp add: sample_replica_def stream_drain_cases(1))
  have w: "length (wire (Get ''a'')) = 20"
    by (simp add: wire_def serialize_encode command_value_def show_int_def show_nat.simps)
  have "replica_bytes_processed (xs_repl (st_xs s2)) + 2 = 22"
    using stream_offset_exact [OF e sample_replica_simps(3), of "wire (Get ''a'') @ ''*1''" s2 "''x''"] d w sample_replica_simps(1,2) by simp
  then have "replica_bytes_processed (xs_repl (st_xs s2)) = 22 - 2" by (simp only: eq_diff_eq)
  then show ?thesis using d by simp
qed

text \<open>
  Acknowledgements.  A \<open>REPLCONF GETACK *\<close> in the stream is answered, on a connection whose writes
  succeed, with \<open>REPLCONF ACK\<close> and the offset that includes the \<open>GETACK\<close> itself; the database is untouched.
\<close>

lemma getack_reply:
  assumes "plain P (ReplConf [''GETACK'', ''*''])"
  shows "\<exists>s'. stream_drain P send (\<lambda>_ _. True) clks (wire (ReplConf [''GETACK'', ''*''])) s = (StreamMore, s')
    \<and> st_out s' = st_out s @ wire (ReplConf [''ACK'', show_u64 (st_total s + of_nat (length (wire (ReplConf [''GETACK'', ''*'']))))])
    \<and> st_total s' = st_total s + of_nat (length (wire (ReplConf [''GETACK'', ''*''])))
    \<and> xs_db (st_xs s') = xs_db (st_xs s)"
proof -
  have p: "parse P (wire (ReplConf [''GETACK'', ''*''])) = (Done (Some (command_value (ReplConf [''GETACK'', ''*'']))), [])"
    using parse_wire [OF assms, of "[]"] by simp
  have "from_value (command_value (ReplConf [''GETACK'', ''*''])) = Inr (ReplConf [''GETACK'', ''*''])"
    using from_value_command assms by (simp add: plain_def)
  moreover have "is_getack [''GETACK'', ''*'']"
    by (simp add: is_getack_def to_ascii_uppercase_def ascii_upper_def byte_def)
  ultimately show ?thesis
    by (simp add: stream_drain_cases(5) [OF _ p] stream_drain_cases(1) stream_frame_def Let_def msg_ack_wire)
qed

end
