(* ===== verification/Convergence.thy ===== *)
theory Convergence
  imports Replica_Facts
begin

text \<open>
  Replication end to end.  The contents of a database without expiry times and without a memory
  limit is a plain map from keys to values; executing a command refines the obvious update of
  that map (\<open>apply_write\<close>), on the master and on the replica.  Hence a replica that
  processes the bytes the master put into its channel ends with the master's contents and
  offset.
\<close>

section \<open>The abstract contents\<close>

definition content :: "platform \<Rightarrow> db \<Rightarrow> string \<Rightarrow> bytes option" where
  "content P d = (\<lambda>k. map_option entry_value (db_lookup P d k))"

definition durable :: "platform \<Rightarrow> db \<Rightarrow> bool" where
  "durable P d \<longleftrightarrow> db_inv P d \<and> max_memory_bytes d = 0
     \<and> (\<forall>k e. db_lookup P d k = Some e \<longrightarrow> expires_at e = None)"

fun apply_write :: "Command \<Rightarrow> (string \<Rightarrow> bytes option) \<Rightarrow> string \<Rightarrow> bytes option" where
  "apply_write (Set k v _) m = m(k \<mapsto> v)"
| "apply_write (Del ks) m = (\<lambda>k. if k \<in> set ks then None else m k)"
| "apply_write _ m = m"

fun untimed :: "Command \<Rightarrow> bool" where
  "untimed (Set k v px) \<longleftrightarrow> px = None"
| "untimed _ \<longleftrightarrow> True"

lemma durableD: "durable P d \<Longrightarrow> db_inv P d" "durable P d \<Longrightarrow> max_memory_bytes d = 0"
  "durable P d \<Longrightarrow> db_lookup P d k = Some e \<Longrightarrow> \<not> is_expired t e"
  by (auto simp: durable_def is_expired_def)

lemma durable_set:
  assumes "durable P d"
  shows "durable P (db_set P clk k v None d) \<and> content P (db_set P clk k v None d) = (content P d)(k \<mapsto> v)"
proof -
  have "set_room d = d" using set_room_id [OF durableD(1) [OF assms]] durableD(2) [OF assms] by simp
  then have l: "db_lookup P (db_set P clk k v None d) k' =
      (if k' = k then Some (entry_new P (clk 0) (length k) v None) else db_lookup P d k')" for k'
    using db_lookup_after_set [OF durableD(1) [OF assms]] by simp
  then show ?thesis
    using assms db_inv_set [of P d] by (auto simp: durable_def content_def fun_eq_iff entry_new_def)
qed

lemma max_memory_count_del: "max_memory_bytes (snd (count_loop (db_del P) ks d)) = max_memory_bytes d"
  by (induction ks arbitrary: d) (auto simp: case_prod_beta db_del_def Let_def split: option.split)

lemma durable_del:
  assumes "durable P d"
  shows "durable P (snd (count_loop (db_del P) ks d))
    \<and> content P (snd (count_loop (db_del P) ks d)) = (\<lambda>k. if k \<in> set ks then None else content P d k)"
proof -
  obtain n d' where n: "count_loop (db_del P) ks d = (n, d')" by (cases "count_loop (db_del P) ks d")
  have "max_memory_bytes d' = 0" using max_memory_count_del [of P ks d] n durableD(2) [OF assms] by simp
  then show ?thesis
    using db.count_del [OF durableD(1) [OF assms] n] n assms by (auto simp: durable_def content_def split: if_splits)
qed

lemma max_memory_get [simp]: "max_memory_bytes (snd (db_get P clk k d)) = max_memory_bytes d"
  by (auto simp: db_get_def get_hit_def get_lazy_def Let_def split: option.split)

lemma durable_get:
  assumes "durable P d"
  shows "durable P (snd (db_get P clk k d)) \<and> content P (snd (db_get P clk k d)) = content P d"
proof (cases "db_lookup P d k")
  case None
  then show ?thesis using assms durableD(1) [OF assms] by (simp add: db_get_def get_hit_cases db_inv_shape)
next
  case (Some e)
  have inv: "db_inv P d" by (rule durableD(1) [OF assms])
  let ?i = "shard_index P d k"
  have key: "k \<in> set (hm_keys (shards d ! ?i))" using Some hm_get_Some_key by (auto simp: db_lookup_def)
  have eq: "snd (db_get P clk k d) = d\<lparr>shards := (shards d)[?i := hm_put (shards d ! ?i) k (touch (clk 1) e)],
      used_memory := used_memory d\<rparr>"
    using Some durableD(3) [OF assms Some] by (simp add: db_get_def get_hit_cases db_inv_shape [OF inv])
  have "db_lookup P (snd (db_get P clk k d)) k' = (if k' = k then Some (touch (clk 1) e) else db_lookup P d k')" for k'
    unfolding eq db_lookup_update [OF db_inv_shape [OF inv]] using key by (auto simp: hm_get_put db_lookup_def)
  then show ?thesis
    using assms Some db_inv_get [OF inv] by (auto simp: durable_def content_def fun_eq_iff)
qed

lemma durable_exists:
  "durable P d \<Longrightarrow> durable P (snd (timed_count_loop (db_exists P) clk ks d))
     \<and> content P (snd (timed_count_loop (db_exists P) clk ks d)) = content P d"
  by (induction ks arbitrary: clk d) (simp_all add: case_prod_beta snd_db_exists durable_get)

text \<open>Execution refines the abstract update.\<close>

lemma exec_body_content:
  assumes "durable P (xs_db x)" "untimed cmd"
  shows "durable P (xs_db (snd (exec_body P send clk cmd raw x)))
    \<and> content P (xs_db (snd (exec_body P send clk cmd raw x))) = apply_write cmd (content P (xs_db x))"
proof -
  have "xs_db (snd (exec_cluster P sub x)) = xs_db x" for sub
    by (cases sub) (simp_all add: exec_cluster_def case_prod_beta split: option.split)
  then show ?thesis
    using assms durable_set [OF assms(1)] durable_del [OF assms(1)] durable_get [OF assms(1)] durable_exists [OF assms(1)]
    by (cases cmd) (simp_all add: exec_body_def exec_set_def exec_del_def Let_def case_prod_beta)
qed

lemma execute_gate_open: "pass = None \<or> xs_auth x \<Longrightarrow> execute P send clk cmd raw pass x = exec_body P send clk cmd raw x"
  by (auto simp: execute_def split: option.split)

lemma exec_body_auth: "xs_auth x \<Longrightarrow> xs_auth (snd (exec_body P send clk cmd raw x))"
  by (cases cmd) (auto simp: exec_body_def exec_set_def exec_del_def exec_cluster_def Let_def case_prod_beta
      split: option.split ClusterSubcommand.split)

lemma exec_body_role: "is_replica (xs_repl (snd (exec_body P send clk cmd raw x))) = is_replica (xs_repl x)"
proof -
  have "is_replica (xs_repl (propagate_raw send raw y)) = is_replica (xs_repl y)" for y :: "'a exec_state"
    by (auto simp: propagate_raw_def split: option.split prod.split) (metis fst_conv role_simps(3))+
  then show ?thesis
    by (cases cmd) (auto simp: exec_body_def exec_set_def exec_del_def exec_cluster_def Let_def case_prod_beta
        split: option.split ClusterSubcommand.split)
qed

section \<open>The replica applies what it receives\<close>

definition is_write :: "Command \<Rightarrow> bool" where
  "is_write cmd \<longleftrightarrow> (\<exists>k v px. cmd = Set k v px) \<or> (\<exists>ks. cmd = Del ks)"

lemma stream_frame_write:
  assumes "plain P cmd" "is_write cmd" "untimed cmd" "durable P (xs_db (st_xs s))"
  shows "\<exists>s'. stream_frame P send sink clk (command_value cmd) n s = (True, s')
    \<and> durable P (xs_db (st_xs s')) \<and> content P (xs_db (st_xs s')) = apply_write cmd (content P (xs_db (st_xs s)))
    \<and> st_total s' = st_total s + of_nat n"
proof -
  have "from_value (command_value cmd) = Inr cmd" using from_value_command assms(1) by (simp add: plain_def)
  moreover obtain x where x: "snd (execute P send clk cmd None None (st_xs s\<lparr>xs_auth := True, xs_topo := None\<rparr>)) = x" by blast
  ultimately have "stream_frame P send sink clk (command_value cmd) n s =
      (True, count_bytes n (s\<lparr>st_xs := (st_xs s)\<lparr>xs_db := xs_db x, xs_repl := xs_repl x, xs_chan := xs_chan x\<rparr>\<rparr>))"
    using assms(2) by (auto simp: stream_frame_def is_write_def Let_def)
  moreover have "durable P (xs_db x) \<and> content P (xs_db x) = apply_write cmd (content P (xs_db (st_xs s)))"
    using exec_body_content [of P "st_xs s\<lparr>xs_auth := True, xs_topo := None\<rparr>" cmd send clk None] assms(3,4) x
    by (simp add: execute_gate_open)
  ultimately show ?thesis by simp
qed

lemma stream_writes:
  assumes "\<forall>cmd \<in> set cmds. plain P cmd \<and> is_write cmd \<and> untimed cmd" "durable P (xs_db (st_xs s))"
  shows "\<exists>s'. stream_drain P send sink clks (concat (map wire cmds)) s = (StreamMore, s') \<and> st_buffer s' = []
    \<and> content P (xs_db (st_xs s')) = fold apply_write cmds (content P (xs_db (st_xs s)))
    \<and> st_total s' = st_total s + of_nat (length (concat (map wire cmds)))"
  using assms
proof (induction cmds arbitrary: s)
  case Nil
  then show ?case by (simp add: stream_drain_cases(1))
next
  case (Cons cmd cmds)
  let ?b = "concat (map wire cmds)"
  let ?s = "s\<lparr>st_buffer := ?b, st_frames := Suc (st_frames s)\<rparr>"
  have cmd: "plain P cmd" "is_write cmd" "untimed cmd" using Cons.prems(1) by auto
  have p: "parse P (wire cmd @ ?b) = (Done (Some (command_value cmd)), ?b)" by (rule parse_wire [OF cmd(1)])
  obtain s1 where s1: "stream_frame P send sink (clks (st_frames s)) (command_value cmd) (length (wire cmd)) ?s = (True, s1)"
    "durable P (xs_db (st_xs s1))" "content P (xs_db (st_xs s1)) = apply_write cmd (content P (xs_db (st_xs s)))"
    "st_total s1 = st_total s + of_nat (length (wire cmd))"
    using stream_frame_write [OF cmd, of ?s send sink "clks (st_frames s)" "length (wire cmd)"] Cons.prems(2) by auto
  obtain s' where "stream_drain P send sink clks ?b s1 = (StreamMore, s')" "st_buffer s' = []"
    "content P (xs_db (st_xs s')) = fold apply_write cmds (content P (xs_db (st_xs s1)))"
    "st_total s' = st_total s1 + of_nat (length ?b)" using Cons.IH [OF _ s1(2)] Cons.prems(1) by auto
  then show ?case using s1 stream_drain_cases(5) [OF _ p, of send sink clks s] by (simp add: add.assoc)
qed

section \<open>What the master sends\<close>

text \<open>The commands of a run that are propagated.\<close>

fun effective :: "platform \<Rightarrow> 'c sender \<Rightarrow> string option \<Rightarrow> (nat \<Rightarrow> clock) \<Rightarrow> nat \<Rightarrow> Command list \<Rightarrow> 'c exec_state
    \<Rightarrow> Command list" where
  "effective P send pass clks j [] x = []"
| "effective P send pass clks j (cmd # cmds) x =
     (if is_write cmd \<and> (\<forall>ks. cmd = Del ks \<longrightarrow> set ks \<inter> dom (db_lookup P (xs_db x)) \<noteq> {}) then [cmd] else [])
     @ effective P send pass clks (Suc j) cmds (snd (execute P send (clks j) cmd (Some (wire cmd)) pass x))"

lemma ineffective:
  assumes "\<not> (is_write cmd \<and> (\<forall>ks. cmd = Del ks \<longrightarrow> set ks \<inter> dom (db_lookup P d) \<noteq> {}))"
  shows "apply_write cmd (content P d) = content P d"
proof (cases cmd)
  case (Del ks)
  then have "set ks \<inter> dom (db_lookup P d) = {}" using assms by (simp add: is_write_def)
  then have "content P d k = None" if "k \<in> set ks" for k using that by (auto simp: content_def)
  then show ?thesis using Del by (simp add: fun_eq_iff)
qed (use assms in \<open>auto simp: is_write_def\<close>)

lemma count_list_filter: "Q x \<Longrightarrow> count_list (filter Q xs) x = count_list xs x"
  by (induction xs) auto

text \<open>A master with one live registration of \<open>tx\<close>, on a database without expiry times or limit.\<close>

definition feeding :: "platform \<Rightarrow> ('c \<Rightarrow> conn_id \<Rightarrow> bool) \<Rightarrow> string option \<Rightarrow> conn_id \<Rightarrow> 'c exec_state \<Rightarrow> bool" where
  "feeding P alive pass tx x \<longleftrightarrow> xs_inv P x \<and> durable P (xs_db x) \<and> (pass = None \<or> xs_auth x)
     \<and> \<not> is_replica (xs_repl x) \<and> alive (xs_chan x) tx \<and> count_list (downstream_senders (xs_repl x)) tx = 1"

lemma feeding_step:
  assumes laws: "channel_laws send pending alive" and feed: "feeding P alive pass tx x" and cmd: "untimed cmd"
    and ex: "execute P send clk cmd (Some (wire cmd)) pass x = (out, x1)"
    and sent: "sent = (if is_write cmd \<and> (\<forall>ks. cmd = Del ks \<longrightarrow> set ks \<inter> dom (db_lookup P (xs_db x)) \<noteq> {}) then [cmd] else [])"
  shows "feeding P alive pass tx x1 \<and> content P (xs_db x1) = fold apply_write sent (content P (xs_db x))
    \<and> pending (xs_chan x1) tx = pending (xs_chan x) tx @ map wire sent
    \<and> master_repl_offset (xs_repl x1) = master_repl_offset (xs_repl x) + of_nat (length (concat (map wire sent)))"
proof -
  have x: "xs_inv P x" "durable P (xs_db x)" "pass = None \<or> xs_auth x" "\<not> is_replica (xs_repl x)"
    "alive (xs_chan x) tx" "count_list (downstream_senders (xs_repl x)) tx = 1"
    using feed by (auto simp: feeding_def)
  have x1: "x1 = snd (exec_body P send clk cmd (Some (wire cmd)) x)" using ex execute_gate_open [OF x(3)] by (metis snd_conv)
  have keep: "xs_inv P x1" "durable P (xs_db x1)" "pass = None \<or> xs_auth x1" "\<not> is_replica (xs_repl x1)"
    using xs_inv_body [OF x(1)] exec_body_content [OF x(2) cmd] exec_body_auth [of x] x(3,4) x1 by (auto simp: exec_body_role)
  have cont: "content P (xs_db x1) = fold apply_write sent (content P (xs_db x))"
    using exec_body_content [OF x(2) cmd, of send clk "Some (wire cmd)"] x1 sent ineffective [of cmd P "xs_db x"] by auto
  have sends: "(xs_repl x1, xs_chan x1) = (if sent \<noteq> [] then propagate_downstream send (wire cmd) (xs_repl x, xs_chan x)
      else (xs_repl x, xs_chan x))"
    using execute_propagation [OF x(1,3) ex] x(4) sent by (auto simp: is_write_def)
  show ?thesis
  proof (cases "sent = []")
    case True
    then show ?thesis using sends keep cont x by (simp add: feeding_def)
  next
    case False
    then have s: "sent = [cmd]" using sent by (auto split: if_splits)
    have "propagate_downstream send (wire cmd) (xs_repl x, xs_chan x) = (xs_repl x1, xs_chan x1)" using sends False by simp
    from propagate_spec [OF laws this] show ?thesis
      using s keep cont x by (simp add: feeding_def count_list_filter)
  qed
qed

lemma master_run:
  assumes "channel_laws send pending alive" "feeding P alive pass tx x" "list_all untimed cmds"
    "exec_run P send pass (requests clks j cmds) x = (outs, x')"
  shows "content P (xs_db x') = fold apply_write (effective P send pass clks j cmds x) (content P (xs_db x))
    \<and> pending (xs_chan x') tx = pending (xs_chan x) tx @ map wire (effective P send pass clks j cmds x)
    \<and> master_repl_offset (xs_repl x') = master_repl_offset (xs_repl x)
        + of_nat (length (concat (map wire (effective P send pass clks j cmds x))))"
  using assms(2-)
proof (induction cmds arbitrary: x j outs)
  case (Cons cmd cmds)
  obtain out x1 where ex: "execute P send (clks j) cmd (Some (wire cmd)) pass x = (out, x1)" by (metis surj_pair)
  obtain outs' where run: "exec_run P send pass (requests clks (Suc j) cmds) x1 = (outs', x')"
    using Cons.prems(3) ex by (auto split: prod.splits)
  let ?sent = "if is_write cmd \<and> (\<forall>ks. cmd = Del ks \<longrightarrow> set ks \<inter> dom (db_lookup P (xs_db x)) \<noteq> {}) then [cmd] else []"
  have step: "feeding P alive pass tx x1 \<and> content P (xs_db x1) = fold apply_write ?sent (content P (xs_db x))
    \<and> pending (xs_chan x1) tx = pending (xs_chan x) tx @ map wire ?sent
    \<and> master_repl_offset (xs_repl x1) = master_repl_offset (xs_repl x) + of_nat (length (concat (map wire ?sent)))"
    using feeding_step [OF assms(1) Cons.prems(1) _ ex refl] Cons.prems(2) by simp
  moreover have "effective P send pass clks j (cmd # cmds) x = ?sent @ effective P send pass clks (Suc j) cmds x1"
    using ex by simp
  moreover have "list_all untimed cmds" using Cons.prems(2) by simp
  ultimately show ?case using Cons.IH [OF _ _ run]
    by (simp only: map_append fold_append comp_apply append_assoc concat_append length_append of_nat_add add.assoc)
qed simp

lemma effective_subset: "set (effective P send pass clks j cmds x) \<subseteq> {c \<in> set cmds. is_write c}"
  by (induction cmds arbitrary: j x) (auto split: if_splits)

section \<open>Properties\<close>

text \<open>
  C2. Replication converges.  Let a master, to which a replica is registered, execute any sequence of
  commands without expiry times, and let the replica then process the bytes queued for it.  If both
  databases had the same contents before (and neither has a memory limit), they have the same
  contents afterwards, nothing is left over in the replica's buffer, and both offsets have advanced
  by the same number of bytes.
\<close>

theorem replication_converges:
  assumes "channel_laws send pending alive" "feeding P alive pass tx x" "pending (xs_chan x) tx = []"
    "exec_run P send pass (requests clks j cmds) x = (outs, x')"
    "list_all untimed cmds" "list_all (plain P') cmds"
    "durable P' (xs_db (st_xs s))" "content P' (xs_db (st_xs s)) = content P (xs_db x)"
    "stream_drain P' send' sink clks' (concat (pending (xs_chan x') tx)) s = (how, s')"
  shows "how = StreamMore \<and> st_buffer s' = []
    \<and> content P' (xs_db (st_xs s')) = content P (xs_db x')
    \<and> st_total s' - st_total s = master_repl_offset (xs_repl x') - master_repl_offset (xs_repl x)"
proof -
  let ?eff = "effective P send pass clks j cmds x"
  have run: "content P (xs_db x') = fold apply_write ?eff (content P (xs_db x))"
    "pending (xs_chan x') tx = map wire ?eff"
    "master_repl_offset (xs_repl x') = master_repl_offset (xs_repl x) + of_nat (length (concat (map wire ?eff)))"
    using master_run [OF assms(1,2,5,4)] assms(3) by simp_all
  have "\<forall>cmd \<in> set ?eff. plain P' cmd \<and> is_write cmd \<and> untimed cmd"
    using effective_subset [of P send pass clks j cmds x] assms(5,6) by (auto simp: list_all_iff)
  from stream_writes [OF this assms(7), of send' sink clks'] obtain s2 where
    "stream_drain P' send' sink clks' (concat (map wire ?eff)) s = (StreamMore, s2)" "st_buffer s2 = []"
    "content P' (xs_db (st_xs s2)) = fold apply_write ?eff (content P' (xs_db (st_xs s)))"
    "st_total s2 = st_total s + of_nat (length (concat (map wire ?eff)))" by blast
  then show ?thesis using run assms(8,9) by simp
qed

definition sample_master :: "queues exec_state" where
  "sample_master = \<lparr>xs_db = with_config 4 0, xs_repl = register_downstream 1 (new_master None),
     xs_chan = (\<lambda>_. [], \<lambda>_. True), xs_auth = True, xs_topo = None\<rparr>"

definition sample_stream :: "queues stream" where
  "sample_stream = \<lparr>st_buffer = [], st_out = [], st_total = 0, st_frames = 0,
     st_xs = \<lparr>xs_db = with_config 2 0, xs_repl = new_replica ''m'' 6379, xs_chan = (\<lambda>_. [], \<lambda>_. True),
       xs_auth = True, xs_topo = None\<rparr>\<rparr>"

lemma durable_with_config:
  assumes "n \<le> 2 ^ 63"
  shows "durable sample_platform (with_config n 0) \<and> content sample_platform (with_config n 0) = Map.empty"
proof -
  have "max_memory_bytes (with_config n 0) = 0" by (simp add: with_config_def Let_def)
  then show ?thesis
    using db_inv_with_config [OF permutes_sample assms] db_lookup_with_config [OF permutes_sample assms]
    by (simp add: durable_def content_def)
qed

theorem replication_converges_witness:
  "\<exists>outs x' s'. exec_run sample_platform queue_send None
        (requests (\<lambda>_ i. 30 + i) 0 [Set ''k'' ''v'' None, Get ''k'', Del [''z'']]) sample_master = (outs, x')
     \<and> stream_drain sample_platform queue_send (\<lambda>_ _. True) (\<lambda>_ i. 50 + i) (concat (fst (xs_chan x') 1)) sample_stream = (StreamMore, s')
     \<and> content sample_platform (xs_db (st_xs s')) = content sample_platform (xs_db x')"
proof -
  let ?cmds = "[Set ''k'' ''v'' None, Get ''k'', Del [''z'']]"
  obtain outs x' where run: "exec_run sample_platform queue_send None (requests (\<lambda>_ i. 30 + i) 0 ?cmds) sample_master = (outs, x')"
    by (metis surj_pair)
  obtain how s' where str: "stream_drain sample_platform queue_send (\<lambda>_ _. True) (\<lambda>_ i. 50 + i)
      (concat (fst (xs_chan x') 1)) sample_stream = (how, s')" by (metis surj_pair)
  have "feeding sample_platform snd None 1 sample_master"
    using durable_with_config [of 4] durableD(1) [of sample_platform "with_config 4 0"]
    by (simp add: feeding_def sample_master_def xs_inv_def register_downstream_def new_master_def is_replica_def)
  moreover have "fst (xs_chan sample_master) 1 = []" by (simp add: sample_master_def)
  moreover have "list_all untimed ?cmds" "list_all (plain sample_platform) ?cmds"
    by (simp_all add: plain_def command_value_def sample_platform_def is_utf8_ascii byte_def)
  moreover have "durable sample_platform (xs_db (st_xs sample_stream))"
    "content sample_platform (xs_db (st_xs sample_stream)) = content sample_platform (xs_db sample_master)"
    using durable_with_config [of 4] durable_with_config [of 2] by (simp_all add: sample_stream_def sample_master_def)
  ultimately show ?thesis
    using replication_converges [OF queue_send_laws _ _ run _ _ _ _ str] run str by blast
qed

end
