(* ===== verification/Replica_Handshake.thy ===== *)
theory Replica_Handshake
  imports Convergence
begin

text \<open>
  The handshake between the replica task and a connection of the same program acting as the
  master: however the master's replies are split into reads, the handshake completes, takes
  over the replication id, skips the snapshot exactly, and leaves an empty buffer for the
  command stream.  It also completes when the master rejects every command for lack of
  authentication, because the replica only looks for line ends.
\<close>

section \<open>Chunks\<close>

fun payload :: "read_result \<Rightarrow> bytes" where
  "payload (ReadOk d) = d"
| "payload (ReadFail e) = []"

definition good_reads :: "read_result list \<Rightarrow> bool" where
  "good_reads rs \<longleftrightarrow> (\<forall>r \<in> set rs. \<exists>d. r = ReadOk d \<and> d \<noteq> [])"

text \<open>The bytes that are, or will be, in the buffer.\<close>

definition arriving :: "handshake \<Rightarrow> bytes" where
  "arriving h = rp_buffer h @ concat (map payload (rp_reads h))"

definition ready :: "handshake \<Rightarrow> bytes \<Rightarrow> bool" where
  "ready h data \<longleftrightarrow> good_reads (rp_reads h) \<and> arriving h = data"

lemma ready_Nil: "ready h [] \<Longrightarrow> rp_buffer h = [] \<and> rp_reads h = []"
  by (cases "rp_reads h") (auto simp: ready_def arriving_def good_reads_def)

lemma read_until_spec:
  assumes "\<And>b x r. f b = Some r \<Longrightarrow> f (b @ x) = Some r"
    "f (buf @ concat (map payload rs)) = Some r" "good_reads rs"
  shows "\<exists>buf' rs'. read_until err eof f buf rs = Some (Inr r, buf', rs') \<and> f buf' = Some r \<and> good_reads rs'
    \<and> buf' @ concat (map payload rs') = buf @ concat (map payload rs)"
  using assms(2,3)
proof (induction rs arbitrary: buf)
  case Nil
  then show ?case by (simp add: good_reads_def)
next
  case (Cons q rs)
  show ?case
  proof (cases "f buf")
    case None
    obtain d where d: "q = ReadOk d" "d \<noteq> []" using Cons.prems(2) by (auto simp: good_reads_def)
    have "f ((buf @ d) @ concat (map payload rs)) = Some r" using Cons.prems(1) d by simp
    moreover have "good_reads rs" using Cons.prems(2) by (simp add: good_reads_def)
    ultimately show ?thesis using Cons.IH [of "buf @ d"] None d by simp
  next
    case (Some r')
    then have "r' = r" using assms(1) [OF Some, of "concat (map payload (q # rs))"] Cons.prems(1) by simp
    then show ?thesis using Some Cons.prems(2) by simp
  qed
qed

declare read_until.simps [simp del]

section \<open>The readers\<close>

lemma read_line_ready:
  assumes "ready h (line @ crlf @ rest)" "f (line @ crlf @ rest) = Some (length line)"
    "\<And>b x r. f b = Some r \<Longrightarrow> f (b @ x) = Some r" "\<And>b i. f b = Some i \<Longrightarrow> i + 2 \<le> length b"
  obtains buf rs where "read_until err eof f (rp_buffer h) (rp_reads h) = Some (Inr (length line), buf, rs)"
    "take (length line + 2) buf = line @ crlf"
    "ready (h\<lparr>rp_buffer := drop (length line + 2) buf, rp_reads := rs\<rparr>) rest"
proof -
  have data: "rp_buffer h @ concat (map payload (rp_reads h)) = line @ crlf @ rest" and good: "good_reads (rp_reads h)"
    using assms(1) by (simp_all add: ready_def arriving_def)
  obtain buf rs where r: "read_until err eof f (rp_buffer h) (rp_reads h) = Some (Inr (length line), buf, rs)"
    "f buf = Some (length line)" "good_reads rs" "buf @ concat (map payload rs) = line @ crlf @ rest"
    using read_until_spec [of f "rp_buffer h" "rp_reads h" "length line" err eof, OF assms(3)] data assms(2) good by auto
  have len: "length line + 2 \<le> length buf" by (rule assms(4) [OF r(2)])
  have "take (length line + 2) buf = take (length line + 2) (buf @ concat (map payload rs))" using len by simp
  also have "\<dots> = line @ crlf" unfolding r(4) by simp
  finally have t: "take (length line + 2) buf = line @ crlf" .
  have "drop (length line + 2) buf @ concat (map payload rs) = drop (length line + 2) (buf @ concat (map payload rs))"
    using len by simp
  also have "\<dots> = rest" unfolding r(4) by simp
  finally show ?thesis using that r t by (simp add: ready_def arriving_def)
qed

lemma ready_update: "ready (h\<lparr>rp_out := z\<rparr>) d = ready h d" "ready (h\<lparr>rp_repl := q\<rparr>) d = ready h d"
  by (simp_all add: ready_def arriving_def)

lemma read_simple_ready:
  assumes "ready h (line @ crlf @ rest)" "find_crlf line = None"
  shows "\<exists>h'. read_simple_response h = Some (Inr (), h') \<and> ready h' rest \<and> rp_out h' = rp_out h \<and> rp_repl h' = rp_repl h"
proof -
  obtain buf rs where "read_until ''Socket read error: '' ''Unexpected EOF from master'' find_crlf (rp_buffer h) (rp_reads h)
      = Some (Inr (length line), buf, rs)" "ready (h\<lparr>rp_buffer := drop (length line + 2) buf, rp_reads := rs\<rparr>) rest"
    using read_line_ready [where f = find_crlf, OF assms(1) find_crlf_None_append [OF assms(2)] find_crlf_append find_crlf_bound] by metis
  then show ?thesis by (simp add: read_simple_response_def)
qed

lemma solid_ascii: "solid c \<Longrightarrow> byte c < 128"
  by (simp add: solid_def)

lemma solid_literals: "list_all solid ''+FULLRESYNC''" "list_all solid ''0''"
  by (simp_all add: solid_def byte_def)

definition fullresync_line :: "string \<Rightarrow> string" where
  "fullresync_line i = ''+FULLRESYNC '' @ i @ '' 0''"

lemma fullresync_line_facts:
  assumes "list_all solid i" "i \<noteq> []"
  shows "split_whitespace (trim (fullresync_line i @ crlf)) = [''+FULLRESYNC'', i, ''0'']"
    "find_crlf (fullresync_line i) = None" "is_utf8 (fullresync_line i @ crlf)"
    "starts_with ''+FULLRESYNC'' (fullresync_line i @ crlf)"
proof -
  have "trim (fullresync_line i @ crlf) = fullresync_line i"
    by (rule trim_line) (simp_all add: fullresync_line_def solid_def byte_def)
  then show "split_whitespace (trim (fullresync_line i @ crlf)) = [''+FULLRESYNC'', i, ''0'']"
    using split_whitespace_three [OF solid_literals(1) assms(1) solid_literals(2)] assms(2)
    by (simp add: fullresync_line_def)
  have "CHR 0x0D \<notin> set i" using assms(1) by (auto simp: list_all_iff solid_def byte_def)
  then show "find_crlf (fullresync_line i) = None" by (intro find_crlf_no_cr) (simp add: fullresync_line_def)
  show "is_utf8 (fullresync_line i @ crlf)"
    using assms(1) by (intro is_utf8_ascii) (auto simp: fullresync_line_def list_all_iff solid_def byte_def crlf_def)
  show "starts_with ''+FULLRESYNC'' (fullresync_line i @ crlf)" by (simp add: starts_with_def fullresync_line_def)
qed

lemma fullresync_ready:
  assumes "ready h (fullresync_line i @ crlf @ rest)" "list_all solid i" "i \<noteq> []"
  shows "\<exists>h'. read_fullresync_response h = Some (Inr (), h') \<and> ready h' rest \<and> rp_out h' = rp_out h
    \<and> rp_repl h' = set_replid i (rp_repl h)"
proof -
  note facts = fullresync_line_facts [OF assms(2,3)]
  obtain buf rs where r: "read_until ''Socket read error: '' ''Unexpected EOF reading FULLRESYNC'' find_crlf
      (rp_buffer h) (rp_reads h) = Some (Inr (length (fullresync_line i)), buf, rs)"
    "take (length (fullresync_line i) + 2) buf = fullresync_line i @ crlf"
    "ready (h\<lparr>rp_buffer := drop (length (fullresync_line i) + 2) buf, rp_reads := rs\<rparr>) rest"
    using read_line_ready [where f = find_crlf, OF assms(1) find_crlf_None_append [OF facts(2)] find_crlf_append find_crlf_bound]
    by metis
  have "from_utf8 (fullresync_line i @ crlf) = Inr (fullresync_line i @ crlf)" using facts(3) by (rule from_utf8_valid)
  then show ?thesis
    using r facts by (simp add: read_fullresync_response_def Let_def ready_update)
qed

lemma rdb_ready:
  assumes "ready h ((CHR ''$'' # show_nat (length pl)) @ crlf @ pl @ rest)" "length pl < 2 ^ 64"
  shows "\<exists>h'. read_rdb_file h = Some (Inr (), h') \<and> ready h' rest \<and> rp_out h' = rp_out h \<and> rp_repl h' = rp_repl h"
proof -
  let ?line = "CHR ''$'' # show_nat (length pl)"
  have "CHR 0x0D \<notin> set ?line" using show_nat_byte by (fastforce simp: byte_def)
  from find_crlf_None_append [OF find_crlf_no_cr [OF this], of "pl @ rest"]
  have hit: "rdb_header (?line @ crlf @ pl @ rest) = Some (length ?line)" by (simp add: rdb_header_def)
  have ext: "rdb_header b = Some r \<Longrightarrow> rdb_header (b @ x) = Some r" for b x r
    using find_crlf_append by (auto simp: rdb_header_def nth_append split: if_splits)
  have bound: "rdb_header b = Some r \<Longrightarrow> r + 2 \<le> length b" for b r
    using find_crlf_bound by (auto simp: rdb_header_def split: if_splits)
  obtain buf rs where r: "read_until ''Error reading RDB header: '' ''EOF before RDB header'' rdb_header
      (rp_buffer h) (rp_reads h) = Some (Inr (length ?line), buf, rs)" "take (length ?line + 2) buf = ?line @ crlf"
    "ready (h\<lparr>rp_buffer := drop (length ?line + 2) buf, rp_reads := rs\<rparr>) (pl @ rest)"
    using read_line_ready [where f = rdb_header, OF assms(1) hit ext bound] by metis
  let ?f = "\<lambda>b :: bytes. if int (length b) < int (length pl) then None else Some ()"
  let ?b = "drop (length ?line + 2) buf"
  have data: "?b @ concat (map payload rs) = pl @ rest" "good_reads rs" using r(3) by (simp_all add: ready_def arriving_def)
  have "\<exists>buf' rs'. read_until ''Error reading RDB: '' ''EOF while reading RDB payload'' ?f ?b rs = Some (Inr (), buf', rs')
      \<and> ?f buf' = Some () \<and> good_reads rs' \<and> buf' @ concat (map payload rs') = ?b @ concat (map payload rs)"
    by (rule read_until_spec) (use data in \<open>auto split: if_splits\<close>)
  then obtain buf' rs' where b: "read_until ''Error reading RDB: '' ''EOF while reading RDB payload'' ?f ?b rs = Some (Inr (), buf', rs')"
    "length pl \<le> length buf'" "good_reads rs'" "buf' @ concat (map payload rs') = pl @ rest"
    using data(1) by (auto split: if_splits)
  have "drop (length pl) buf' @ concat (map payload rs') = drop (length pl) (buf' @ concat (map payload rs'))"
    using b(2) by simp
  then have rest: "drop (length pl) buf' @ concat (map payload rs') = rest" unfolding b(4) by simp
  have "int (length pl) < int (2 ^ 64)" using assms(2) by (simp only: of_nat_less_iff)
  then have "int (length pl) \<le> 2 ^ 64 - 1" by simp
  then have "parse_u64 (show_nat (length pl)) = Inr (int (length pl))"
    by (simp add: parse_u64_def parse_int_show_nat)
  moreover have "take (length ?line - 1) (drop 1 (take (length ?line + 2) buf)) = show_nat (length pl)"
    unfolding r(2) by simp
  ultimately show ?thesis
    using r(1) b rest unfolding read_rdb_file_def Let_def
    by (simp add: ready_def arriving_def)
qed

section \<open>The messages\<close>

definition hello :: "u16 \<Rightarrow> string option \<Rightarrow> Command list" where
  "hello p masterauth = Ping None # (case masterauth of None \<Rightarrow> [] | Some pw \<Rightarrow> [Auth None pw])
     @ [ReplConf [''listening-port'', show_u16 p], ReplConf [''capa'', ''eof'', ''capa'', ''psync2'']]"

lemma messages_wire:
  "msg_ping = wire (Ping None)" "msg_auth pw = wire (Auth None pw)"
  "msg_port p = wire (ReplConf [''listening-port'', show_u16 p])"
  "msg_capa = wire (ReplConf [''capa'', ''eof'', ''capa'', ''psync2''])" "msg_psync = wire (Psync ''?'' ''-1'')"
  by (simp_all add: msg_ping_def msg_auth_def msg_port_def msg_capa_def msg_psync_def wire_def serialize_encode
      command_value_def show_int_def show_nat_digits_small show_nat_digits_small(1) [unfolded One_nat_def])

section \<open>Request and reply\<close>

definition one_line :: "bytes \<Rightarrow> bool" where
  "one_line b \<longleftrightarrow> (\<exists>line. b = line @ crlf \<and> find_crlf line = None)"

lemma one_line_status:
  "CHR 0x0D \<notin> set t \<Longrightarrow> one_line (serialize (SimpleString t) [])"
  "CHR 0x0D \<notin> set t \<Longrightarrow> one_line (serialize (Error t) [])"
  unfolding one_line_def
  by (rule exI [of _ "CHR ''+'' # t"], simp add: find_crlf_no_cr)
     (rule exI [of _ "''-ERR '' @ t"], simp add: find_crlf_no_cr)

lemma one_line_replies:
  "one_line (serialize value_ok [])" "one_line (serialize value_pong [])"
  "one_line (serialize (value_error ''NOAUTH Authentication required.'') [])"
  "one_line (serialize (value_error ''WRONGPASS invalid username-password pair or user is disabled.'') [])"
  unfolding value_ok_def value_pong_def value_error_def by (rule one_line_status; simp)+

lemma hello_reply:
  assumes "cmd \<in> set (hello p masterauth)" "execute P send clk cmd raw pass x = (out, x')"
  shows "one_line (reply_bytes out) \<and> xs_repl x' = xs_repl x \<and> xs_topo x' = xs_topo x"
proof -
  have "to_ascii_uppercase ''listening-port'' = ''LISTENING-PORT''" "to_ascii_uppercase ''capa'' = ''CAPA''"
    by (simp_all add: to_ascii_uppercase_def ascii_upper_def byte_def) (simp_all add: char_of_def bit_0)
  then show ?thesis
    using assms one_line_replies
    by (auto simp: hello_def execute_def exec_body_def exec_replconf_def reply_bytes_def Let_def
        split: option.splits if_splits)
qed

lemma and_then_assoc: "and_then (and_then f g) k = and_then f (and_then g k)"
  by (rule ext) (auto simp: and_then_def split: option.split sum.split prod.split)

lemma exchange:
  assumes "ready h (b @ rest)" "one_line b"
  shows "\<exists>h'. and_then (send_bytes (\<lambda>_ _. True) m) (and_then read_simple_response k) h = k h'
    \<and> ready h' rest \<and> rp_out h' = rp_out h @ m \<and> rp_repl h' = rp_repl h"
proof -
  obtain line where l: "b = line @ crlf" "find_crlf line = None" using assms(2) by (auto simp: one_line_def)
  let ?h = "h\<lparr>rp_out := rp_out h @ m\<rparr>"
  have "ready ?h (line @ crlf @ rest)" using assms(1) l(1) by (simp add: ready_update)
  from read_simple_ready [OF this l(2)] show ?thesis by (auto simp: and_then_def send_bytes_def)
qed

lemma hello_run:
  assumes "set cmds \<subseteq> set (hello p masterauth)" "exec_run P send pass (requests clks j cmds) x = (outs, x')"
  shows "length outs = length cmds \<and> list_all (\<lambda>out. one_line (reply_bytes out)) outs \<and> xs_repl x' = xs_repl x"
  using assms
proof (induction cmds arbitrary: x j outs)
  case (Cons cmd cmds)
  obtain out x1 where ex: "execute P send (clks j) cmd (Some (wire cmd)) pass x = (out, x1)" by (metis surj_pair)
  obtain outs' where run: "exec_run P send pass (requests clks (Suc j) cmds) x1 = (outs', x')" "outs = out # outs'"
    using Cons.prems(2) ex by (auto split: prod.splits)
  then show ?case using Cons.IH [OF _ run(1)] Cons.prems(1) hello_reply [OF _ ex] by auto
qed simp

text \<open>The replica's side, on the replies of any server that answers line by line.\<close>

lemma last_exchange:
  assumes "ready h (fullresync_line i @ crlf @ (CHR ''$'' # show_nat (length rdb)) @ crlf @ rdb)" "list_all solid i" "i \<noteq> []"
    "length rdb < 2 ^ 64"
  shows "and_then (send_bytes (\<lambda>_ _. True) m) (and_then read_fullresync_response read_rdb_file) h
    = Some (Inr (), \<lparr>rp_buffer = [], rp_out = rp_out h @ m, rp_reads = [], rp_repl = set_replid i (rp_repl h)\<rparr>)"
proof -
  let ?h = "h\<lparr>rp_out := rp_out h @ m\<rparr>"
  have "ready ?h (fullresync_line i @ crlf @ (CHR ''$'' # show_nat (length rdb)) @ crlf @ rdb)"
    using assms(1) by (simp add: ready_update)
  from fullresync_ready [OF this assms(2,3)] obtain h1 where h1: "read_fullresync_response ?h = Some (Inr (), h1)"
    "ready h1 ((CHR ''$'' # show_nat (length rdb)) @ crlf @ rdb @ [])" "rp_out h1 = rp_out h @ m" "rp_repl h1 = set_replid i (rp_repl h)"
    by auto
  from rdb_ready [OF h1(2) assms(4)] obtain h2 where h2: "read_rdb_file h1 = Some (Inr (), h2)" "ready h2 []"
    "rp_out h2 = rp_out h1" "rp_repl h2 = rp_repl h1" by auto
  have "h2 = \<lparr>rp_buffer = [], rp_out = rp_out h @ m, rp_reads = [], rp_repl = set_replid i (rp_repl h)\<rparr>"
    using ready_Nil [OF h2(2)] h1 h2 by (cases h2) simp
  then show ?thesis using h1 h2 by (simp add: and_then_def send_bytes_def)
qed

text \<open>A sequence of requests, each waiting for one line.\<close>

definition talk :: "Command list \<Rightarrow> phase \<Rightarrow> phase" where
  "talk cmds k = foldr (\<lambda>cmd k. and_then (send_bytes (\<lambda>_ _. True) (wire cmd)) (and_then read_simple_response k)) cmds k"

lemma run_handshake_talk:
  "run_handshake (\<lambda>_ _. True) p masterauth = talk (hello p masterauth)
     (and_then (send_bytes (\<lambda>_ _. True) (wire (Psync ''?'' ''-1''))) (and_then read_fullresync_response read_rdb_file))"
proof -
  have "and_then (\<lambda>h. Some (Inr (), h)) k = k" for k by (rule ext) (simp add: and_then_def)
  then show ?thesis
    by (cases masterauth) (simp_all add: run_handshake_def hello_def talk_def messages_wire and_then_assoc)
qed

lemma talk_ready:
  assumes "length outs = length cmds" "list_all one_line outs" "ready h (concat outs @ rest)"
  shows "\<exists>h'. talk cmds k h = k h' \<and> ready h' rest \<and> rp_out h' = rp_out h @ concat (map wire cmds) \<and> rp_repl h' = rp_repl h"
  using assms
proof (induction outs cmds arbitrary: h rule: list_induct2)
  case Nil
  then show ?case by (intro exI [of _ h]) (simp add: talk_def)
next
  case (Cons out outs cmd cmds)
  have "ready h (out @ concat outs @ rest)" "one_line out" using Cons.prems by simp_all
  from exchange [OF this, of "wire cmd" "talk cmds k"] obtain h1 where
    "talk (cmd # cmds) k h = talk cmds k h1" "ready h1 (concat outs @ rest)" "rp_out h1 = rp_out h @ wire cmd" "rp_repl h1 = rp_repl h"
    by (auto simp: talk_def)
  then show ?case using Cons.IH [of h1] Cons.prems(1) by auto
qed

lemma replica_side:
  assumes "length outs = length (hello p masterauth)" "list_all one_line outs"
    "ready h (concat outs @ fullresync_line i @ crlf @ (CHR ''$'' # show_nat (length rdb)) @ crlf @ rdb)"
    "list_all solid i" "i \<noteq> []" "length rdb < 2 ^ 64"
  shows "run_handshake (\<lambda>_ _. True) p masterauth h = Some (Inr (),
    \<lparr>rp_buffer = [], rp_out = rp_out h @ concat (map wire (hello p masterauth)) @ wire (Psync ''?'' ''-1''), rp_reads = [],
     rp_repl = set_replid i (rp_repl h)\<rparr>)"
  unfolding run_handshake_talk
  using talk_ready [OF assms(1-3), of "and_then (send_bytes (\<lambda>_ _. True) (wire (Psync ''?'' ''-1'')))
      (and_then read_fullresync_response read_rdb_file)"] last_exchange [OF _ assms(4-6)]
  by auto

text \<open>The master's side.\<close>

lemma master_side:
  assumes "list_all (plain P) (hello p masterauth)" "encodable P (command_value (Psync ''?'' ''-1''))"
    "xs_topo (cn_xs c) = None"
  shows "\<exists>outs c'. drain P send (\<lambda>_ _. True) tx pass clks (concat (map wire (hello p masterauth)) @ wire (Psync ''?'' ''-1'')) c
      = (NeedMore, c')
    \<and> length outs = length (hello p masterauth) \<and> list_all one_line outs
    \<and> cn_replica c' \<and> tx \<in> set (downstream_senders (xs_repl (cn_xs c')))
    \<and> cn_out c' = cn_out c @ concat outs @ fullresync_line (get_replid (xs_repl (cn_xs c))) @ crlf
        @ (CHR ''$'' # show_nat (length get_empty_rdb_bytes)) @ crlf @ get_empty_rdb_bytes"
proof -
  obtain outs x where run: "exec_run P send pass (requests clks (cn_frames c) (hello p masterauth)) (cn_xs c) = (outs, x)"
    by (metis surj_pair)
  let ?c = "c\<lparr>cn_buffer := [], cn_frames := cn_frames c + length (hello p masterauth), cn_xs := x,
      cn_out := cn_out c @ concat (map reply_bytes outs)\<rparr>"
  have d: "drain P send (\<lambda>_ _. True) tx pass clks (concat (map wire (hello p masterauth))) c = (NeedMore, ?c)"
    using drain_pipeline [OF assms(1,3) _ run, of "[]"] by simp
  have x: "length outs = length (hello p masterauth)" "list_all (\<lambda>out. one_line (reply_bytes out)) outs" "xs_repl x = xs_repl (cn_xs c)"
    using hello_run [OF order_refl run] by auto
  have u: "is_utf8 ''?''" "is_utf8 ''-1''" by (simp_all add: is_utf8_ascii byte_def)
  show ?thesis
    by (intro exI [of _ "map reply_bytes outs"])
       (simp add: drain_extend [OF d refl] drain_psync [OF u assms(2)] x list.pred_map comp_def register_downstream_def
         fullresync_line_def)
qed

section \<open>Properties\<close>

text \<open>
  C16. The handshake completes.  Take a connection of a master outside cluster mode, with or without a
  password, and a replica with or without a (right or wrong) master password.  The master answers
  the replica's messages and registers it, and however its answer is split into non-empty reads, the
  replica completes the handshake: it has sent exactly those messages, taken over the master's
  replication id, and skipped the snapshot to the byte.
\<close>

theorem handshake_completes:
  assumes "list_all (plain P) (hello p masterauth)" "encodable P (command_value (Psync ''?'' ''-1''))"
    "xs_topo (cn_xs c) = None" "cn_out c = []"
    "list_all solid (get_replid (xs_repl (cn_xs c)))" "get_replid (xs_repl (cn_xs c)) \<noteq> []"
    "drain P send (\<lambda>_ _. True) tx pass clks (concat (map wire (hello p masterauth)) @ wire (Psync ''?'' ''-1'')) c = (how, c')"
    "good_reads rs" "concat (map payload rs) = cn_out c'"
  shows "how = NeedMore \<and> cn_replica c' \<and> tx \<in> set (downstream_senders (xs_repl (cn_xs c')))
    \<and> run_handshake (\<lambda>_ _. True) p masterauth \<lparr>rp_buffer = [], rp_out = [], rp_reads = rs, rp_repl = r\<rparr> = Some (Inr (),
        \<lparr>rp_buffer = [], rp_out = concat (map wire (hello p masterauth)) @ wire (Psync ''?'' ''-1''), rp_reads = [],
         rp_repl = set_replid (get_replid (xs_repl (cn_xs c))) r\<rparr>)"
proof -
  obtain outs where m: "how = NeedMore" "length outs = length (hello p masterauth)" "list_all one_line outs"
    "cn_replica c'" "tx \<in> set (downstream_senders (xs_repl (cn_xs c')))"
    "cn_out c' = concat outs @ fullresync_line (get_replid (xs_repl (cn_xs c))) @ crlf
        @ (CHR ''$'' # show_nat (length get_empty_rdb_bytes)) @ crlf @ get_empty_rdb_bytes"
    using master_side [OF assms(1-3), of send tx pass clks] assms(4,7) by auto
  let ?h = "\<lparr>rp_buffer = [], rp_out = [], rp_reads = rs, rp_repl = r\<rparr>"
  have "ready ?h (concat outs @ fullresync_line (get_replid (xs_repl (cn_xs c))) @ crlf
        @ (CHR ''$'' # show_nat (length get_empty_rdb_bytes)) @ crlf @ get_empty_rdb_bytes)"
    using assms(8,9) m(6) by (simp add: ready_def arriving_def)
  from replica_side [OF m(2,3) this assms(5,6)] show ?thesis
    using m by (simp add: get_empty_rdb_bytes_def EMPTY_RDB_HEX_def)
qed

theorem handshake_completes_witness:
  "\<exists>c' h'. drain sample_platform queue_send (\<lambda>_ _. True) 9 (Some ''pw'') (\<lambda>_ i. 30 + i)
        (concat (map wire (hello 7000 (Some ''pw''))) @ wire (Psync ''?'' ''-1'')) (conn_new (Some ''pw'') sample_master) = (NeedMore, c')
     \<and> run_handshake (\<lambda>_ _. True) 7000 (Some ''pw'')
          \<lparr>rp_buffer = [], rp_out = [], rp_reads = [ReadOk (cn_out c')], rp_repl = new_replica ''m'' 6379\<rparr> = Some (Inr (), h')
     \<and> rp_buffer h' = []"
proof -
  let ?c = "conn_new (Some ''pw'') sample_master"
  have "length (show_u16 7000) \<le> 4" by (simp add: show_u16_def show_nat.simps)
  then have pl: "list_all (plain sample_platform) (hello 7000 (Some ''pw''))" "encodable sample_platform (command_value (Psync ''?'' ''-1''))"
    by (simp_all add: hello_def plain_def command_value_def sample_platform_def is_utf8_ascii byte_def)
  have c: "xs_topo (cn_xs ?c) = None" "cn_out ?c = []" "list_all solid (get_replid (xs_repl (cn_xs ?c)))"
    "get_replid (xs_repl (cn_xs ?c)) \<noteq> []"
    by (simp_all add: conn_new_def sample_master_def get_replid_def register_downstream_def new_master_def solid_def byte_def)
  obtain how c' where d: "drain sample_platform queue_send (\<lambda>_ _. True) 9 (Some ''pw'') (\<lambda>_ i. 30 + i)
      (concat (map wire (hello 7000 (Some ''pw''))) @ wire (Psync ''?'' ''-1'')) ?c = (how, c')" by (metis surj_pair)
  have "cn_out c' \<noteq> []"
    using master_side [OF pl c(1), of queue_send 9 "Some ''pw''" "\<lambda>_ i. 30 + i"] d by (auto simp: fullresync_line_def)
  then have "good_reads [ReadOk (cn_out c')]" by (simp add: good_reads_def)
  from handshake_completes [OF pl c d this] show ?thesis using d by auto
qed

end
