(* ===== verification/Server.thy ===== *)
theory Server
  imports Replica_Handshake
begin

text \<open>
  \<open>src/config.rs\<close> and \<open>src/server.rs\<close>: the configuration, the construction of the shared state,
  and the accept loop with the tasks it spawns.

  The running server is the record \<open>system\<close>: the state every task shares, the live connections
  with the state of their tasks, the permits left in the connection semaphore, the replica's link
  to its master, the expiry task, and whether the listener is open.  The scheduler of the runtime is not part of the
  program: what it can do is the type \<open>sys_event\<close>, one constructor for each thing a task may
  do next, and \<open>server_step\<close> is the effect.  A connection acts one iteration of its
  \<open>select!\<close> at a time, the expiry task one critical section at a time.

  The channels of \<open>mpsc::unbounded_channel\<close> are the parameter \<open>channels\<close>: creating one,
  sending, receiving, and dropping the receiver when the task of its connection ends.
\<close>

section \<open>Configuration\<close>

record server_config =
  cfg_host :: string
  cfg_port :: u16
  tcp_nodelay :: bool
  max_connections :: usize
  max_payload_size :: usize
  requirepass :: "string option"
  masterauth :: "string option"
  worker_threads :: usize
  shard_count :: usize
  cfg_max_memory_bytes :: usize
  ttl_interval_ms :: u64
  ttl_sample_size :: usize
  cfg_replicaof :: "(string \<times> u16) option"
  cluster_enabled :: bool
  cluster_node_id :: "string option"
  cluster_announce_ip :: string
  cluster_announce_port :: u16
  cluster_announce_bus_port :: u16
  cluster_slots :: "string option"

definition default_config :: server_config where
  "default_config =
     \<lparr>cfg_host = ''0.0.0.0'', cfg_port = 6379, tcp_nodelay = True, max_connections = 10000,
      max_payload_size = 512 * 1024 * 1024, requirepass = None, masterauth = None, worker_threads = 0,
      shard_count = 128, cfg_max_memory_bytes = 0, ttl_interval_ms = 100, ttl_sample_size = 20,
      cfg_replicaof = None, cluster_enabled = False, cluster_node_id = None,
      cluster_announce_ip = ''127.0.0.1'', cluster_announce_port = 6379,
      cluster_announce_bus_port = 16379, cluster_slots = None\<rparr>"

section \<open>Construction\<close>

record server =
  srv_config :: server_config
  srv_db :: db
  srv_repl :: repl_state
  srv_cluster :: "cluster_topology option"

text \<open>
  The topology of a cluster node; an error in the slot specification is only logged.  An index
  panic does not occur (\<open>add_slots_range_no_panic\<close>, \<open>assign_parts_no_panic\<close>).
\<close>

definition initial_topology :: "platform \<Rightarrow> server_config \<Rightarrow> cluster_topology" where
  "initial_topology P cfg =
     (let node_id = (case cluster_node_id cfg of
                       Some i \<Rightarrow> i
                     | None \<Rightarrow> node_id_hash P (cluster_announce_ip cfg @ '':'' @ show_u16 (cluster_announce_port cfg)));
          myself = node_new node_id (cluster_announce_ip cfg) (cluster_announce_port cfg)
                     (cluster_announce_bus_port cfg) True True;
          topo = topology_new P myself
      in case cluster_slots cfg of
           Some slots_spec \<Rightarrow> snd (parse_and_assign_slots node_id slots_spec topo)
         | None \<Rightarrow> snd (add_slots_range node_id 0 16383 topo))"

definition with_server_config :: "platform \<Rightarrow> server_config \<Rightarrow> repl_state \<Rightarrow> server" where
  "with_server_config P cfg repl =
     \<lparr>srv_config = cfg, srv_db = with_config (unat (shard_count cfg)) (cfg_max_memory_bytes cfg), srv_repl = repl,
      srv_cluster = (if cluster_enabled cfg then Some (initial_topology P cfg) else None)\<rparr>"

definition server_new :: "platform \<Rightarrow> u16 \<Rightarrow> repl_state \<Rightarrow> server" where
  "server_new P p repl = with_server_config P (default_config\<lparr>cfg_port := p\<rparr>) repl"

section \<open>The running server\<close>

record 'c channels =
  ch_send :: "'c sender"
  ch_open :: "conn_id \<Rightarrow> 'c \<Rightarrow> 'c"
  ch_recv :: "conn_id \<Rightarrow> 'c \<Rightarrow> (bytes \<times> 'c) option"
  ch_close :: "conn_id \<Rightarrow> 'c \<Rightarrow> 'c"

text \<open>The replica's task: not configured or not yet in contact, applying the stream, or ended.\<close>

datatype 'c link = LinkDown | Streaming "'c stream" | LinkEnded

text \<open>
  The task of \<open>run_active_ttl_eviction\<close>: asleep; about to scan shard \<open>i\<close> in the round that began at
  \<open>now\<close>; or between the scan of shard \<open>i\<close>, whose read lock it has released, and the removal of the
  keys it found, for which it takes the write lock.
\<close>

datatype ttl_task = TtlSleep | TtlScan instant nat | TtlRemove instant nat "(string \<times> usize) list"

text \<open>The next critical section of the task.\<close>

fun ttl_step :: "nat \<Rightarrow> ttl_task \<Rightarrow> db \<Rightarrow> ttl_task \<times> db" where
  "ttl_step sample TtlSleep d = (TtlSleep, d)"
| "ttl_step sample (TtlScan now i) d =
     (if i < length (shards d) then
        (let keys_to_remove = purge_scan now sample (shards d ! i)
         in if keys_to_remove \<noteq> [] then TtlRemove now i keys_to_remove else TtlScan now (Suc i), d)
      else (TtlSleep, d))"
| "ttl_step sample (TtlRemove now i keys) d = (TtlScan now (Suc i), snd (purge_remove i keys (0, d)))"

record 'c system =
  sy_xs :: "'c exec_state"
  sy_conns :: "(conn_id \<times> 'c conn) list"
  sy_permits :: nat
  sy_next :: conn_id
  sy_link :: "'c link"
  sy_ttl :: ttl_task
  sy_listening :: bool

datatype sys_event =
    Accepted
  | AcceptFailed
  | ClientEvent conn_id sink "nat \<Rightarrow> clock" conn_event
  | Delivery conn_id sink "nat \<Rightarrow> clock"
  | TtlElapsed instant
  | TtlStep
  | MasterContact bool sink "nat \<Rightarrow> clock" "read_result list"
  | MasterData sink "nat \<Rightarrow> clock" read_result
  | ShutdownSignal

text \<open>
  The start of \<open>run_with_shutdown\<close>.  \<open>bound\<close> tells whether the address parses and the listener binds to
  it; if not, the function returns the error before any task is spawned.
\<close>

definition server_start :: "bool \<Rightarrow> 'c \<Rightarrow> server \<Rightarrow> 'c system option" where
  "server_start bound ch0 srv =
     (if bound then
        Some \<lparr>sy_xs = \<lparr>xs_db = srv_db srv, xs_repl = srv_repl srv, xs_chan = ch0, xs_auth = False,
                       xs_topo = srv_cluster srv\<rparr>,
              sy_conns = [], sy_permits = unat (max_connections (srv_config srv)), sy_next = 0,
              sy_link = LinkDown, sy_ttl = TtlSleep, sy_listening = True\<rparr>
      else None)"

text \<open>A connection is accepted: \<open>try_acquire_owned\<close>, then the task is spawned, or the socket is dropped.\<close>

definition accept_client :: "'c channels \<Rightarrow> server_config \<Rightarrow> 'c system \<Rightarrow> 'c system" where
  "accept_client ch cfg s =
     (if sy_permits s = 0 then s
      else
        (let tx = sy_next s; x = (sy_xs s)\<lparr>xs_chan := ch_open ch tx (xs_chan (sy_xs s))\<rparr>
         in s\<lparr>sy_permits := sy_permits s - 1, sy_next := Suc tx, sy_xs := x,
              sy_conns := sy_conns s @ [(tx, conn_new (requirepass cfg) x)]\<rparr>))"

text \<open>The permit and the receiver are dropped with the task, whatever way it ends.\<close>

definition end_client :: "'c channels \<Rightarrow> conn_id \<Rightarrow> 'c system \<Rightarrow> 'c system" where
  "end_client ch tx s =
     s\<lparr>sy_conns := filter (\<lambda>p. fst p \<noteq> tx) (sy_conns s), sy_permits := Suc (sy_permits s),
       sy_xs := (sy_xs s)\<lparr>xs_chan := ch_close ch tx (xs_chan (sy_xs s))\<rparr>\<rparr>"

definition put_client :: "conn_id \<Rightarrow> 'c conn \<Rightarrow> 'c system \<Rightarrow> 'c system" where
  "put_client tx c s = s\<lparr>sy_conns := map (\<lambda>p. if fst p = tx then (tx, c) else p) (sy_conns s), sy_xs := cn_xs c\<rparr>"

text \<open>One iteration of connection \<open>tx\<close> on the shared state; \<open>is_authenticated\<close> is its own.\<close>

definition serve_client :: "platform \<Rightarrow> 'c channels \<Rightarrow> server_config \<Rightarrow> conn_id \<Rightarrow> sink \<Rightarrow> (nat \<Rightarrow> clock)
    \<Rightarrow> conn_event \<Rightarrow> 'c system \<Rightarrow> 'c system" where
  "serve_client P ch cfg tx sink clks ev s =
     (case map_of (sy_conns s) tx of
        None \<Rightarrow> s
      | Some c \<Rightarrow>
          (case conn_step P (ch_send ch) sink tx (requirepass cfg) (unat (max_payload_size cfg)) clks ev
                  (c\<lparr>cn_xs := (sy_xs s)\<lparr>xs_auth := xs_auth (cn_xs c)\<rparr>\<rparr>) of
             (Continue, c') \<Rightarrow> put_client tx c' s
           | (_, c') \<Rightarrow> end_client ch tx (put_client tx c' s)))"

text \<open>One read of the replica's streaming loop.\<close>

definition link_read :: "platform \<Rightarrow> 'c sender \<Rightarrow> sink \<Rightarrow> (nat \<Rightarrow> clock) \<Rightarrow> read_result \<Rightarrow> 'c stream \<Rightarrow> bool \<times> 'c stream" where
  "link_read P send sink clks r s =
     (case r of
        ReadFail _ \<Rightarrow> (False, s)
      | ReadOk d \<Rightarrow>
          if d = [] then (False, s)
          else (case stream_drain P send sink clks (st_buffer s @ d) (s\<lparr>st_buffer := st_buffer s @ d\<rparr>) of
                  (StreamStop, s') \<Rightarrow> (False, s')
                | (StreamPanic, s') \<Rightarrow> (False, s')
                | (_, s') \<Rightarrow> (True, s')))"

definition put_link :: "bool \<times> 'c stream \<Rightarrow> 'c system \<Rightarrow> 'c system" where
  "put_link r s = s\<lparr>sy_link := (if fst r then Streaming (snd r) else LinkEnded), sy_xs := st_xs (snd r)\<rparr>"

definition contact_master :: "platform \<Rightarrow> 'c channels \<Rightarrow> server_config \<Rightarrow> bool \<Rightarrow> sink \<Rightarrow> (nat \<Rightarrow> clock)
    \<Rightarrow> read_result list \<Rightarrow> 'c system \<Rightarrow> 'c system" where
  "contact_master P ch cfg connected sink clks reads s =
     (case (sy_link s, role (xs_repl (sy_xs s))) of
        (LinkDown, Replica _ _) \<Rightarrow>
          (case run_replica_loop P (ch_send ch) sink clks connected (cfg_port cfg) (masterauth cfg) reads (sy_xs s) of
             None \<Rightarrow> s
           | Some r \<Rightarrow> put_link r s)
      | _ \<Rightarrow> s)"

fun server_step :: "platform \<Rightarrow> 'c channels \<Rightarrow> server_config \<Rightarrow> sys_event \<Rightarrow> 'c system \<Rightarrow> 'c system" where
  "server_step P ch cfg Accepted s = (if sy_listening s then accept_client ch cfg s else s)"
| "server_step P ch cfg AcceptFailed s = s"
| "server_step P ch cfg (ClientEvent tx sink clks ev) s =
     (case ev of
        Replicated _ \<Rightarrow> s
      | Shutdown \<Rightarrow> if sy_listening s then s else serve_client P ch cfg tx sink clks ev s
      | _ \<Rightarrow> serve_client P ch cfg tx sink clks ev s)"
| "server_step P ch cfg (Delivery tx sink clks) s =
     (case map_of (sy_conns s) tx of
        None \<Rightarrow> s
      | Some c \<Rightarrow>
          if cn_replica c then
            (case ch_recv ch tx (xs_chan (sy_xs s)) of
               None \<Rightarrow> s
             | Some (data, q) \<Rightarrow>
                 serve_client P ch cfg tx sink clks (Replicated data) (s\<lparr>sy_xs := (sy_xs s)\<lparr>xs_chan := q\<rparr>\<rparr>))
          else s)"
| "server_step P ch cfg (TtlElapsed now) s =
     (case sy_ttl s of TtlSleep \<Rightarrow> s\<lparr>sy_ttl := TtlScan now 0\<rparr> | _ \<Rightarrow> s)"
| "server_step P ch cfg TtlStep s =
     (case ttl_step (unat (ttl_sample_size cfg)) (sy_ttl s) (xs_db (sy_xs s)) of
        (t, d) \<Rightarrow> s\<lparr>sy_ttl := t, sy_xs := (sy_xs s)\<lparr>xs_db := d\<rparr>\<rparr>)"
| "server_step P ch cfg (MasterContact connected sink clks reads) s = contact_master P ch cfg connected sink clks reads s"
| "server_step P ch cfg (MasterData sink clks r) s =
     (case sy_link s of
        Streaming st \<Rightarrow> put_link (link_read P (ch_send ch) sink clks r (st\<lparr>st_xs := sy_xs s\<rparr>)) s
      | _ \<Rightarrow> s)"
| "server_step P ch cfg ShutdownSignal s = s\<lparr>sy_listening := False\<rparr>"

text \<open>The systems a server can be in, under any interleaving of its tasks.\<close>

inductive sys_reach :: "platform \<Rightarrow> 'c channels \<Rightarrow> server \<Rightarrow> 'c system \<Rightarrow> bool" for P ch srv where
  start: "server_start True ch0 srv = Some s \<Longrightarrow> sys_reach P ch srv s"
| step: "sys_reach P ch srv s \<Longrightarrow> sys_reach P ch srv (server_step P ch (srv_config srv) ev s)"

end
