(* ===== verification/Server_Facts.thy ===== *)
theory Server_Facts
  imports Server
begin

text \<open>
  What each task of the server may do to the shared state (whom it registers for the stream, and that
  it keeps the structure of the storage, the error of the memory counter and the slot table), and that
  the critical sections of the expiry task make up one round when nothing happens in between.
\<close>

section \<open>What a task may do to the shared state\<close>

text \<open>The senders registered for the stream.\<close>

definition listeners :: "'c exec_state \<Rightarrow> conn_id set" where
  "listeners x = set (downstream_senders (xs_repl x))"

text \<open>
  A step of a task that may register the connections in \<open>A\<close>, and no other, and that leaves the
  observation \<open>al\<close> of the channels alone.
\<close>

definition moves :: "platform \<Rightarrow> ('c \<Rightarrow> 'a) \<Rightarrow> conn_id set \<Rightarrow> 'c exec_state \<Rightarrow> 'c exec_state \<Rightarrow> bool" where
  "moves P al A x x' \<longleftrightarrow> (\<forall>u. xs_off P u x \<longrightarrow> xs_off P u x') \<and> listeners x' \<subseteq> listeners x \<union> A
     \<and> al (xs_chan x') = al (xs_chan x)"

lemma moves_refl [simp]: "moves P al A x x"
  by (simp add: moves_def)

lemma moves_trans: "moves P al A x y \<Longrightarrow> moves P al B y z \<Longrightarrow> moves P al (A \<union> B) x z"
  by (auto simp: moves_def)

lemma moves_mono: "moves P al A x y \<Longrightarrow> A \<subseteq> B \<Longrightarrow> moves P al B x y"
  by (auto simp: moves_def)

lemma retain_send_subset: "set (fst (retain_send send raw txs c)) \<subseteq> set txs"
  by (induction txs arbitrary: c) (auto simp: case_prod_beta)

lemma listeners_simps [simp]:
  "listeners (x\<lparr>xs_db := d\<rparr>) = listeners x" "listeners (x\<lparr>xs_auth := a\<rparr>) = listeners x"
  "listeners (x\<lparr>xs_topo := t\<rparr>) = listeners x" "listeners (x\<lparr>xs_chan := q\<rparr>) = listeners x"
  "listeners (x\<lparr>xs_repl := register_downstream tx (xs_repl x)\<rparr>) = insert tx (listeners x)"
  by (auto simp: listeners_def register_downstream_def)

lemma listeners_propagate_raw: "listeners (propagate_raw send raw x) \<subseteq> listeners x"
  using retain_send_subset [of send _ "downstream_senders (xs_repl x)" "xs_chan x"]
  by (auto simp: propagate_raw_def propagate_downstream_def listeners_def case_prod_beta split: option.splits)

lemma listeners_cluster: "listeners (snd (exec_cluster P c x)) = listeners x"
  by (cases c) (simp_all add: exec_cluster_def case_prod_beta split: option.split)

lemma listeners_body: "listeners (snd (exec_body P send clk cmd raw x)) \<subseteq> listeners x"
  using listeners_propagate_raw [of send raw "x\<lparr>xs_db := _\<rparr>"]
  by (cases cmd) (simp_all add: exec_body_def exec_set_def exec_del_def Let_def case_prod_beta listeners_cluster)

section \<open>Connections\<close>

lemma xs_off_repl [simp]:
  "xs_off P u (x\<lparr>xs_repl := r\<rparr>) = xs_off P u x" "xs_off P u (x\<lparr>xs_chan := q\<rparr>) = xs_off P u x"
  by (simp_all add: xs_off_def)

text \<open>A step of connection \<open>tx\<close> registers at most itself, and only on becoming a replica's.\<close>

definition conn_moves :: "platform \<Rightarrow> ('c \<Rightarrow> 'a) \<Rightarrow> conn_id \<Rightarrow> 'c conn \<Rightarrow> 'c conn \<Rightarrow> bool" where
  "conn_moves P al tx c c' \<longleftrightarrow> moves P al (if cn_replica c' then {tx} else {}) (cn_xs c) (cn_xs c')
     \<and> (cn_replica c \<longrightarrow> cn_replica c')"

lemma conn_moves_same: "cn_xs c' = cn_xs c \<Longrightarrow> cn_replica c' = cn_replica c \<Longrightarrow> conn_moves P al tx c c'"
  by (simp add: conn_moves_def)

lemma conn_moves_trans:
  assumes "conn_moves P al tx c c1" "conn_moves P al tx c1 c2"
  shows "conn_moves P al tx c c2"
proof -
  have "moves P al ((if cn_replica c1 then {tx} else {}) \<union> (if cn_replica c2 then {tx} else {})) (cn_xs c) (cn_xs c2)"
    using assms moves_trans unfolding conn_moves_def by blast
  then have "moves P al (if cn_replica c2 then {tx} else {}) (cn_xs c) (cn_xs c2)"
    by (rule moves_mono) (use assms(2) in \<open>auto simp: conn_moves_def\<close>)
  then show ?thesis using assms by (simp add: conn_moves_def)
qed

lemma moves_count_bytes [simp]: "moves P al A x (st_xs (count_bytes n s)) = moves P al A x (st_xs s)"
  by (simp add: count_bytes_def Let_def moves_def listeners_def)

text \<open>The handshake registers nobody.\<close>

definition keeps_listeners :: "phase \<Rightarrow> bool" where
  "keeps_listeners f \<longleftrightarrow> (\<forall>h r h'. f h = Some (r, h') \<longrightarrow> downstream_senders (rp_repl h') = downstream_senders (rp_repl h))"

lemma keeps_and_then: "keeps_listeners f \<Longrightarrow> keeps_listeners g \<Longrightarrow> keeps_listeners (and_then f g)"
  by (fastforce simp: keeps_listeners_def and_then_def split: option.splits prod.splits sum.splits)

lemma keeps_phases:
  "keeps_listeners (\<lambda>h. Some (Inr (), h))" "keeps_listeners (send_bytes sink data)" "keeps_listeners read_simple_response"
  "keeps_listeners read_fullresync_response" "keeps_listeners read_rdb_file"
  by (auto simp: keeps_listeners_def send_bytes_def read_simple_response_def read_fullresync_response_def read_rdb_file_def
      set_replid_def Let_def split: option.splits sum.splits prod.splits if_splits)

lemma keeps_handshake: "keeps_listeners (run_handshake sink my_port auth)"
  by (auto simp: run_handshake_def intro!: keeps_and_then keeps_phases split: option.split)

section \<open>The tasks\<close>

text \<open>
  What every task guarantees to the others, for any observation of the channels that sending a
  message leaves alone (which receivers are alive, for instance).
\<close>

locale task_effects =
  fixes P :: platform and send :: "'c sender" and al :: "'c \<Rightarrow> 'a"
  assumes send_al: "al (snd (send tx raw c)) = al c"
begin

lemma retain_send_al: "al (snd (retain_send send raw txs c)) = al c"
proof (induction txs arbitrary: c)
  case (Cons tx txs)
  then show ?case using send_al [of tx raw c] by (auto simp: case_prod_beta)
qed simp

lemma propagate_raw_al: "al (xs_chan (propagate_raw send raw x)) = al (xs_chan x)"
  using retain_send_al by (auto simp: propagate_raw_def propagate_downstream_def case_prod_beta split: option.splits)

lemma exec_body_al: "al (xs_chan (snd (exec_body P send clk cmd raw x))) = al (xs_chan x)"
proof (cases cmd)
  case (Cluster c)
  then show ?thesis by (cases c) (simp_all add: exec_body_def exec_cluster_def case_prod_beta split: option.split)
qed (simp_all add: exec_body_def exec_set_def exec_del_def Let_def case_prod_beta propagate_raw_al)

lemma moves_execute: "moves P al A x (snd (execute P send clk cmd raw pass x))"
  using listeners_body [of P send clk cmd raw x] xs_off_execute [of P _ x send clk cmd raw pass]
    exec_body_al [of clk cmd raw x]
  by (cases cmd) (auto simp: moves_def execute_def split: option.splits if_splits)

lemma conn_moves_handle_value:
  assumes "handle_value P send sink tx pass clk v raw c = (fl, c')"
  shows "conn_moves P al tx c c'"
proof (cases rule: handle_value_cases [where v = v and P = P and send = send and sink = sink and tx = tx
      and pass = pass and clk = clk and raw = raw and c = c])
  case (psync i off)
  then show ?thesis using assms
    by (auto simp: frame_defs conn_moves_def moves_def split: if_splits)
next
  case (cmd cmd)
  let ?e = "execute P send clk cmd (Some raw) pass (cn_xs c)"
  have "cn_xs c' \<in> {cn_xs c, snd ?e}" and "cn_replica c' = cn_replica c"
    using assms cmd by (auto simp: frame_defs split: option.splits prod.splits outcome.splits if_splits)
  then show ?thesis using moves_execute [of _ "cn_xs c" clk cmd "Some raw" pass]
    by (auto simp: conn_moves_def)
qed (use assms in \<open>auto simp: write_then_def next_frame_def conn_moves_same split: if_splits\<close>)

lemma conn_moves_drain:
  assumes "drain P send sink tx pass clks buf c = (how, c')"
  shows "conn_moves P al tx c c'"
  using assms
proof (induction rule: drain_induct)
  case (bad buf c e r how c')
  then show ?case
    by (intro conn_moves_same) (auto simp: drain.simps [of _ _ _ _ _ _ buf] Let_def split: if_splits)
next
  case (break buf c v rest how c')
  then show ?case using conn_moves_handle_value [OF break(3)] by (simp add: conn_moves_def)
next
  case (step buf c v rest c1 how c')
  then show ?case using conn_moves_handle_value [OF step(3)] conn_moves_trans [of P al tx c c1 c']
    by (simp add: conn_moves_def)
qed (simp_all add: conn_moves_same)

lemma conn_moves_step:
  assumes "conn_step P send sink tx pass mx clks ev c = (fl, c')"
  shows "conn_moves P al tx c c'"
proof -
  have drained: "conn_moves P al tx c c'"
    if "conn_drain P send sink tx pass clks c2 = (fl, c')" "cn_xs c2 = cn_xs c" "cn_replica c2 = cn_replica c" for c2
  proof -
    have "conn_moves P al tx c2 c'"
      using that(1) conn_moves_drain by (fastforce simp: conn_drain_def split: prod.splits drained.splits)
    then show ?thesis using that(2,3) by (simp add: conn_moves_def)
  qed
  show ?thesis
    using assms
    by (cases ev) (auto simp: conn_step_def Let_def conn_moves_same intro: drained split: if_splits)
qed

lemma moves_stream_frame:
  assumes "stream_frame P send sink clk v n s = (b, s')" 
  shows "moves P al A (st_xs s) (st_xs s')"
proof (cases "from_value v")
  case (Inr cmd)
  let ?x = "(st_xs s)\<lparr>xs_auth := True, xs_topo := None\<rparr>"
  let ?e = "snd (execute P send clk cmd None None ?x)"
  have "xs_off P u (st_xs s) \<Longrightarrow> xs_off P u ?x" for u by (simp add: xs_off_def)
  then have m: "moves P al A (st_xs s) ((st_xs s)\<lparr>xs_db := xs_db ?e, xs_repl := xs_repl ?e, xs_chan := xs_chan ?e\<rparr>)"
    using moves_execute [of A ?x clk cmd None None]
    by (auto simp: moves_def xs_off_def listeners_def)
  show ?thesis
  proof (cases "\<exists>args. cmd = ReplConf args")
    case True
    then show ?thesis using assms Inr by (auto simp: stream_frame_def Let_def split: if_splits)
  next
    case False
    then have "s' = count_bytes n (s\<lparr>st_xs := (st_xs s)\<lparr>xs_db := xs_db ?e, xs_repl := xs_repl ?e, xs_chan := xs_chan ?e\<rparr>\<rparr>)"
      using assms Inr by (cases cmd) (auto simp: stream_frame_def Let_def)
    then show ?thesis using m by simp
  qed
qed (use assms in \<open>auto simp: stream_frame_def\<close>)

lemma moves_stream_drain:
  assumes "stream_drain P send sink clks buf s = (how, s')"
  shows "moves P al A (st_xs s) (st_xs s')"
  using assms
proof (induction rule: stream_drain_induct)
  case (stop buf s v rest s')
  then show ?case using moves_stream_frame [OF stop(3)] by simp
next
  case (step buf s v rest s1 how s')
  then show ?case using moves_stream_frame [OF step(3), of A] moves_trans [of P al A "st_xs s" "st_xs s1" A] by simp
qed simp_all


lemma moves_stream_loop: "stream_loop P send sink clks rs s = (b, s') \<Longrightarrow> moves P al A (st_xs s) (st_xs s')"
proof (induction rs arbitrary: s rule: length_induct)
  case (1 rs)
  obtain how s1 where d: "stream_drain P send sink clks (st_buffer s) s = (how, s1)" by (metis surj_pair)
  note m = moves_stream_drain [OF d, of A]
  show ?case
  proof (cases "\<exists>d rs'. rs = ReadOk d # rs' \<and> d \<noteq> [] \<and> how \<in> {StreamMore, StreamCorrupt}")
    case True
    then obtain d' rs' where r: "rs = ReadOk d' # rs'" "d' \<noteq> []" and h: "how \<in> {StreamMore, StreamCorrupt}" by blast
    have "stream_loop P send sink clks rs' (s1\<lparr>st_buffer := st_buffer s1 @ d'\<rparr>) = (b, s')"
      using "1.prems" d r h by (auto simp: stream_loop.simps [of _ _ _ _ rs])
    then have "moves P al A (st_xs s1) (st_xs s')" 
      using spec [OF "1.IH", of rs'] r(1) by fastforce
    then show ?thesis using moves_trans [OF m, of A "st_xs s'"] by simp
  next
    case False
    then have "s' = s1" using "1.prems" d
      by (auto simp: stream_loop.simps [of _ _ _ _ rs] split: streamed.splits list.splits read_result.splits if_splits)
    then show ?thesis using m by simp
  qed
qed

lemma moves_replica_loop:
  assumes "run_replica_loop P send sink clks connected my_port auth reads x = Some (b, st)"
  shows "moves P al A x (st_xs st)"
proof -
  let ?h0 = "\<lparr>rp_buffer = [], rp_out = [], rp_reads = reads, rp_repl = xs_repl x\<rparr>"
  let ?st = "\<lambda>h. \<lparr>st_buffer = rp_buffer h, st_out = rp_out h, st_total = 0, st_frames = 0, st_xs = x\<lparr>xs_repl := rp_repl h\<rparr>\<rparr>"
  have m: "moves P al A x (x\<lparr>xs_repl := rp_repl h\<rparr>)" if "run_handshake sink my_port auth ?h0 = Some (r, h)" for r h
    using that keeps_handshake [of sink my_port auth] by (force simp: keeps_listeners_def moves_def listeners_def)
  consider "st = ?st ?h0" | r h where "run_handshake sink my_port auth ?h0 = Some (r, h)" "st = ?st h"
    | r h where "run_handshake sink my_port auth ?h0 = Some (r, h)" "stream_loop P send sink clks (rp_reads h) (?st h) = (b, st)"
    using assms by (auto simp: run_replica_loop_def Let_def split: if_splits option.splits prod.splits sum.splits)
  then show ?thesis
  proof cases
    case 3
    then show ?thesis using moves_stream_loop [OF 3(2), of A] moves_trans [OF m [OF 3(1)]] by force
  qed (use m in simp_all)
qed

lemma moves_link_read:
  assumes "link_read P send sink clks r s = (b, s')"
  shows "moves P al A (st_xs s) (st_xs s')"
proof (cases r)
  case (ReadOk d)
  obtain how s1 where d: "stream_drain P send sink clks (st_buffer s @ d) (s\<lparr>st_buffer := st_buffer s @ d\<rparr>) = (how, s1)"
    by (metis surj_pair)
  then show ?thesis using assms ReadOk moves_stream_drain [OF d, of A]
    by (cases how) (auto simp: link_read_def split: if_splits)
qed (use assms in \<open>simp add: link_read_def\<close>)

end

interpretation shared: task_effects P send "\<lambda>_. ()" for P send
  by unfold_locales simp

text \<open>Reading one by one, as \<open>server_step\<close> does, is what the streaming loop does on the list of its reads.\<close>

lemma stream_loop_snoc:
  "stream_loop P send sink clks rs s = (True, s') \<Longrightarrow>
     stream_loop P send sink clks (rs @ [r]) s = link_read P send sink clks r s'"
proof (induction P send sink clks rs s rule: stream_loop.induct)
  case (1 P send sink clks rs s)
  obtain how s1 where d: "stream_drain P send sink clks (st_buffer s) s = (how, s1)" by (metis surj_pair)
  have h: "how \<in> {StreamMore, StreamCorrupt}"
    using "1.prems" d by (cases how) (auto simp: stream_loop.simps [of _ _ _ _ rs])
  show ?case
  proof (cases rs)
    case Nil
    then have "s' = s1" using "1.prems" d h by (auto simp: stream_loop.simps [of _ _ _ _ rs])
    then show ?thesis using d h Nil
      by (auto simp: stream_loop.simps [of _ _ _ _ "[r]"] stream_loop.simps [of _ _ _ _ "[]"] link_read_def
          split: read_result.split streamed.split prod.split)
  next
    case (Cons q rs')
    then obtain d' where q: "q = ReadOk d'" "d' \<noteq> []"
      using "1.prems" d h by (cases q) (auto simp: stream_loop.simps [of _ _ _ _ rs] split: if_splits)
    have "stream_loop P send sink clks rs' (s1\<lparr>st_buffer := st_buffer s1 @ d'\<rparr>) = (True, s')"
      using "1.prems" d q h Cons by (auto simp: stream_loop.simps [of _ _ _ _ rs])
    then have "stream_loop P send sink clks (rs' @ [r]) (s1\<lparr>st_buffer := st_buffer s1 @ d'\<rparr>) = link_read P send sink clks r s'"
      using "1.IH"(1,2) [OF d [symmetric]] q h Cons by auto
    then show ?thesis using d q h Cons by (auto simp: stream_loop.simps [of _ _ _ _ "q # rs' @ [r]"])
  qed
qed

section \<open>An expiry round without interruption\<close>

text \<open>The steps of the task, with nothing in between, are one round of \<open>run_active_ttl_eviction\<close>.\<close>

abbreviation ttl_run :: "nat \<Rightarrow> nat \<Rightarrow> ttl_task \<times> db \<Rightarrow> ttl_task \<times> db" where
  "ttl_run sample n \<equiv> (\<lambda>(t, d). ttl_step sample t d) ^^ n"

lemma purge_remove_count: "snd (purge_remove i ks (n, d)) = snd (purge_remove i ks (m, d))"
proof (induction ks arbitrary: n m d)
  case (Cons p ks)
  obtain k sz where "p = (k, sz)" by (cases p)
  then show ?case using Cons by simp
qed simp

lemma purge_remove_length: "length (shards (snd (purge_remove i ks s))) = length (shards (snd s))"
  by (induction i ks s rule: purge_remove.induct) auto

lemma purge_shard_length: "length (shards (snd (purge_shard now sample i s))) = length (shards (snd s))"
  by (simp add: purge_shard_def Let_def purge_remove_length)

text \<open>One shard takes one step or two.\<close>

lemma ttl_shard:
  assumes "i < length (shards d)"
  shows "\<exists>n. ttl_run sample n (TtlScan now i, d) = (TtlScan now (Suc i), snd (purge_shard now sample i (c, d)))"
proof (cases "purge_scan now sample (shards d ! i) = []")
  case True
  then have "ttl_run sample 1 (TtlScan now i, d) = (TtlScan now (Suc i), snd (purge_shard now sample i (c, d)))"
    using assms by (simp add: purge_shard_def)
  then show ?thesis by blast
next
  case False
  then have "ttl_run sample 2 (TtlScan now i, d) = (TtlScan now (Suc i), snd (purge_shard now sample i (c, d)))"
    using assms purge_remove_count [of i _ 0 d c] by (simp add: purge_shard_def Let_def numeral_2_eq_2)
  then show ?thesis by blast
qed

lemma ttl_shards:
  "i \<le> length (shards d) \<Longrightarrow>
     \<exists>n. ttl_run sample n (TtlScan now i, d) = (TtlSleep, snd (fold (purge_shard now sample) [i..<length (shards d)] (c, d)))"
proof (induction "length (shards d) - i" arbitrary: i c d)
  case 0
  then have "ttl_run sample 1 (TtlScan now i, d) = (TtlSleep, snd (fold (purge_shard now sample) [i..<length (shards d)] (c, d)))"
    by simp
  then show ?case by blast
next
  case (Suc m)
  then have i: "i < length (shards d)" by simp
  obtain c' d' where p: "purge_shard now sample i (c, d) = (c', d')" by (cases "purge_shard now sample i (c, d)")
  then have len: "length (shards d') = length (shards d)" using purge_shard_length [of now sample i "(c, d)"] by simp
  obtain n where n: "ttl_run sample n (TtlScan now i, d) = (TtlScan now (Suc i), d')"
    using ttl_shard [OF i, of sample now c] p by auto
  obtain n' where "ttl_run sample n' (TtlScan now (Suc i), d')
      = (TtlSleep, snd (fold (purge_shard now sample) [Suc i..<length (shards d')] (c', d')))"
    using Suc.hyps(1) [of d' "Suc i" c'] Suc.hyps(2) len i by (metis Suc_diff_Suc Suc_inject Suc_leI)
  then have "ttl_run sample (n' + n) (TtlScan now i, d)
      = (TtlSleep, snd (fold (purge_shard now sample) [i..<length (shards d)] (c, d)))"
    using n p len by (simp add: funpow_add upt_conv_Cons [OF i])
  then show ?case by blast
qed

lemma server_ttl_run:
  "(server_step P ch cfg TtlStep ^^ n) s =
     (case ttl_run (unat (ttl_sample_size cfg)) n (sy_ttl s, xs_db (sy_xs s)) of
        (t, d) \<Rightarrow> s\<lparr>sy_ttl := t, sy_xs := (sy_xs s)\<lparr>xs_db := d\<rparr>\<rparr>)"
  by (induction n) (simp_all add: case_prod_beta)

lemma ttl_round_alone:
  assumes "sy_ttl s = TtlSleep"
  shows "\<exists>n. (server_step P ch cfg TtlStep ^^ n) (server_step P ch cfg (TtlElapsed now) s)
    = s\<lparr>sy_xs := (sy_xs s)\<lparr>xs_db := run_active_ttl_eviction [now] (unat (ttl_sample_size cfg)) (xs_db (sy_xs s))\<rparr>\<rparr>"
proof -
  obtain n where "ttl_run (unat (ttl_sample_size cfg)) n (TtlScan now 0, xs_db (sy_xs s))
      = (TtlSleep, run_active_ttl_eviction [now] (unat (ttl_sample_size cfg)) (xs_db (sy_xs s)))"
    using ttl_shards [of 0 "xs_db (sy_xs s)" "unat (ttl_sample_size cfg)" now 0]
    by (auto simp: run_active_ttl_eviction_def purge_expired_sample_def)
  then have "(server_step P ch cfg TtlStep ^^ n) (server_step P ch cfg (TtlElapsed now) s)
    = s\<lparr>sy_ttl := TtlSleep, sy_xs := (sy_xs s)\<lparr>xs_db := run_active_ttl_eviction [now] (unat (ttl_sample_size cfg)) (xs_db (sy_xs s))\<rparr>\<rparr>"
    using assms by (simp add: server_ttl_run)
  then show ?thesis using assms by (intro exI [of _ n]) (cases s, simp)
qed

end
