(* ===== verification/Server_Invariant.thy ===== *)
theory Server_Invariant
  imports Server_Facts
begin

text \<open>
  The invariant of the running server and its preservation by every event, hence under every
  interleaving of the tasks; the connection limit and the shutdown.
\<close>

section \<open>The invariant\<close>

text \<open>Between two iterations a connection holds no complete frame.\<close>

definition idle :: "platform \<Rightarrow> 'c conn \<Rightarrow> bool" where
  "idle P c \<longleftrightarrow> cn_buffer c = [] \<or> fst (parse P (cn_buffer c)) = Done None"

definition client_ok :: "platform \<Rightarrow> server_config \<Rightarrow> 'c system \<Rightarrow> conn_id \<times> 'c conn \<Rightarrow> bool" where
  "client_ok P cfg s p \<longleftrightarrow> fst p < sy_next s \<and> idle P (snd p) \<and> length (cn_buffer (snd p)) \<le> unat (max_payload_size cfg)
     \<and> (fst p \<in> listeners (sy_xs s) \<longrightarrow> cn_replica (snd p))"

text \<open>The memory counter is off by \<open>u\<close>.\<close>

definition sys_inv :: "platform \<Rightarrow> server_config \<Rightarrow> usize \<Rightarrow> 'c system \<Rightarrow> bool" where
  "sys_inv P cfg u s \<longleftrightarrow> xs_off P u (sy_xs s)
     \<and> sy_permits s + length (sy_conns s) = unat (max_connections cfg)
     \<and> distinct (map fst (sy_conns s)) \<and> (\<forall>p \<in> set (sy_conns s). client_ok P cfg s p)
     \<and> (\<forall>tx \<in> listeners (sy_xs s). tx < sy_next s)"

lemma drain_protocol_error:
  assumes "drain P send sink tx pass clks buf c = (how, c')" "how = ProtocolError"
  shows "cn_buffer c' = []"
  using assms
proof (induction rule: drain_induct)
  case (bad buf c e r how c')
  then show ?case by (auto simp: drain.simps [of _ _ _ _ _ _ buf] Let_def split: if_splits)
next
  case (break buf c v rest how c')
  then show ?case
    by (cases rule: handle_value_cases [where v = v and P = P and send = send and sink = sink and tx = tx
        and pass = pass and clk = "clks (cn_frames c)" and raw = "take (length buf - length rest) buf"
        and c = "c\<lparr>cn_buffer := rest, cn_frames := Suc (cn_frames c)\<rparr>"])
       (auto simp: frame_defs split: if_splits option.splits prod.splits outcome.splits)
qed simp_all

lemma conn_drain_idle: "conn_drain P send sink tx pass clks c = (Continue, c') \<Longrightarrow> idle P c'"
  using drain_buffer drain_protocol_error
  by (fastforce simp: conn_drain_def idle_def split: prod.splits drained.splits)

lemma conn_step_idle:
  "conn_step P send sink tx pass mx clks ev c = (Continue, c') \<Longrightarrow> idle P c \<Longrightarrow> idle P c'"
  by (cases ev) (auto simp: conn_step_def Let_def dest: conn_drain_idle split: if_splits)

text \<open>Draining an idle connection does nothing.\<close>

lemma idle_conn_drain: "idle P c \<Longrightarrow> conn_drain P send sink tx pass clks c = (Continue, c)"
proof (cases "cn_buffer c = []")
  case True
  then show ?thesis by (simp add: conn_drain_def drain_cases(1))
next
  case False
  moreover assume "idle P c"
  ultimately obtain r where "parse P (cn_buffer c) = (Done None, r)" by (cases "parse P (cn_buffer c)") (auto simp: idle_def)
  then show ?thesis using False by (simp add: conn_drain_def drain_cases(2))
qed

lemma length_filter_fst:
  "distinct (map fst xs) \<Longrightarrow> (k, v) \<in> set xs \<Longrightarrow> Suc (length (filter (\<lambda>p. fst p \<noteq> k) xs)) = length xs"
proof (induction xs)
  case (Cons p xs)
  show ?case
  proof (cases "fst p = k")
    case True
    then have "filter (\<lambda>p. fst p \<noteq> k) xs = xs" using Cons.prems(1) by (force simp: filter_id_conv image_iff)
    then show ?thesis using True by simp
  next
    case False
    then show ?thesis using Cons by auto
  qed
qed simp

lemma distinct_filter_fst: "distinct (map fst xs) \<Longrightarrow> distinct (map fst (filter Q xs))"
  by (induction xs) auto

lemma map_fst_put: "map fst (map (\<lambda>p. if fst p = k then (k, v) else p) xs) = map fst xs"
  by (induction xs) auto

lemma filter_put: "filter (\<lambda>p. fst p \<noteq> k) (map (\<lambda>p. if fst p = k then (k, v) else p) xs) = filter (\<lambda>p. fst p \<noteq> k) xs"
  by (induction xs) auto

text \<open>A step on the shared state that registers nobody.\<close>

lemma sys_inv_shared:
  assumes "sys_inv P cfg u s" "moves P (\<lambda>_. ()) {} (sy_xs s) x"
  shows "sys_inv P cfg u (s\<lparr>sy_xs := x\<rparr>)"
  using assms by (auto simp: sys_inv_def moves_def client_ok_def)

lemma sys_inv_put:
  assumes "sys_inv P cfg u s" "(tx, c) \<in> set (sy_conns s)" "xs_off P u (cn_xs c')"
    "listeners (cn_xs c') \<subseteq> listeners (sy_xs s) \<union> (if cn_replica c' then {tx} else {})"
    "cn_replica c \<longrightarrow> cn_replica c'" "length (cn_buffer c') \<le> unat (max_payload_size cfg)" "idle P c'"
  shows "sys_inv P cfg u (put_client tx c' s)"
proof -
  have "tx < sy_next s" using assms(1,2) by (auto simp: sys_inv_def client_ok_def)
  moreover have "tx \<in> listeners (cn_xs c') \<longrightarrow> cn_replica c'"
  proof -
    have "client_ok P cfg s (tx, c)" using assms(1,2) by (auto simp: sys_inv_def)
    then show ?thesis using assms(4,5) by (auto simp: client_ok_def split: if_splits)
  qed
  moreover have "listeners (cn_xs c') \<subseteq> insert tx (listeners (sy_xs s))" using assms(4) by (auto split: if_splits)
  ultimately show ?thesis using assms(1,3,6,7)
    by (auto simp: sys_inv_def put_client_def client_ok_def map_fst_put simp del: map_map)
qed

lemma sys_inv_end:
  assumes "sys_inv P cfg u s" "(tx, c) \<in> set (sy_conns s)" "xs_off P u (cn_xs c')"
    "listeners (cn_xs c') \<subseteq> listeners (sy_xs s) \<union> A" "A \<subseteq> {tx}"
  shows "sys_inv P cfg u (end_client ch tx (put_client tx c' s))"
proof -
  have "tx < sy_next s" using assms(1,2) by (auto simp: sys_inv_def client_ok_def)
  moreover have "filter (\<lambda>p. fst p \<noteq> tx) (sy_conns (put_client tx c' s)) = filter (\<lambda>p. fst p \<noteq> tx) (sy_conns s)"
    by (simp add: put_client_def filter_put)
  moreover have "Suc (length (filter (\<lambda>p. fst p \<noteq> tx) (sy_conns s))) = length (sy_conns s)"
    using assms(1,2) length_filter_fst by (auto simp: sys_inv_def)
  moreover have "listeners (cn_xs c') \<subseteq> insert tx (listeners (sy_xs s))" using assms(4,5) by auto
  moreover from this have "\<forall>p \<in> set (sy_conns s). fst p \<noteq> tx \<longrightarrow> fst p \<in> listeners (cn_xs c') \<longrightarrow> cn_replica (snd p)"
    using assms(1) by (fastforce simp: sys_inv_def client_ok_def)
  ultimately show ?thesis using assms(1,3)
    by (auto simp: sys_inv_def end_client_def client_ok_def distinct_filter_fst) (auto simp: put_client_def)
qed

lemma sys_inv_serve:
  assumes "sys_inv P cfg u s"
  shows "sys_inv P cfg u (serve_client P ch cfg tx sink clks ev s)"
proof (cases "map_of (sy_conns s) tx")
  case (Some c)
  let ?c = "c\<lparr>cn_xs := (sy_xs s)\<lparr>xs_auth := xs_auth (cn_xs c)\<rparr>\<rparr>"
  obtain fl c' where step: "conn_step P (ch_send ch) sink tx (requirepass cfg) (unat (max_payload_size cfg)) clks ev ?c = (fl, c')"
    by (metis surj_pair)
  have c: "(tx, c) \<in> set (sy_conns s)" using Some by (rule map_of_SomeD)
  have m: "xs_off P u (cn_xs c')" "listeners (cn_xs c') \<subseteq> listeners (sy_xs s) \<union> (if cn_replica c' then {tx} else {})"
      "cn_replica c \<longrightarrow> cn_replica c'"
    using shared.conn_moves_step [OF step] assms by (auto simp: conn_moves_def moves_def sys_inv_def)
  have "length (cn_buffer ?c) \<le> unat (max_payload_size cfg)" "idle P ?c"
    using assms c by (auto simp: sys_inv_def client_ok_def idle_def)
  then have b: "fl = Continue \<Longrightarrow> length (cn_buffer c') \<le> unat (max_payload_size cfg)" "fl = Continue \<Longrightarrow> idle P c'"
    using conn_step_buffer conn_step_idle step by blast+
  show ?thesis
  proof (cases "fl = Continue")
    case True
    then show ?thesis using sys_inv_put [OF assms c m b] step Some by (simp add: serve_client_def)
  next
    case False
    then have "serve_client P ch cfg tx sink clks ev s = end_client ch tx (put_client tx c' s)"
      using step Some by (cases fl) (simp_all add: serve_client_def)
    then show ?thesis using sys_inv_end [OF assms c m(1,2)] by (simp split: if_splits)
  qed
qed (use assms in \<open>simp add: serve_client_def\<close>)

lemma sys_inv_accept: "sys_inv P cfg u s \<Longrightarrow> sys_inv P cfg u (accept_client ch cfg s)"
  by (force simp: sys_inv_def accept_client_def Let_def client_ok_def conn_new_def idle_def)

lemma sys_inv_link:
  assumes "sys_inv P cfg u s" "moves P (\<lambda>_. ()) {} (sy_xs s) (st_xs (snd r))"
  shows "sys_inv P cfg u (put_link r s)"
  using assms by (auto simp: sys_inv_def moves_def client_ok_def put_link_def)

text \<open>Every event but a removal of the expiry task leaves the counter off by as much as it was.\<close>

lemma sys_inv_step:
  assumes "sys_inv P cfg u s" "\<nexists>now i keys. ev = TtlStep \<and> sy_ttl s = TtlRemove now i keys"
  shows "sys_inv P cfg u (server_step P ch cfg ev s)"
proof (cases ev)
  case Accepted
  then show ?thesis using assms(1) by (simp add: sys_inv_accept)
next
  case (ClientEvent tx sink clks e)
  then show ?thesis using assms(1) by (simp add: sys_inv_serve split: conn_event.split)
next
  case (Delivery tx sink clks)
  have "sys_inv P cfg u (s\<lparr>sy_xs := (sy_xs s)\<lparr>xs_chan := q\<rparr>\<rparr>)" for q
    by (rule sys_inv_shared [OF assms(1)]) (simp add: moves_def)
  then show ?thesis using assms(1) Delivery by (simp add: sys_inv_serve split: option.split)
next
  case (TtlElapsed now)
  then show ?thesis using assms(1) by (auto simp: sys_inv_def client_ok_def split: ttl_task.split)
next
  case TtlStep
  then have "snd (ttl_step n (sy_ttl s) (xs_db (sy_xs s))) = xs_db (sy_xs s)" for n
    using assms(2) by (cases "sy_ttl s") (simp_all add: Let_def)
  then show ?thesis using assms(1) TtlStep by (auto simp: sys_inv_def client_ok_def case_prod_beta)
next
  case (MasterContact connected sink clks reads)
  have "moves P (\<lambda>_. ()) {} (sy_xs s) (st_xs (snd r))"
    if "run_replica_loop P (ch_send ch) sink clks connected (cfg_port cfg) (masterauth cfg) reads (sy_xs s) = Some r" for r
    using that shared.moves_replica_loop by (metis prod.collapse)
  then show ?thesis using assms(1) MasterContact
    by (auto simp: contact_master_def sys_inv_link split: link.split server_role.split option.split)
next
  case (MasterData sink clks r)
  have "moves P (\<lambda>_. ()) {} (sy_xs s) (st_xs (snd (link_read P (ch_send ch) sink clks r (st\<lparr>st_xs := sy_xs s\<rparr>))))" for st
    using shared.moves_link_read [of P "ch_send ch" sink clks r "st\<lparr>st_xs := sy_xs s\<rparr>"]
    by (metis prod.collapse stream.select_convs(5) stream.surjective stream.update_convs(5))
  then show ?thesis using assms(1) MasterData by (simp add: sys_inv_link split: link.split)
next
  case ShutdownSignal
  then show ?thesis using assms(1) by (auto simp: sys_inv_def client_ok_def)
qed (use assms(1) in simp)

text \<open>A removal may change it, and nothing else.\<close>

lemma sys_inv_ttl:
  assumes "sys_inv P cfg u s"
  shows "\<exists>u'. sys_inv P cfg u' (server_step P ch cfg TtlStep s)"
proof (cases "\<exists>now i keys. sy_ttl s = TtlRemove now i keys")
  case True
  then obtain now i keys where t: "sy_ttl s = TtlRemove now i keys" by blast
  let ?d = "snd (purge_remove i keys (0, xs_db (sy_xs s)))"
  have "storage_ok P (xs_db (sy_xs s))" using assms by (simp add: sys_inv_def xs_off_def db_inv_settle)
  then have "storage_ok P ?d" using storage_ok_purge_remove [of P "(0, xs_db (sy_xs s))"] by simp
  then have "xs_off P (drift ?d) ((sy_xs s)\<lparr>xs_db := ?d\<rparr>)"
    using assms by (simp add: sys_inv_def xs_off_def db_inv_settle)
  then have "sys_inv P cfg (drift ?d) (server_step P ch cfg TtlStep s)"
    using assms t by (auto simp: sys_inv_def client_ok_def)
  then show ?thesis by blast
next
  case False
  then show ?thesis using sys_inv_step [OF assms, of TtlStep ch] by blast
qed

lemma sys_inv_any [inv_intros]: "sys_inv P cfg u s \<Longrightarrow> \<exists>u'. sys_inv P cfg u' (server_step P ch cfg ev s)"
  by (cases "ev = TtlStep") (auto simp del: server_step.simps intro: sys_inv_step sys_inv_ttl)

section \<open>The start\<close>

lemma topo_inv_initial: "permutes (bucket_order P) \<Longrightarrow> topo_inv P (initial_topology P cfg)"
  by (simp add: initial_topology_def Let_def topo_inv_new topo_inv_ops split: option.split)

lemma sys_inv_start:
  assumes "permutes (bucket_order P)" "unat (shard_count cfg) \<le> 2 ^ 63" "downstream_senders repl = []"
    "server_start bound ch0 (with_server_config P cfg repl) = Some s"
  shows "sys_inv P cfg 0 s"
  using assms topo_inv_initial [OF assms(1), of cfg]
  by (auto simp: server_start_def with_server_config_def sys_inv_def listeners_def xs_off_def db_inv_with_config
      split: if_splits)

lemma sys_reach_inv:
  assumes "sys_reach P ch (with_server_config P cfg repl) s" "permutes (bucket_order P)" "unat (shard_count cfg) \<le> 2 ^ 63" "downstream_senders repl = []"
  shows "\<exists>u. sys_inv P cfg u s"
  using assms
proof (induction rule: sys_reach.induct)
  case (start ch0 s)
  show ?case using sys_inv_start [OF start(2,3,4) start(1)] by blast
next
  case (step s ev)
  then obtain u where u: "sys_inv P cfg u s" by blast
  have c: "srv_config (with_server_config P cfg repl) = cfg" by (simp add: with_server_config_def)
  show ?case unfolding c by (rule sys_inv_any [OF u])
qed

section \<open>Shutdown\<close>

text \<open>The shutdown signal reaches every connection in turn.\<close>

definition shutdown_all :: "platform \<Rightarrow> 'c channels \<Rightarrow> server_config \<Rightarrow> sink \<Rightarrow> (nat \<Rightarrow> clock) \<Rightarrow> conn_id list \<Rightarrow> 'c system \<Rightarrow> 'c system" where
  "shutdown_all P ch cfg sink clks txs s = fold (\<lambda>tx. server_step P ch cfg (ClientEvent tx sink clks Shutdown)) txs s"

lemma shutdown_one:
  assumes "\<not> sy_listening s" "(tx, c) \<in> set (sy_conns s)"
  shows "\<exists>x. server_step P ch cfg (ClientEvent tx sink clks Shutdown) s
     = s\<lparr>sy_conns := filter (\<lambda>p. fst p \<noteq> tx) (sy_conns s), sy_permits := Suc (sy_permits s), sy_xs := x\<rparr>
     \<and> xs_db x = xs_db (sy_xs s)"
proof -
  obtain c' where "map_of (sy_conns s) tx = Some c'" using assms(2) by (cases "map_of (sy_conns s) tx") (auto simp: map_of_eq_None_iff image_iff)
  then show ?thesis using assms(1)
    by (simp add: serve_client_def conn_step_def end_client_def put_client_def filter_put) (intro exI conjI, rule refl, simp)
qed

lemma shutdown_all_effect:
  assumes "\<not> sy_listening s" "distinct (map fst (sy_conns s))"
  shows "sy_conns (shutdown_all P ch cfg sink clks (map fst (sy_conns s)) s) = []
    \<and> sy_permits (shutdown_all P ch cfg sink clks (map fst (sy_conns s)) s) = sy_permits s + length (sy_conns s)
    \<and> \<not> sy_listening (shutdown_all P ch cfg sink clks (map fst (sy_conns s)) s)
    \<and> xs_db (sy_xs (shutdown_all P ch cfg sink clks (map fst (sy_conns s)) s)) = xs_db (sy_xs s)"
  using assms
proof (induction "sy_conns s" arbitrary: s)
  case Nil
  then show ?case by (simp add: shutdown_all_def flip: Nil(1))
next
  case (Cons p ps)
  obtain tx c where p: "p = (tx, c)" by (cases p)
  let ?s1 = "server_step P ch cfg (ClientEvent tx sink clks Shutdown) s"
  have d: "tx \<notin> fst ` set ps" "distinct (map fst ps)" using Cons.prems(2) Cons.hyps(2) [symmetric] p by auto
  then have "filter (\<lambda>q. fst q \<noteq> tx) (sy_conns s) = ps"
    using Cons.hyps(2) [symmetric] p by (force simp: filter_id_conv image_iff)
  moreover have "(tx, c) \<in> set (sy_conns s)" using Cons.hyps(2) [symmetric] p by simp
  ultimately obtain x where s1: "?s1 = s\<lparr>sy_conns := ps, sy_permits := Suc (sy_permits s), sy_xs := x\<rparr>" "xs_db x = xs_db (sy_xs s)"
    using shutdown_one [OF Cons.prems(1), of tx c P ch cfg sink clks] by auto
  have "shutdown_all P ch cfg sink clks (map fst (sy_conns s)) s = shutdown_all P ch cfg sink clks (map fst ps) ?s1"
    using Cons.hyps(2) [symmetric] p by (simp add: shutdown_all_def del: server_step.simps)
  then show ?case using Cons.hyps(1) [of ?s1] Cons.prems(1) d(2) s1 Cons.hyps(2) [symmetric] by simp
qed

section \<open>Properties\<close>

text \<open>
  C4. The running server.  Whatever the clients, the master, the timer and the scheduler do, after any number of
  events (an iteration of a connection, a critical section of the expiry task, a read of the replica's link) the storage is well formed (every key once and in its shard, every entry with its size) and so is the
  slot table; at most \<open>max_connections\<close> connections are served, each under its own number, and the permits
  left are the rest; no connection buffers more than \<open>max_payload_size\<close> bytes; and the replication
  stream is only sent to connections that issued \<open>PSYNC\<close>.  The counter of the memory used need not be
  exact, since an expiry round releases the lock between scan and removal: but no event other than
  such a removal changes by how much it is off.
\<close>

theorem server_invariant:
  assumes "sys_reach P ch (with_server_config P cfg repl) s" "permutes (bucket_order P)" "unat (shard_count cfg) \<le> 2 ^ 63" "downstream_senders repl = []"
  shows "storage_ok P (xs_db (sy_xs s)) \<and> (case xs_topo (sy_xs s) of None \<Rightarrow> True | Some t \<Rightarrow> topo_inv P t)
    \<and> length (sy_conns s) + sy_permits s = unat (max_connections cfg) \<and> distinct (map fst (sy_conns s))
    \<and> (\<forall>(tx, c) \<in> set (sy_conns s). length (cn_buffer c) \<le> unat (max_payload_size cfg)
         \<and> (tx \<in> set (downstream_senders (xs_repl (sy_xs s))) \<longrightarrow> cn_replica c))
    \<and> ((\<exists>now i keys. ev = TtlStep \<and> sy_ttl s = TtlRemove now i keys)
       \<or> drift (xs_db (sy_xs (server_step P ch cfg ev s))) = drift (xs_db (sy_xs s)))"
proof -
  obtain u where u: "sys_inv P cfg u s" using sys_reach_inv [OF assms] by blast
  then have "drift (xs_db (sy_xs s)) = u" by (simp add: sys_inv_def xs_off_def db_inv_settle)
  moreover have "drift (xs_db (sy_xs (server_step P ch cfg ev s))) = u"
    if "\<nexists>now i keys. ev = TtlStep \<and> sy_ttl s = TtlRemove now i keys"
    using sys_inv_step [OF u that, of ch] by (simp add: sys_inv_def xs_off_def db_inv_settle)
  ultimately show ?thesis using u
    by (auto simp: sys_inv_def xs_off_def db_inv_settle client_ok_def listeners_def simp del: server_step.simps)
qed

definition queue_channels :: "queues channels" where
  "queue_channels = \<lparr>ch_send = queue_send,
     ch_open = (\<lambda>tx q. ((fst q)(tx := []), (snd q)(tx := True))),
     ch_recv = (\<lambda>tx q. case fst q tx of [] \<Rightarrow> None | d # ds \<Rightarrow> Some (d, ((fst q)(tx := ds), snd q))),
     ch_close = (\<lambda>tx q. (fst q, (snd q)(tx := False)))\<rparr>"

definition sample_config :: server_config where
  "sample_config = default_config\<lparr>max_connections := 1, cluster_enabled := True\<rparr>"

definition sample_server :: "queues system" where
  "sample_server = the (server_start True (\<lambda>_. [], \<lambda>_. False) (with_server_config sample_platform sample_config (new_master None)))"

lemma sample_server_start:
  "server_start True (\<lambda>_. [], \<lambda>_. False) (with_server_config sample_platform sample_config (new_master None)) = Some sample_server"
  by (simp add: sample_server_def server_start_def)

text \<open>Two clients knock at a server with one permit, and an expiry round begins.\<close>

theorem server_invariant_witness:
  "\<exists>s. s = server_step sample_platform queue_channels sample_config (TtlElapsed 5)
         (server_step sample_platform queue_channels sample_config Accepted
           (server_step sample_platform queue_channels sample_config Accepted sample_server))
     \<and> length (sy_conns s) + sy_permits s = 1 \<and> storage_ok sample_platform (xs_db (sy_xs s))
     \<and> drift (xs_db (sy_xs (server_step sample_platform queue_channels sample_config Accepted s))) = drift (xs_db (sy_xs s))"
proof -
  let ?srv = "with_server_config sample_platform sample_config (new_master None)"
  define s where "s = server_step sample_platform queue_channels sample_config (TtlElapsed 5)
      (server_step sample_platform queue_channels sample_config Accepted
        (server_step sample_platform queue_channels sample_config Accepted sample_server))"
  have c: "srv_config ?srv = sample_config" by (simp add: with_server_config_def)
  have r: "sys_reach sample_platform queue_channels ?srv s"
    using sys_reach.step [of sample_platform queue_channels ?srv] sys_reach.start [OF sample_server_start] unfolding c s_def by blast
  have cfg: "unat (shard_count sample_config) \<le> 2 ^ 63" "unat (max_connections sample_config) = 1"
    "downstream_senders (new_master None) = []"
    by (simp_all add: sample_config_def default_config_def new_master_def)
  from server_invariant [OF r permutes_sample cfg(1,3), of Accepted] cfg(2)
  have "length (sy_conns s) + sy_permits s = 1 \<and> storage_ok sample_platform (xs_db (sy_xs s))
     \<and> drift (xs_db (sy_xs (server_step sample_platform queue_channels sample_config Accepted s))) = drift (xs_db (sy_xs s))"
    by (simp del: server_step.simps)
  then show ?thesis unfolding s_def by blast
qed

text \<open>
  C19. Shutdown.  Once the shutdown signal has been received no client is accepted any more, and when the
  signal has reached the connections all of them are closed, every permit is back, and the data is
  as it was.
\<close>

theorem shutdown_complete:
  assumes "sys_reach P ch (with_server_config P cfg repl) s" "permutes (bucket_order P)" "unat (shard_count cfg) \<le> 2 ^ 63" "downstream_senders repl = []"
  shows "\<exists>s'. shutdown_all P ch cfg sink clks (map fst (sy_conns s)) (server_step P ch cfg ShutdownSignal s) = s'
    \<and> sy_conns s' = [] \<and> sy_permits s' = unat (max_connections cfg) \<and> xs_db (sy_xs s') = xs_db (sy_xs s)
    \<and> server_step P ch cfg Accepted s' = s'"
  using shutdown_all_effect [of "server_step P ch cfg ShutdownSignal s" P ch cfg sink clks] sys_reach_inv [OF assms]
  by (auto simp: sys_inv_def)

theorem shutdown_complete_witness:
  "\<exists>s'. shutdown_all sample_platform queue_channels sample_config (\<lambda>_ _. True) (\<lambda>_ i. i)
           (map fst (sy_conns (server_step sample_platform queue_channels sample_config Accepted sample_server)))
           (server_step sample_platform queue_channels sample_config ShutdownSignal
             (server_step sample_platform queue_channels sample_config Accepted sample_server)) = s'
     \<and> sy_conns s' = []"
proof -
  let ?srv = "with_server_config sample_platform sample_config (new_master None)"
  have c: "srv_config ?srv = sample_config" by (simp add: with_server_config_def)
  have "sys_reach sample_platform queue_channels ?srv (server_step sample_platform queue_channels sample_config Accepted sample_server)"
    using sys_reach.step [of sample_platform queue_channels ?srv] sys_reach.start [OF sample_server_start] unfolding c by blast
  from shutdown_complete [OF this permutes_sample] show ?thesis by (fastforce simp: new_master_def sample_config_def default_config_def)
qed

text \<open>
  C20. The start in cluster mode.  A node configured with a specification that spells valid ranges owns
  exactly the slots of the ranges; without a specification it owns all 16384 slots.
\<close>

theorem startup_slots:
  assumes "permutes (bucket_order P)" "cluster_enabled cfg" "\<forall>(a, b) \<in> set rs. a \<le> b \<and> b < HASH_SLOTS"
    "case cluster_slots cfg of None \<Rightarrow> rs = [(0, 16383)] | Some spec \<Rightarrow> spec = join '','' (map show_range rs)"
  shows "\<exists>t. srv_cluster (with_server_config P cfg repl) = Some t \<and> topo_inv P t
    \<and> (\<forall>s. owns_slot t s \<longleftrightarrow> (\<exists>(a, b) \<in> set rs. a \<le> s \<and> s \<le> b))"
proof -
  define i where "i = (case cluster_node_id cfg of Some i \<Rightarrow> i
    | None \<Rightarrow> node_id_hash P (cluster_announce_ip cfg @ '':'' @ show_u16 (cluster_announce_port cfg)))"
  define me where "me = node_new i (cluster_announce_ip cfg) (cluster_announce_port cfg) (cluster_announce_bus_port cfg) True True"
  let ?base = "topology_new P me" and ?t = "initial_topology P cfg"
  have t0: "topo_inv P ?base" "hm_get (nodes ?base) i \<noteq> None" "myself_id ?base = i" "\<And>s. get_node_for_slot ?base s = None"
    using topo_inv_new [OF assms(1), of me] hm_get_insert [OF assms(1) hm_wf_Nil, of i me i]
    by (simp_all add: topology_new_def me_def node_new_def get_node_for_slot_def del: unat_HASH_SLOTS)
  have "?t = snd (parse_and_assign_slots i (join '','' (map show_range rs)) ?base)"
  proof (cases "cluster_slots cfg")
    case None
    then show ?thesis using assms(4) parse_and_assign_show_ranges [OF t0(1,2) assms(3)]
      by (simp add: initial_topology_def Let_def i_def me_def)
  next
    case (Some spec)
    then show ?thesis using assms(4) by (simp add: initial_topology_def Let_def i_def me_def)
  qed
  then have "myself_id ?t = i" "\<And>s. topo.owner_id ?t s = (if \<exists>(a, b) \<in> set rs. a \<le> s \<and> s \<le> b then Some i else None)"
    using parse_and_assign_show_ranges [OF t0(1,2) assms(3)] topo.assign_ranges [OF t0(1,2) assms(3)] t0(3,4)
    by (auto simp: Let_def topo.owner_id_def)
  then have "owns_slot ?t s \<longleftrightarrow> (\<exists>(a, b) \<in> set rs. a \<le> s \<and> s \<le> b)" for s
    by (simp add: topo.owns_owner_id)
  then show ?thesis using assms(2) topo_inv_initial [OF assms(1)] by (simp add: with_server_config_def)
qed

theorem startup_slots_witness:
  "\<exists>t. srv_cluster (with_server_config sample_platform sample_config (new_master None)) = Some t \<and> owns_slot t 16383"
proof -
  have "cluster_enabled sample_config" "cluster_slots sample_config = None" by (simp_all add: sample_config_def default_config_def)
  then show ?thesis
    using startup_slots [OF permutes_sample, of sample_config "[(0, 16383)]" "new_master None"] by (force simp: HASH_SLOTS_def)
qed

end
