(* ===== verification/Server_Replication.thy ===== *)
theory Server_Replication
  imports Server_Invariant
begin

text \<open>
  Replication through the running server: the channel of every live connection stays open, what is
  queued for a replica is written to its socket in order, and a replica that reads from that
  socket follows the master.
\<close>

section \<open>Channels\<close>

text \<open>
  What tokio documents of the receiving side: a new channel is empty and alive, messages are received in
  the order they were sent, dropping the receiver ends the channel, and no operation on one
  channel affects another.
\<close>

definition fifo_laws :: "'c channels \<Rightarrow> ('c \<Rightarrow> conn_id \<Rightarrow> bytes list) \<Rightarrow> ('c \<Rightarrow> conn_id \<Rightarrow> bool) \<Rightarrow> bool" where
  "fifo_laws ch pending alive \<longleftrightarrow> channel_laws (ch_send ch) pending alive
     \<and> (\<forall>tx q. pending (ch_open ch tx q) = (pending q)(tx := []) \<and> alive (ch_open ch tx q) = (alive q)(tx := True))
     \<and> (\<forall>tx q. alive (ch_close ch tx q) = (alive q)(tx := False))
     \<and> (\<forall>tx q. ch_recv ch tx q = None \<longleftrightarrow> pending q tx = [])
     \<and> (\<forall>tx q d q'. ch_recv ch tx q = Some (d, q') \<longrightarrow>
          pending q tx = d # pending q' tx \<and> (\<forall>ty. ty \<noteq> tx \<longrightarrow> pending q' ty = pending q ty) \<and> alive q' = alive q)"

lemma fifo_lawsD:
  assumes "fifo_laws ch pending alive"
  shows "channel_laws (ch_send ch) pending alive" "alive (ch_open ch tx q) = (alive q)(tx := True)"
    "alive (ch_close ch tx q) = (alive q)(tx := False)"
    "pending q tx = [] \<Longrightarrow> ch_recv ch tx q = None"
    "ch_recv ch tx q = Some (d, q') \<Longrightarrow> alive q' = alive q \<and> pending q tx = d # pending q' tx"
  using assms by (auto simp: fifo_laws_def)

lemma fifo_recv:
  assumes "fifo_laws ch pending alive" "pending q tx = d # ds"
  obtains q' where "ch_recv ch tx q = Some (d, q')" "pending q' tx = ds" "alive q' = alive q"
proof -
  have "ch_recv ch tx q \<noteq> None" using assms by (auto simp: fifo_laws_def)
  then obtain d' q' where "ch_recv ch tx q = Some (d', q')" by (cases "ch_recv ch tx q") auto
  then show ?thesis using that assms(2) fifo_lawsD(5) [OF assms(1)] by fastforce
qed

lemma fifo_queue_channels: "fifo_laws queue_channels fst snd"
  by (auto simp: fifo_laws_def queue_channels_def queue_send_laws split: list.splits)

section \<open>Live connections have live channels\<close>

definition live_clients :: "('c \<Rightarrow> conn_id \<Rightarrow> bool) \<Rightarrow> 'c system \<Rightarrow> bool" where
  "live_clients alive s \<longleftrightarrow> (\<forall>p \<in> set (sy_conns s). alive (xs_chan (sy_xs s)) (fst p))"

lemma fifo_task_effects: "fifo_laws ch pending alive \<Longrightarrow> task_effects (ch_send ch) alive"
  by unfold_locales (simp add: fun_eq_iff channel_lawsD(2) [OF fifo_lawsD(1)])

lemma live_serve:
  assumes "fifo_laws ch pending alive" "live_clients alive s"
  shows "live_clients alive (serve_client P ch cfg tx sink clks ev s)"
proof (cases "map_of (sy_conns s) tx")
  case (Some c)
  let ?c = "c\<lparr>cn_xs := (sy_xs s)\<lparr>xs_auth := xs_auth (cn_xs c)\<rparr>\<rparr>"
  obtain fl c' where step: "conn_step P (ch_send ch) sink tx (requirepass cfg) (unat (max_payload_size cfg)) clks ev ?c = (fl, c')"
    by (metis surj_pair)
  have "alive (xs_chan (cn_xs c')) = alive (xs_chan (sy_xs s))"
    using task_effects.conn_moves_step [OF fifo_task_effects [OF assms(1)] step] by (simp add: conn_moves_def moves_def)
  then have "live_clients alive (put_client tx c' s)"
    using assms(2) by (auto simp: live_clients_def put_client_def)
  moreover have "live_clients alive (end_client ch tx z)" if "live_clients alive z" for z
    using that fifo_lawsD(3) [OF assms(1)] by (auto simp: live_clients_def end_client_def)
  ultimately show ?thesis using step Some by (cases fl) (simp_all add: serve_client_def)
qed (use assms in \<open>simp add: serve_client_def\<close>)

lemma live_step:
  assumes "fifo_laws ch pending alive" "live_clients alive s"
  shows "live_clients alive (server_step P ch cfg ev s)"
proof -
  have same: "live_clients alive (put_link r s)" if "alive (xs_chan (st_xs (snd r))) = alive (xs_chan (sy_xs s))" for r
    using that assms(2) by (simp add: live_clients_def put_link_def)
  note task = fifo_task_effects [OF assms(1)]
  show ?thesis
  proof (cases ev)
    case Accepted
    then show ?thesis using assms(2) fifo_lawsD(2) [OF assms(1)]
      by (auto simp: live_clients_def accept_client_def Let_def)
  next
    case (ClientEvent tx sink clks e)
    then show ?thesis using assms live_serve by (auto split: conn_event.split)
  next
    case (Delivery tx sink clks)
    have "live_clients alive (s\<lparr>sy_xs := (sy_xs s)\<lparr>xs_chan := q\<rparr>\<rparr>)"
      if "ch_recv ch tx (xs_chan (sy_xs s)) = Some (d, q)" for d q
      using fifo_lawsD(5) [OF assms(1) that] assms(2) by (simp add: live_clients_def)
    then show ?thesis using assms Delivery live_serve by (auto split: option.split)
  next
    case (MasterContact connected sink clks reads)
    have "alive (xs_chan (st_xs (snd r))) = alive (xs_chan (sy_xs s))"
      if "run_replica_loop P (ch_send ch) sink clks connected (cfg_port cfg) (masterauth cfg) reads (sy_xs s) = Some r" for r
      using task_effects.moves_replica_loop [OF task, of _ sink clks connected "cfg_port cfg" "masterauth cfg" reads "sy_xs s"] that
      by (cases r) (fastforce simp: moves_def)
    then show ?thesis using assms(2) MasterContact same
      by (auto simp: contact_master_def split: link.split server_role.split option.split)
  next
    case (MasterData sink clks r)
    have "alive (xs_chan (st_xs (snd (link_read P (ch_send ch) sink clks r (st\<lparr>st_xs := sy_xs s\<rparr>))))) = alive (xs_chan (sy_xs s))" for st
    proof -
      obtain b st' where l: "link_read P (ch_send ch) sink clks r (st\<lparr>st_xs := sy_xs s\<rparr>) = (b, st')" by (metis surj_pair)
      show ?thesis using task_effects.moves_link_read [OF task l] l by (simp add: moves_def)
    qed
    then show ?thesis using assms(2) MasterData same by (simp split: link.split)
  qed (use assms(2) in \<open>simp_all add: live_clients_def case_prod_beta split: ttl_task.split\<close>)
qed

lemma sys_reach_live:
  assumes "sys_reach P ch srv s" "fifo_laws ch pending alive"
  shows "live_clients alive s"
  using assms(1)
proof (induction rule: sys_reach.induct)
  case (start ch0 s)
  then show ?case by (auto simp: server_start_def live_clients_def)
next
  case (step s ev)
  then show ?case using live_step [OF assms(2)] by blast
qed

section \<open>Delivery\<close>

lemma map_of_put:
  "map_of (map (\<lambda>p. if fst p = k then (k, v) else p) xs) k' =
     (if k' = k then map_option (\<lambda>_. v) (map_of xs k) else map_of xs k')"
  by (induction xs) auto

lemma delivery_step:
  assumes "map_of (sy_conns s) tx = Some c" "cn_replica c" "idle P c" "ch_recv ch tx (xs_chan (sy_xs s)) = Some (d, q)"
  shows "\<exists>c'. server_step P ch cfg (Delivery tx (\<lambda>_ _. True) clks) s = put_client tx c' (s\<lparr>sy_xs := (sy_xs s)\<lparr>xs_chan := q\<rparr>\<rparr>)
    \<and> cn_out c' = cn_out c @ d \<and> cn_replica c' \<and> idle P c'
    \<and> cn_xs c' = (sy_xs s)\<lparr>xs_chan := q, xs_auth := xs_auth (cn_xs c)\<rparr>"
proof -
  let ?c = "c\<lparr>cn_xs := (sy_xs s)\<lparr>xs_chan := q, xs_auth := xs_auth (cn_xs c)\<rparr>, cn_out := cn_out c @ d\<rparr>"
  have "idle P ?c" using assms(3) by (simp add: idle_def)
  then show ?thesis using assms(1,2,4) idle_conn_drain [of P ?c "ch_send ch"]
    by (intro exI [of _ ?c]) (simp add: serve_client_def conn_step_def)
qed

lemma deliveries:
  assumes "fifo_laws ch pending alive" "map_of (sy_conns s) tx = Some c" "cn_replica c" "idle P c"
    "pending (xs_chan (sy_xs s)) tx = ds"
  shows "\<exists>s' c'. (server_step P ch cfg (Delivery tx (\<lambda>_ _. True) clks) ^^ length ds) s = s'
    \<and> map_of (sy_conns s') tx = Some c' \<and> cn_out c' = cn_out c @ concat ds \<and> pending (xs_chan (sy_xs s')) tx = []
    \<and> xs_db (sy_xs s') = xs_db (sy_xs s) \<and> xs_repl (sy_xs s') = xs_repl (sy_xs s)"
  using assms(2-)
proof (induction ds arbitrary: s c)
  case (Cons d ds)
  obtain q where q: "ch_recv ch tx (xs_chan (sy_xs s)) = Some (d, q)" "pending q tx = ds"
    using fifo_recv [OF assms(1) Cons.prems(4)] by metis
  let ?s1 = "server_step P ch cfg (Delivery tx (\<lambda>_ _. True) clks) s"
  obtain c1 where c1: "?s1 = put_client tx c1 (s\<lparr>sy_xs := (sy_xs s)\<lparr>xs_chan := q\<rparr>\<rparr>)"
    "cn_out c1 = cn_out c @ d" "cn_replica c1" "idle P c1" "cn_xs c1 = (sy_xs s)\<lparr>xs_chan := q, xs_auth := xs_auth (cn_xs c)\<rparr>"
    using delivery_step [OF Cons.prems(1-3) q(1)] by blast
  have "map_of (sy_conns ?s1) tx = Some c1" "sy_xs ?s1 = cn_xs c1"
    using Cons.prems(1) by (simp_all add: c1(1) put_client_def map_of_put del: server_step.simps)
  with Cons.IH [of ?s1 c1] c1 q(2) show ?case
    by (simp add: funpow_Suc_right del: server_step.simps funpow.simps)
qed simp

section \<open>A client writes\<close>

lemma client_pipeline:
  assumes "map_of (sy_conns s) tx = Some c" "cn_buffer c = []" "xs_topo (sy_xs s) = None"
    "list_all (plain P) cmds" "cmds \<noteq> []" "length (concat (map wire cmds)) \<le> unat (max_payload_size cfg)"
    "exec_run P (ch_send ch) (requirepass cfg) (requests clks (cn_frames c) cmds) ((sy_xs s)\<lparr>xs_auth := xs_auth (cn_xs c)\<rparr>) = (outs, x)"
  shows "server_step P ch cfg (ClientEvent tx (\<lambda>_ _. True) clks (ReadData (concat (map wire cmds)))) s =
    put_client tx (c\<lparr>cn_frames := cn_frames c + length cmds, cn_xs := x, cn_out := cn_out c @ concat (map reply_bytes outs)\<rparr>) s"
proof -
  let ?b = "concat (map wire cmds)"
  let ?c = "c\<lparr>cn_xs := (sy_xs s)\<lparr>xs_auth := xs_auth (cn_xs c)\<rparr>\<rparr>"
  have "?b \<noteq> []" using assms(5) by (cases cmds) simp_all
  moreover have "drain P (ch_send ch) (\<lambda>_ _. True) tx (requirepass cfg) clks ?b (?c\<lparr>cn_buffer := ?b\<rparr>) =
      (NeedMore, ?c\<lparr>cn_frames := cn_frames c + length cmds, cn_xs := x, cn_out := cn_out c @ concat (map reply_bytes outs)\<rparr>)"
    using drain_pipeline [OF assms(4), of ?c "[]" "ch_send ch" "requirepass cfg" clks outs x tx] assms(2,3,7)
    by (simp add: drain_buffer_irrelevant)
  ultimately show ?thesis using assms(1,2,6)
    by (simp add: serve_client_def conn_step_def conn_drain_def)
qed

lemma client_psync:
  assumes "map_of (sy_conns s) tx = Some c" "cn_buffer c = []" "encodable P (command_value (Psync ''?'' ''-1''))"
    "length (wire (Psync ''?'' ''-1'')) \<le> unat (max_payload_size cfg)"
  shows "\<exists>c'. server_step P ch cfg (ClientEvent tx (\<lambda>_ _. True) clks (ReadData (wire (Psync ''?'' ''-1'')))) s = put_client tx c' s
    \<and> cn_replica c'
    \<and> cn_xs c' = (sy_xs s)\<lparr>xs_auth := xs_auth (cn_xs c), xs_repl := register_downstream tx (xs_repl (sy_xs s))\<rparr>"
proof -
  let ?w = "wire (Psync ''?'' ''-1'')"
  let ?c = "c\<lparr>cn_xs := (sy_xs s)\<lparr>xs_auth := xs_auth (cn_xs c)\<rparr>, cn_buffer := ?w\<rparr>"
  have "is_utf8 ''?''" "is_utf8 ''-1''" by (simp_all add: is_utf8_ascii byte_def)
  from drain_psync [OF this assms(3), of "ch_send ch" tx "requirepass cfg" clks ?c] show ?thesis using assms(1,2,4)
    by (simp add: serve_client_def conn_step_def conn_drain_def) (intro exI conjI, rule refl, simp_all)
qed

section \<open>Properties\<close>

text \<open>A master with two clients, the first of which has asked for the stream.\<close>

definition pair_config :: server_config where
  "pair_config = default_config\<lparr>max_connections := 2\<rparr>"

definition pair_start :: "queues system" where
  "pair_start = the (server_start True (\<lambda>_. [], \<lambda>_. False) (with_server_config sample_platform pair_config (new_master None)))"

definition pair_server :: "queues system" where
  "pair_server = server_step sample_platform queue_channels pair_config
     (ClientEvent 0 (\<lambda>_ _. True) (\<lambda>_ i. i) (ReadData (wire (Psync ''?'' ''-1''))))
     (server_step sample_platform queue_channels pair_config Accepted
       (server_step sample_platform queue_channels pair_config Accepted pair_start))"

lemma pair_config_simps [simp]:
  "requirepass pair_config = None" "unat (max_payload_size pair_config) = 536870912"
  "unat (shard_count pair_config) \<le> 2 ^ 63" "unat (max_connections pair_config) = 2"
  by (simp_all add: pair_config_def default_config_def)

lemma pair_reach: "sys_reach sample_platform queue_channels (with_server_config sample_platform pair_config (new_master None)) pair_server"
proof -
  let ?srv = "with_server_config sample_platform pair_config (new_master None)"
  have c: "srv_config ?srv = pair_config" by (simp add: with_server_config_def)
  have "server_start True (\<lambda>_. [], \<lambda>_. False) ?srv = Some pair_start" by (simp add: pair_start_def server_start_def)
  from sys_reach.start [OF this] show ?thesis
    using sys_reach.step [of sample_platform queue_channels ?srv] unfolding pair_server_def c by blast
qed

lemma pair_accepted:
  "\<exists>s. server_step sample_platform queue_channels pair_config Accepted
         (server_step sample_platform queue_channels pair_config Accepted pair_start) = s
     \<and> map fst (sy_conns s) = [0, 1] \<and> (\<forall>c \<in> snd ` set (sy_conns s). cn_buffer c = [] \<and> xs_auth (cn_xs c))
     \<and> xs_db (sy_xs s) = with_config 128 0 \<and> xs_repl (sy_xs s) = new_master None \<and> xs_topo (sy_xs s) = None
     \<and> fst (xs_chan (sy_xs s)) 0 = []"
  by (simp add: pair_start_def server_start_def with_server_config_def accept_client_def Let_def queue_channels_def conn_new_def)
     (simp add: pair_config_def default_config_def)

lemma pair_server_facts:
  "\<exists>r c. map_of (sy_conns pair_server) 0 = Some r \<and> cn_replica r
     \<and> map_of (sy_conns pair_server) 1 = Some c \<and> cn_buffer c = [] \<and> xs_auth (cn_xs c)
     \<and> xs_db (sy_xs pair_server) = with_config 128 0 \<and> xs_repl (sy_xs pair_server) = register_downstream 0 (new_master None)
     \<and> xs_topo (sy_xs pair_server) = None \<and> fst (xs_chan (sy_xs pair_server)) 0 = []"
proof -
  define s where "s = server_step sample_platform queue_channels pair_config Accepted
         (server_step sample_platform queue_channels pair_config Accepted pair_start)"
  obtain a b where conns: "sy_conns s = [(0, a), (1, b)]"
    and f: "cn_buffer a = []" "cn_buffer b = []" "xs_auth (cn_xs a)" "xs_auth (cn_xs b)" "xs_db (sy_xs s) = with_config 128 0"
      "xs_repl (sy_xs s) = new_master None" "xs_topo (sy_xs s) = None" "fst (xs_chan (sy_xs s)) 0 = []"
    using pair_accepted unfolding s_def [symmetric] by (auto simp: map_eq_Cons_conv)
  have "encodable sample_platform (command_value (Psync ''?'' ''-1''))"
    by (simp add: command_value_def sample_platform_def is_utf8_ascii byte_def)
  moreover have "length (wire (Psync ''?'' ''-1'')) \<le> 536870912"
    by (simp add: wire_def serialize_encode command_value_def show_int_def show_nat_digits_small show_nat.simps [of "Suc 0"])
  ultimately obtain r where p: "pair_server = put_client 0 r s" and r: "cn_replica r"
    and x: "cn_xs r = (sy_xs s)\<lparr>xs_auth := xs_auth (cn_xs a), xs_repl := register_downstream 0 (xs_repl (sy_xs s))\<rparr>"
    using client_psync [of s 0 a sample_platform pair_config queue_channels "\<lambda>_ i. i"] conns f(1) unfolding pair_server_def s_def [symmetric]
    by (auto simp del: server_step.simps)
  have "map_of (sy_conns pair_server) 0 = Some r \<and> map_of (sy_conns pair_server) 1 = Some b \<and> sy_xs pair_server = cn_xs r"
    unfolding p using conns by (simp add: put_client_def)
  then show ?thesis using r f x by auto
qed

text \<open>
  C18. The stream is delivered.  On a running server, for a replica's connection whose writes succeed, as many
  deliveries as messages are queued write exactly the queued messages to its socket, in the order they
  were queued, after what was written before; the queue is empty then and the data untouched.
\<close>

theorem stream_delivered:
  assumes "fifo_laws ch pending alive" "sys_reach P ch (with_server_config P cfg repl) s" "permutes (bucket_order P)"
    "unat (shard_count cfg) \<le> 2 ^ 63" "downstream_senders repl = []"
    "map_of (sy_conns s) tx = Some c" "cn_replica c"
  shows "\<exists>s' c'. (server_step P ch cfg (Delivery tx (\<lambda>_ _. True) clks) ^^ length (pending (xs_chan (sy_xs s)) tx)) s = s'
    \<and> map_of (sy_conns s') tx = Some c' \<and> cn_out c' = cn_out c @ concat (pending (xs_chan (sy_xs s)) tx)
    \<and> pending (xs_chan (sy_xs s')) tx = [] \<and> xs_db (sy_xs s') = xs_db (sy_xs s)"
proof -
  have "idle P c" using sys_reach_inv [OF assms(2-5)] map_of_SomeD [OF assms(6)] by (auto simp: sys_inv_def client_ok_def)
  then show ?thesis using deliveries [OF assms(1,6,7) _ refl] by blast
qed

text \<open>The second client of the pair writes; the message for the first is queued.\<close>

definition pair_written :: "queues system" where
  "pair_written = server_step sample_platform queue_channels pair_config
     (ClientEvent 1 (\<lambda>_ _. True) (\<lambda>_ i. i) (ReadData (concat (map wire [Set ''k'' ''v'' None])))) pair_server"

lemma pair_written_facts:
  "\<exists>r. map_of (sy_conns pair_written) 0 = Some r \<and> cn_replica r
     \<and> fst (xs_chan (sy_xs pair_written)) 0 = [wire (Set ''k'' ''v'' None)]"
proof -
  let ?cmds = "[Set ''k'' ''v'' None]"
  obtain r c where s: "map_of (sy_conns pair_server) 0 = Some r" "cn_replica r" "map_of (sy_conns pair_server) 1 = Some c"
    "cn_buffer c = []" "xs_auth (cn_xs c)" "xs_repl (sy_xs pair_server) = register_downstream 0 (new_master None)"
    "xs_topo (sy_xs pair_server) = None" "fst (xs_chan (sy_xs pair_server)) 0 = []" using pair_server_facts by blast
  have a: "snd (xs_chan (sy_xs pair_server)) 0"
    using sys_reach_live [OF pair_reach fifo_queue_channels] map_of_SomeD [OF s(1)] by (auto simp: live_clients_def)
  have plain: "list_all (plain sample_platform) ?cmds"
    by (simp add: plain_def command_value_def sample_platform_def is_utf8_ascii byte_def)
  have len: "length (concat (map wire ?cmds)) \<le> unat (max_payload_size pair_config)"
    by (simp add: wire_def serialize_encode command_value_def show_int_def show_nat_digits_small show_nat.simps [of "Suc 0"])
  obtain outs x where run: "exec_run sample_platform (ch_send queue_channels) (requirepass pair_config)
      (requests (\<lambda>_ i. i) (cn_frames c) ?cmds) ((sy_xs pair_server)\<lparr>xs_auth := xs_auth (cn_xs c)\<rparr>) = (outs, x)"
    by (metis surj_pair)
  have "fst (xs_chan x) 0 = [wire (Set ''k'' ''v'' None)]"
    using run s(6,8) a
    by (auto simp: execute_def exec_body_def exec_set_def Let_def propagate_raw_def propagate_downstream_def
        register_downstream_def new_master_def is_replica_def queue_channels_def queue_send_def split: prod.splits)
  moreover have w: "pair_written = put_client 1 (c\<lparr>cn_frames := cn_frames c + length ?cmds, cn_xs := x,
      cn_out := cn_out c @ concat (map reply_bytes outs)\<rparr>) pair_server"
    unfolding pair_written_def by (rule client_pipeline [OF s(3,4,7) plain _ len run]) simp
  moreover have "map_of (sy_conns pair_written) 0 = Some r" using s(1) unfolding w by (simp add: put_client_def map_of_put)
  moreover have "sy_xs pair_written = x" unfolding w by (simp add: put_client_def)
  ultimately show ?thesis using s(2) by blast
qed

theorem stream_delivered_witness:
  "\<exists>r s' c'. map_of (sy_conns pair_written) 0 = Some r
     \<and> server_step sample_platform queue_channels pair_config (Delivery 0 (\<lambda>_ _. True) (\<lambda>_ i. i)) pair_written = s'
     \<and> map_of (sy_conns s') 0 = Some c' \<and> cn_out c' = cn_out r @ wire (Set ''k'' ''v'' None)"
proof -
  let ?srv = "with_server_config sample_platform pair_config (new_master None)"
  obtain r where r: "map_of (sy_conns pair_written) 0 = Some r" "cn_replica r"
    "fst (xs_chan (sy_xs pair_written)) 0 = [wire (Set ''k'' ''v'' None)]" using pair_written_facts by blast
  have c: "srv_config ?srv = pair_config" by (simp add: with_server_config_def)
  have reach: "sys_reach sample_platform queue_channels ?srv pair_written"
    using sys_reach.step [OF pair_reach] unfolding c pair_written_def .
  have d: "downstream_senders (new_master None) = []" by (simp add: new_master_def)
  have n: "length (fst (xs_chan (sy_xs pair_written)) 0) = 1" "concat (fst (xs_chan (sy_xs pair_written)) 0) = wire (Set ''k'' ''v'' None)"
    using r(3) by simp_all
  from stream_delivered [OF fifo_queue_channels reach permutes_sample pair_config_simps(3) d r(1,2), of "\<lambda>_ i. i"] r(1)
  show ?thesis unfolding n by (auto simp del: server_step.simps)
qed

text \<open>
  C3. Replication through the server.  A client of a running master sends any commands without expiry times; another
  connection is a replica's, registered once, with nothing queued.  After its deliveries, a replica that
  had the master's contents and reads what its connection was sent has the master's contents again.
\<close>

theorem replication_end_to_end:
  assumes "fifo_laws ch pending alive" "sys_reach P ch (with_server_config P cfg repl) s" "permutes (bucket_order P)"
    "unat (shard_count cfg) \<le> 2 ^ 63" "downstream_senders repl = []"
    "map_of (sy_conns s) tx = Some c" "cn_buffer c = []" "requirepass cfg = None \<or> xs_auth (cn_xs c)"
    "map_of (sy_conns s) ty = Some r" "ty \<noteq> tx" "cn_replica r"
    "count_list (downstream_senders (xs_repl (sy_xs s))) ty = 1" "pending (xs_chan (sy_xs s)) ty = []"
    "\<not> is_replica (xs_repl (sy_xs s))" "xs_topo (sy_xs s) = None" "durable P (xs_db (sy_xs s))"
    "cmds \<noteq> []" "list_all (plain P) cmds" "list_all untimed cmds" "list_all (plain P') cmds"
    "length (concat (map wire cmds)) \<le> unat (max_payload_size cfg)"
    "durable P' (xs_db (st_xs st))" "content P' (xs_db (st_xs st)) = content P (xs_db (sy_xs s))"
    "server_step P ch cfg (ClientEvent tx (\<lambda>_ _. True) clks (ReadData (concat (map wire cmds)))) s = s1"
    "(server_step P ch cfg (Delivery ty (\<lambda>_ _. True) clks) ^^ length (pending (xs_chan (sy_xs s1)) ty)) s1 = s2"
  shows "\<exists>r' sent st'. map_of (sy_conns s2) ty = Some r' \<and> cn_out r' = cn_out r @ sent
    \<and> stream_drain P' send' sink clks' sent st = (StreamMore, st')
    \<and> content P' (xs_db (st_xs st')) = content P (xs_db (sy_xs s2))"
proof -
  let ?x = "(sy_xs s)\<lparr>xs_auth := xs_auth (cn_xs c)\<rparr>" and ?send = "ch_send ch" and ?pass = "requirepass cfg"
  let ?eff = "effective P ?send ?pass clks (cn_frames c) cmds ?x"
  obtain u where inv: "sys_inv P cfg u s" using sys_reach_inv [OF assms(2-5)] by blast
  have idle: "idle P r" using inv map_of_SomeD [OF assms(9)] by (auto simp: sys_inv_def client_ok_def)
  have "alive (xs_chan (sy_xs s)) ty"
    using sys_reach_live [OF assms(2,1)] map_of_SomeD [OF assms(9)] by (auto simp: live_clients_def)
  then have feed: "feeding P alive ?pass ty ?x"
    using assms(8,12,14,15,16) by (simp add: feeding_def xs_inv_def durable_def)
  obtain outs x where run: "exec_run P ?send ?pass (requests clks (cn_frames c) cmds) ?x = (outs, x)" by (metis surj_pair)
  have m: "content P (xs_db x) = fold apply_write ?eff (content P (xs_db (sy_xs s)))" "pending (xs_chan x) ty = map wire ?eff"
    using master_run [OF fifo_lawsD(1) [OF assms(1)] feed assms(19) run] assms(13) by simp_all
  let ?c = "c\<lparr>cn_frames := cn_frames c + length cmds, cn_xs := x, cn_out := cn_out c @ concat (map reply_bytes outs)\<rparr>"
  have s1: "s1 = put_client tx ?c s"
    using client_pipeline [OF assms(6,7,15,18,17,21) run] assms(24) by simp
  then have s1': "sy_xs s1 = x" "map_of (sy_conns s1) ty = Some r" using assms(9,10) by (simp_all add: put_client_def map_of_put)
  obtain r' where r': "map_of (sy_conns s2) ty = Some r'" "cn_out r' = cn_out r @ concat (map wire ?eff)" "xs_db (sy_xs s2) = xs_db x"
    using deliveries [OF assms(1) s1'(2) assms(11) idle refl, of cfg clks] s1'(1) m(2) assms(25) by auto
  have "\<forall>cmd \<in> set ?eff. plain P' cmd \<and> is_write cmd \<and> untimed cmd"
    using effective_subset [of P ?send ?pass clks "cn_frames c" cmds ?x] assms(19,20) by (auto simp: list_all_iff)
  from stream_writes [OF this assms(22), of send' sink clks'] obtain st' where
    "stream_drain P' send' sink clks' (concat (map wire ?eff)) st = (StreamMore, st')"
    "content P' (xs_db (st_xs st')) = fold apply_write ?eff (content P' (xs_db (st_xs st)))" by blast
  then show ?thesis using r' m(1) assms(23) by auto
qed

theorem replication_end_to_end_witness:
  "\<exists>s1 s2 r r' sent st'.
     server_step sample_platform queue_channels pair_config
       (ClientEvent 1 (\<lambda>_ _. True) (\<lambda>_ i. i) (ReadData (concat (map wire [Set ''k'' ''v'' None])))) pair_server = s1
     \<and> (server_step sample_platform queue_channels pair_config (Delivery 0 (\<lambda>_ _. True) (\<lambda>_ i. i))
          ^^ length (fst (xs_chan (sy_xs s1)) 0)) s1 = s2
     \<and> map_of (sy_conns pair_server) 0 = Some r \<and> map_of (sy_conns s2) 0 = Some r' \<and> cn_out r' = cn_out r @ sent
     \<and> stream_drain sample_platform queue_send (\<lambda>_ _. True) (\<lambda>_ i. 50 + i) sent sample_stream = (StreamMore, st')
     \<and> content sample_platform (xs_db (st_xs st')) = content sample_platform (xs_db (sy_xs s2))"
proof -
  let ?cmds = "[Set ''k'' ''v'' None]"
  obtain r c where s: "map_of (sy_conns pair_server) 0 = Some r" "cn_replica r" "map_of (sy_conns pair_server) 1 = Some c"
    "cn_buffer c = []" "xs_db (sy_xs pair_server) = with_config 128 0"
    "xs_repl (sy_xs pair_server) = register_downstream 0 (new_master None)"
    "xs_topo (sy_xs pair_server) = None" "fst (xs_chan (sy_xs pair_server)) 0 = []" using pair_server_facts by blast
  have repl: "downstream_senders (new_master None) = []" "count_list (downstream_senders (xs_repl (sy_xs pair_server))) 0 = 1"
    "\<not> is_replica (xs_repl (sy_xs pair_server))"
    by (simp_all add: s(6) register_downstream_def new_master_def is_replica_def)
  have cmds: "list_all (plain sample_platform) ?cmds" "list_all untimed ?cmds"
    by (simp_all add: plain_def command_value_def sample_platform_def is_utf8_ascii byte_def)
  have len: "length (concat (map wire ?cmds)) \<le> unat (max_payload_size pair_config)"
    by (simp add: wire_def serialize_encode command_value_def show_int_def show_nat_digits_small show_nat.simps [of "Suc 0"])
  have db: "durable sample_platform (xs_db (sy_xs pair_server))" "durable sample_platform (xs_db (st_xs sample_stream))"
    "content sample_platform (xs_db (st_xs sample_stream)) = content sample_platform (xs_db (sy_xs pair_server))"
    using durable_with_config [of 128] durable_with_config [of 2] s(5) by (simp_all add: sample_stream_def)
  show ?thesis
    using replication_end_to_end [OF fifo_queue_channels pair_reach permutes_sample pair_config_simps(3) repl(1) s(3,4) _ s(1) _ s(2)
        repl(2) s(8) repl(3) s(7) db(1) _ cmds cmds(1) len db(2,3) refl refl] s(1) by force
qed

end
