(* ===== verification/Startup.thy ===== *)
theory Startup
  imports Server_Replication
begin

text \<open>
  \<open>src/main.rs\<close>: the \<open>.env\<close> file, the command line, and the configuration and replication state
  the server is built from.

  The command-line parser (clap) and the operating system are not part of the program.  The parser is
  the parameter \<open>parse_cli\<close>, from the environment to the options or \<open>None\<close> if the process exits with a
  usage message; the environment is a map whose values are Unicode or not.  \<open>set_var\<close>
  panics on a name or value with a NUL character.
\<close>

section \<open>The environment file\<close>

text \<open>\<open>str::lines\<close>: a line ends with a line feed, before which one carriage return is dropped.\<close>

definition strip_cr :: "string \<Rightarrow> string" where
  "strip_cr l = (if l \<noteq> [] \<and> last l = CHR 0x0D then butlast l else l)"

fun lines_from :: "string \<Rightarrow> string \<Rightarrow> string list" where
  "lines_from cur [] = (if cur = [] then [] else [cur])"
| "lines_from cur (c # s) = (if c = CHR 0x0A then strip_cr cur # lines_from [] s else lines_from (cur @ [c]) s)"

definition str_lines :: "string \<Rightarrow> string list" where
  "str_lines s = lines_from [] s"

definition trim_matches :: "char \<Rightarrow> string \<Rightarrow> string" where
  "trim_matches c s = rev (dropWhile (\<lambda>d. d = c) (rev (dropWhile (\<lambda>d. d = c) s)))"

datatype env_value = Unicode string | NotUnicode bytes

type_synonym env = "string \<Rightarrow> env_value option"

text \<open>\<open>std::env::var(key).is_err()\<close>.\<close>

definition var_is_err :: "env \<Rightarrow> string \<Rightarrow> bool" where
  "var_is_err env key = (case env key of Some (Unicode _) \<Rightarrow> False | _ \<Rightarrow> True)"

definition set_var :: "string \<Rightarrow> string \<Rightarrow> env \<Rightarrow> env option" where
  "set_var key v env = (if CHR 0x00 \<in> set key \<or> CHR 0x00 \<in> set v then None else Some (env(key \<mapsto> Unicode v)))"

text \<open>One line of the file; \<open>None\<close> is the panic of \<open>set_var\<close>.\<close>

definition dotenv_line :: "string \<Rightarrow> env \<Rightarrow> env option" where
  "dotenv_line line env =
     (let trimmed = trim line
      in if trimmed = [] \<or> hd trimmed = CHR ''#'' then Some env
         else (case split_once CHR ''='' trimmed of
                 None \<Rightarrow> Some env
               | Some (k, v) \<Rightarrow>
                   (let key = trim k; val = trim_matches CHR 0x27 (trim_matches CHR 0x22 (trim v))
                    in if key \<noteq> [] \<and> var_is_err env key then set_var key val env else Some env)))"

fun dotenv_lines :: "string list \<Rightarrow> env \<Rightarrow> env option" where
  "dotenv_lines [] env = Some env"
| "dotenv_lines (l # ls) env = (case dotenv_line l env of None \<Rightarrow> None | Some env' \<Rightarrow> dotenv_lines ls env')"

text \<open>\<open>file\<close> is the contents of \<open>.env\<close>, if it can be read; \<open>read_to_string\<close> also fails if it is not UTF-8.\<close>

definition load_dotenv :: "bytes option \<Rightarrow> env \<Rightarrow> env option" where
  "load_dotenv file env =
     (case file of
        None \<Rightarrow> Some env
      | Some bs \<Rightarrow> (case from_utf8 bs of Inl _ \<Rightarrow> Some env | Inr body \<Rightarrow> dotenv_lines (str_lines body) env))"

section \<open>The command line\<close>

record cli =
  cli_host :: string
  cli_port :: u16
  cli_tcp_nodelay :: bool
  cli_max_connections :: usize
  cli_max_payload_size :: usize
  cli_requirepass :: "string option"
  cli_masterauth :: "string option"
  cli_worker_threads :: usize
  cli_shard_count :: usize
  cli_max_memory_bytes :: usize
  cli_ttl_interval_ms :: u64
  cli_ttl_sample_size :: usize
  cli_replicaof :: "string list option"
  cli_replicaof_env :: "string option"
  cli_cluster_enabled :: bool
  cli_cluster_node_id :: "string option"
  cli_cluster_announce_ip :: "string option"
  cli_cluster_announce_port :: "u16 option"
  cli_cluster_announce_bus_port :: "u16 option"
  cli_cluster_slots :: "string option"


datatype startup_error = DotenvPanic | UsageExit | ArgumentPanic | OverflowPanic

definition replica_cfg :: "cli \<Rightarrow> string list option" where
  "replica_cfg c =
     (case cli_replicaof c of
        Some args \<Rightarrow> Some args
      | None \<Rightarrow>
          (case cli_replicaof_env c of
             None \<Rightarrow> None
           | Some v \<Rightarrow> (let parts = split_whitespace v in if length parts \<ge> 2 then Some parts else None)))"

text \<open>\<open>args[0]\<close> and \<open>args[1]\<close> panic if they are missing.\<close>

definition replica_parsed :: "cli \<Rightarrow> startup_error + (string \<times> u16) option" where
  "replica_parsed c =
     (case replica_cfg c of
        None \<Rightarrow> Inr None
      | Some args \<Rightarrow>
          if length args < 2 then Inl ArgumentPanic
          else Inr (Some (args ! 0, case parse_u16 (args ! 1) of Inr p \<Rightarrow> p | Inl _ \<Rightarrow> 6379)))"

definition non_empty :: "string option \<Rightarrow> string option" where
  "non_empty p = (case p of Some s \<Rightarrow> if s = [] then None else Some s | None \<Rightarrow> None)"

definition announce_ip :: "cli \<Rightarrow> string" where
  "announce_ip c =
     (case cli_cluster_announce_ip c of
        Some ip \<Rightarrow> ip
      | None \<Rightarrow> if cli_host c = ''0.0.0.0'' then ''127.0.0.1'' else cli_host c)"

definition announce_port :: "cli \<Rightarrow> u16" where
  "announce_port c = (case cli_cluster_announce_port c of Some p \<Rightarrow> p | None \<Rightarrow> cli_port c)"

text \<open>\<open>unwrap_or(announce_port + 10000)\<close> evaluates the sum even if the bus port is given.\<close>

definition main_config :: "platform \<Rightarrow> cli \<Rightarrow> startup_error + server_config \<times> repl_state" where
  "main_config P c =
     (case replica_parsed c of
        Inl e \<Rightarrow> Inl e
      | Inr replica \<Rightarrow>
          (let repl_state = (case replica of Some (h, p) \<Rightarrow> new_replica h p | None \<Rightarrow> new_master None);
               port = announce_port c
           in case add_u16 P port 10000 of
                None \<Rightarrow> Inl OverflowPanic
              | Some bus \<Rightarrow> Inr
                (\<lparr>cfg_host = cli_host c, cfg_port = cli_port c, tcp_nodelay = cli_tcp_nodelay c,
                  max_connections = cli_max_connections c, max_payload_size = cli_max_payload_size c,
                  requirepass = non_empty (cli_requirepass c), masterauth = non_empty (cli_masterauth c),
                  worker_threads = cli_worker_threads c, shard_count = cli_shard_count c,
                  cfg_max_memory_bytes = cli_max_memory_bytes c, ttl_interval_ms = cli_ttl_interval_ms c,
                  ttl_sample_size = cli_ttl_sample_size c, cfg_replicaof = replica,
                  cluster_enabled = cli_cluster_enabled c, cluster_node_id = cli_cluster_node_id c,
                  cluster_announce_ip = announce_ip c, cluster_announce_port = port,
                  cluster_announce_bus_port =
                    (case cli_cluster_announce_bus_port c of Some p \<Rightarrow> p | None \<Rightarrow> bus),
                  cluster_slots = cli_cluster_slots c\<rparr>, repl_state)))"

section \<open>The program\<close>

definition main_server :: "platform \<Rightarrow> (env \<Rightarrow> cli option) \<Rightarrow> bytes option \<Rightarrow> env \<Rightarrow> startup_error + server" where
  "main_server P parse_cli file env =
     (case load_dotenv file env of
        None \<Rightarrow> Inl DotenvPanic
      | Some env' \<Rightarrow>
          (case parse_cli env' of
             None \<Rightarrow> Inl UsageExit
           | Some c \<Rightarrow>
               (case main_config P c of
                  Inl e \<Rightarrow> Inl e
                | Inr (cfg, repl) \<Rightarrow> Inr (with_server_config P cfg repl))))"

section \<open>Reading the file back\<close>

text \<open>A line of the file as an administrator writes it: \<open>KEY="value"\<close>.\<close>

definition print_var :: "string \<times> string \<Rightarrow> string" where
  "print_var kv = fst kv @ [CHR ''='', CHR 0x22] @ snd kv @ [CHR 0x22]"

definition printable :: "string \<times> string \<Rightarrow> bool" where
  "printable kv \<longleftrightarrow> fst kv \<noteq> [] \<and> list_all solid (fst kv) \<and> CHR ''='' \<notin> set (fst kv) \<and> hd (fst kv) \<noteq> CHR ''#''
     \<and> list_all (\<lambda>c. 32 \<le> byte c \<and> byte c < 128) (snd kv) \<and> CHR 0x22 \<notin> set (snd kv) \<and> CHR 0x27 \<notin> set (snd kv)"

definition print_env :: "(string \<times> string) list \<Rightarrow> string" where
  "print_env kvs = concat (map (\<lambda>kv. print_var kv @ [CHR 0x0A]) kvs)"

lemma lines_from_line:
  "CHR 0x0A \<notin> set l \<Longrightarrow> lines_from cur (l @ CHR 0x0A # s) = strip_cr (cur @ l) # lines_from [] s"
  by (induction l arbitrary: cur) auto

lemma solid_simps [simp]: "solid CHR 0x22" "solid CHR ''=''"
  by (simp_all add: solid_def byte_def)

lemma print_var_chars: "printable kv \<Longrightarrow> c \<in> set (print_var kv) \<Longrightarrow> 32 \<le> byte c \<and> byte c < 128"
  by (auto simp: printable_def print_var_def list_all_iff solid_def byte_def)

lemma str_lines_print_env: "list_all printable kvs \<Longrightarrow> str_lines (print_env kvs) = map print_var kvs"
proof (induction kvs)
  case (Cons kv kvs)
  then have "printable kv" by simp
  have "CHR 0x0A \<notin> set (print_var kv)"
  proof
    assume "CHR 0x0A \<in> set (print_var kv)"
    from print_var_chars [OF \<open>printable kv\<close> this] show False by (simp add: byte_def)
  qed
  moreover have "strip_cr (print_var kv) = print_var kv" by (simp add: strip_cr_def print_var_def)
  ultimately show ?case
    using Cons lines_from_line [of "print_var kv" "[]" "print_env kvs"] by (simp add: str_lines_def print_env_def)
qed (simp add: str_lines_def print_env_def)

lemma split_once_first: "sep \<notin> set a \<Longrightarrow> split_once sep (a @ sep # b) = Some (a, b)"
  by (induction a) auto

lemma dropWhile_absent: "c \<notin> set v \<Longrightarrow> dropWhile (\<lambda>d. d = c) (v @ w) = (if v = [] then dropWhile (\<lambda>d. d = c) w else v @ w)"
  by (cases v) auto

lemma trim_matches_id: "c \<notin> set v \<Longrightarrow> trim_matches c v = v"
  using dropWhile_absent [of c v "[]"] dropWhile_absent [of c "rev v" "[]"] by (simp add: trim_matches_def split: if_splits)

lemma trim_matches_quoted: "c \<notin> set v \<Longrightarrow> trim_matches c (c # v @ [c]) = v"
  using dropWhile_absent [of c v "[c]"] dropWhile_absent [of c "rev v" "[]"] by (simp add: trim_matches_def split: if_splits)

lemma dotenv_line_print:
  assumes "printable kv"
  shows "dotenv_line (print_var kv) env = Some (if var_is_err env (fst kv) then env(fst kv \<mapsto> Unicode (snd kv)) else env)"
proof -
  obtain k v where kv: "kv = (k, v)" by (cases kv)
  let ?q = "CHR 0x22 # v @ [CHR 0x22]"
  have k: "k \<noteq> []" "solid (hd k)" "solid (last k)" "CHR ''='' \<notin> set k" "hd k \<noteq> CHR ''#''" "CHR 0x00 \<notin> set k"
    using assms kv by (auto simp: printable_def list_all_iff solid_def byte_def)
  have v: "CHR 0x22 \<notin> set v" "CHR 0x27 \<notin> set v" "CHR 0x00 \<notin> set v"
    using assms kv by (auto simp: printable_def list_all_iff byte_def)
  have "trim (k @ CHR ''='' # ?q) = k @ CHR ''='' # ?q" using k by (intro trim_solid) auto
  moreover have "trim k = k" using k by (intro trim_solid)
  moreover have "trim ?q = ?q" by (intro trim_solid) auto
  ultimately show ?thesis using k v kv
    by (simp add: dotenv_line_def print_var_def Let_def split_once_first trim_matches_quoted trim_matches_id set_var_def)
qed

lemma dotenv_lines_print:
  assumes "list_all printable kvs"
  shows "dotenv_lines (map print_var kvs) env =
    Some (\<lambda>k. if var_is_err env k then (case map_of kvs k of Some v \<Rightarrow> Some (Unicode v) | None \<Rightarrow> env k) else env k)"
  using assms
proof (induction kvs arbitrary: env)
  case (Cons kv kvs)
  then show ?case
    by (cases kv) (auto simp: dotenv_line_print fun_eq_iff var_is_err_def split: option.split env_value.split)
qed (auto simp: fun_eq_iff)

lemma load_dotenv_print:
  assumes "list_all printable kvs"
  shows "load_dotenv (Some (print_env kvs)) env = dotenv_lines (map print_var kvs) env"
proof -
  have "is_utf8 (print_env kvs)"
  proof (intro is_utf8_ascii ballI)
    fix c assume "c \<in> set (print_env kvs)"
    then consider "c = CHR 0x0A" | kv where "kv \<in> set kvs" "c \<in> set (print_var kv)"
      by (cases "kvs = []") (force simp: print_env_def)+
    then show "byte c < 128"
    proof cases
      case 2
      then show ?thesis using print_var_chars [of kv c] assms by (auto simp: list_all_iff)
    qed (simp add: byte_def)
  qed
  then show ?thesis using str_lines_print_env [OF assms] by (simp add: load_dotenv_def)
qed

section \<open>Properties\<close>

text \<open>
  C33. The environment file.  From a file of lines \<open>KEY="value"\<close> the program takes every variable that the environment does
  not already define as a Unicode string, with the value of its first line and without the quotes; variables
  that are already set win over the file, and nothing else changes.
\<close>

theorem dotenv_precedence:
  assumes "list_all printable kvs"
  shows "\<exists>env'. load_dotenv (Some (print_env kvs)) env = Some env'
    \<and> (\<forall>k. env' k = (if var_is_err env k then (case map_of kvs k of Some v \<Rightarrow> Some (Unicode v) | None \<Rightarrow> env k) else env k))"
  using load_dotenv_print [OF assms] dotenv_lines_print [OF assms] by simp

theorem dotenv_precedence_witness:
  "\<exists>env'. load_dotenv (Some (print_env [(''A'', ''1 2''), (''B'', []), (''A'', ''3'')])) [''B'' \<mapsto> Unicode ''x''] = Some env'
     \<and> env' ''A'' = Some (Unicode ''1 2'') \<and> env' ''B'' = Some (Unicode ''x'')"
proof -
  have "list_all printable [(''A'', ''1 2''), (''B'', []), (''A'', ''3'')]" by (simp add: printable_def solid_def byte_def)
  from dotenv_precedence [OF this, of "[''B'' \<mapsto> Unicode ''x'']"] show ?thesis by (auto simp: var_is_err_def)
qed







text \<open>
  The sum of the announced port and 10000 is computed whether or not the bus port is given: in a build with
  overflow checks an announced port above 55535 ends the program.
\<close>

lemma main_config_overflow:
  assumes "replica_parsed c = Inr r" "overflow_checks P" "unat (announce_port c) \<ge> 55536"
  shows "main_config P c = Inl OverflowPanic"
  using assms by (simp add: main_config_def add_u16_def)




end
