(* ===== verification/Storage_Concurrent.thy ===== *)
theory Storage_Concurrent
  imports Storage_Contract
begin

text \<open>
  \<open>src/storage/db.rs\<close> under concurrency.  The other theories compose the critical sections of an
  operation as one thread executes them; here the threads of the runtime interleave.

  A thread is the point it has reached in its operation (\<open>pc\<close>).  A step acquires the lock of a shard
  and works on that shard's map, or performs one atomic operation on \<open>used_memory\<close>; the steps
  \<open>Sub\<close> and \<open>Add\<close> are the \<open>fetch_sub\<close> and \<open>fetch_add\<close> that are executed while the lock is still held.
  \<open>wants\<close> is the shard whose lock a thread needs for its next step, \<open>holds\<close> the shard whose write lock it
  has.  Reading a shard under its read lock is a single step, so readers need not be counted.
\<close>

section \<open>Threads\<close>

datatype answer = AnsUnit | AnsValue "bytes option" | AnsBool bool | AnsCount nat

type_synonym set_args = "string \<times> bytes \<times> instant option"

datatype pc =
    Finished answer
  | GetHit string
  | GetLazy string
  | DelBegin string
  | SetBegin set_args
  | EvictLoad set_args
  | EvictScan set_args nat oldest
  | EvictRemove set_args nat string
  | MakeEntry set_args
  | Insert string entry
  | PurgeScan instant nat nat nat
  | PurgeWrite instant nat nat nat "(string \<times> usize) list"
  | PurgeHold instant nat nat nat "(string \<times> usize) list"
  | Sub nat usize pc
  | Add nat usize pc

definition drop_entry :: "nat \<Rightarrow> string \<Rightarrow> db \<Rightarrow> db" where
  "drop_entry i key d = d\<lparr>shards := (shards d)[i := hm_remove (shards d ! i) key]\<rparr>"

text \<open>One step of a thread; \<open>clk\<close> are its readings of the clock.\<close>

fun advance :: "platform \<Rightarrow> clock \<Rightarrow> pc \<Rightarrow> db \<Rightarrow> pc \<times> db" where
  "advance P clk (Finished a) d = (Finished a, d)"
| "advance P clk (GetHit k) d =
     (case get_hit P clk k d of
        (Some r, d') \<Rightarrow> (Finished (AnsValue r), d')
      | (None, d') \<Rightarrow> (GetLazy k, d'))"
| "advance P clk (GetLazy k) d =
     (let i = shard_index P d k
      in case hm_get (shards d ! i) k of
           Some e \<Rightarrow>
             if is_expired (clk 0) e
             then (Sub i (approx_size_bytes e) (Finished (AnsValue None)), drop_entry i k d)
             else (Finished (AnsValue None), d)
         | None \<Rightarrow> (Finished (AnsValue None), d))"
| "advance P clk (DelBegin k) d =
     (let i = shard_index P d k
      in case hm_get (shards d ! i) k of
           Some e \<Rightarrow> (Sub i (approx_size_bytes e) (Finished (AnsBool True)), drop_entry i k d)
         | None \<Rightarrow> (Finished (AnsBool False), d))"
| "advance P clk (SetBegin a) d = (if max_memory_bytes d > 0 then EvictLoad a else MakeEntry a, d)"
| "advance P clk (EvictLoad a) d =
     (if used_memory d \<ge> max_memory_bytes d then EvictScan a 0 None else MakeEntry a, d)"
| "advance P clk (EvictScan a i old) d =
     (if i < length (shards d) then EvictScan a (Suc i) (fold (older i) (take 5 (shards d ! i)) old)
      else (case old of Some (idx, key, _) \<Rightarrow> EvictRemove a idx key | None \<Rightarrow> MakeEntry a), d)"
| "advance P clk (EvictRemove a i key) d =
     (case hm_get (shards d ! i) key of
        Some e \<Rightarrow> (Sub i (approx_size_bytes e) (EvictLoad a), drop_entry i key d)
      | None \<Rightarrow> (MakeEntry a, d))"
| "advance P clk (MakeEntry a) d =
     (case a of (k, v, x) \<Rightarrow> (Insert k (entry_new P (clk 0) (length k) v x), d))"
| "advance P clk (Insert k e) d =
     (let i = shard_index P d k; add = Add i (approx_size_bytes e) (Finished AnsUnit);
          d' = d\<lparr>shards := (shards d)[i := hm_insert (bucket_order P) (shards d ! i) k e]\<rparr>
      in case hm_get (shards d ! i) k of
           Some old \<Rightarrow> (Sub i (approx_size_bytes old) add, d')
         | None \<Rightarrow> (add, d'))"
| "advance P clk (PurgeScan now sample i n) d =
     (if i < length (shards d)
      then (let keys = purge_scan now sample (shards d ! i)
            in if keys \<noteq> [] then PurgeWrite now sample i n keys else PurgeScan now sample (Suc i) n)
      else Finished (AnsCount n), d)"
| "advance P clk (PurgeWrite now sample i n keys) d = (PurgeHold now sample i n keys, d)"
| "advance P clk (PurgeHold now sample i n []) d = (PurgeScan now sample (Suc i) n, d)"
| "advance P clk (PurgeHold now sample i n ((k, sz) # keys)) d =
     (if hm_get (shards d ! i) k \<noteq> None
      then (Sub i sz (PurgeHold now sample i (n + 1) keys), drop_entry i k d)
      else (PurgeHold now sample i n keys, d))"
| "advance P clk (Sub i sz p) d = (p, d\<lparr>used_memory := used_memory d - sz\<rparr>)"
| "advance P clk (Add i sz p) d = (p, d\<lparr>used_memory := used_memory d + sz\<rparr>)"

fun wants :: "platform \<Rightarrow> db \<Rightarrow> pc \<Rightarrow> nat option" where
  "wants P d (GetHit k) = Some (shard_index P d k)"
| "wants P d (GetLazy k) = Some (shard_index P d k)"
| "wants P d (DelBegin k) = Some (shard_index P d k)"
| "wants P d (EvictScan a i old) = (if i < length (shards d) then Some i else None)"
| "wants P d (EvictRemove a i key) = Some i"
| "wants P d (Insert k e) = Some (shard_index P d k)"
| "wants P d (PurgeScan now sample i n) = (if i < length (shards d) then Some i else None)"
| "wants P d (PurgeWrite now sample i n keys) = Some i"
| "wants P d _ = None"

fun holds :: "pc \<Rightarrow> nat option" where
  "holds (Sub i sz p) = Some i"
| "holds (Add i sz p) = Some i"
| "holds (PurgeHold now sample i n keys) = Some i"
| "holds _ = None"

fun finished :: "pc \<Rightarrow> bool" where
  "finished (Finished a) = True"
| "finished _ = False"

text \<open>One thread of the pool takes a step, if the lock it needs is free.\<close>

inductive conc_step :: "platform \<Rightarrow> pc list \<times> db \<Rightarrow> pc list \<times> db \<Rightarrow> bool" for P where
  "t < length ths \<Longrightarrow> \<not> finished (ths ! t) \<Longrightarrow> wants P d (ths ! t) = None \<or> wants P d (ths ! t) \<notin> holds ` set ths
     \<Longrightarrow> advance P clk (ths ! t) d = (p, d') \<Longrightarrow> conc_step P (ths, d) (ths[t := p], d')"

abbreviation conc_run :: "platform \<Rightarrow> pc list \<times> db \<Rightarrow> pc list \<times> db \<Rightarrow> bool" where
  "conc_run P \<equiv> (conc_step P)\<^sup>*\<^sup>*"

end
