(* ===== verification/Storage_Interleaving.thy ===== *)
theory Storage_Interleaving
  imports Storage_Concurrent Storage_Drift
begin

text \<open>
  What survives the interleaving of the storage threads, and what does not: client operations keep
  the accounting exact under every interleaving, exclude each other on a shard and never
  block one another for good; an expiry round can undo a concurrent write.
\<close>

section \<open>Accounting\<close>

text \<open>What a thread still has to subtract from \<open>used_memory\<close> before it releases its lock.\<close>

fun debt :: "pc \<Rightarrow> usize" where
  "debt (Sub i sz p) = sz + debt p"
| "debt (Add i sz p) = debt p - sz"
| "debt _ = 0"

text \<open>Client operations, as opposed to expiry rounds, and the facts a thread carries between its steps.\<close>

fun client_pc :: "platform \<Rightarrow> db \<Rightarrow> pc \<Rightarrow> bool" where
  "client_pc P d (EvictScan a i old) \<longleftrightarrow> (\<forall>idx k t. old = Some (idx, k, t) \<longrightarrow> idx < length (shards d))"
| "client_pc P d (EvictRemove a i key) \<longleftrightarrow> i < length (shards d)"
| "client_pc P d (Insert k e) \<longleftrightarrow> entry_sized P k e"
| "client_pc P d (PurgeScan _ _ _ _) \<longleftrightarrow> False"
| "client_pc P d (PurgeWrite _ _ _ _ _) \<longleftrightarrow> False"
| "client_pc P d (PurgeHold _ _ _ _ _) \<longleftrightarrow> False"
| "client_pc P d (Sub i sz p) \<longleftrightarrow> client_pc P d p \<and> holds p \<in> {None, Some i}"
| "client_pc P d (Add i sz p) \<longleftrightarrow> client_pc P d p \<and> holds p \<in> {None, Some i}"
| "client_pc P d _ \<longleftrightarrow> True"

lemma client_pc_cong: "length (shards d') = length (shards d) \<Longrightarrow> client_pc P d' p = client_pc P d p"
  by (induction P d p rule: client_pc.induct) auto

lemma settle_drop: "settle (sz + r) (drop_entry i k d) = remove_entry i k sz (settle r d)"
  by (simp add: settle_def drop_entry_def remove_entry_def algebra_simps)

lemma settled_drop:
  assumes "db_inv P (settle r d)" "i < length (shards d)" "hm_get (shards d ! i) k = Some e"
  shows "db_inv P (settle (approx_size_bytes e + r) (drop_entry i k d))"
  using db_inv_remove_entry [OF assms(1), of i k e] assms(2,3) by (simp add: settle_drop)

lemma settled_get_hit:
  assumes "db_inv P (settle r d)" "get_hit P clk k d = (o1, d')"
  shows "db_inv P (settle r d') \<and> length (shards d') = length (shards d)"
proof -
  have "get_hit P clk k (settle r d) = (o1, settle r d')"
    using assms(2) by (auto simp: get_hit_def Let_def settle_def shard_index_def split: option.splits if_splits)
  moreover have "db_inv P (snd (get_hit P clk k (settle r d)))"
    using assms(1) db_inv_get_hit [OF assms(1)] db_inv_shape [OF assms(1)] by (auto simp: get_hit_cases split: option.split)
  moreover have "length (shards d') = length (shards d)"
    using assms(2) by (auto simp: get_hit_def Let_def split: option.splits if_splits)
  ultimately show ?thesis by simp
qed

lemma settled_insert:
  assumes "db_inv P (settle r d)" "entry_sized P k e" "advance P clk (Insert k e) d = (p, d')"
  shows "db_inv P (settle (debt p + r) d')"
proof -
  have "settle (debt p + r) d' = set_insert P k e (settle r d)"
    using assms(3) by (auto simp: set_insert_def Let_def settle_def shard_index_def algebra_simps split: option.splits)
  then show ?thesis using db_inv_set_insert [OF assms(1,2)] by simp
qed

lemma advance_client:
  assumes "db_inv P (settle (debt p + r) d)" "client_pc P d p" "advance P clk p d = (p', d')"
  shows "db_inv P (settle (debt p' + r) d') \<and> client_pc P d' p' \<and> length (shards d') = length (shards d)
    \<and> (holds p' \<in> {None, holds p, wants P d p})"
proof -
  have idx: "shard_index P d k < length (shards d)" for k
    using assms(1) db_inv_shape [OF assms(1)] by (metis settle_simps(1,4) shard_index_less)
  show ?thesis
  proof (cases p)
    case (GetHit k)
    then show ?thesis using assms settled_get_hit [of P r d clk k] by (auto split: prod.splits option.splits)
  next
    case (GetLazy k)
    then show ?thesis using assms settled_drop [of P r d _ k] idx
      by (auto simp: Let_def drop_entry_def split: option.splits if_splits)
  next
    case (DelBegin k)
    then show ?thesis using assms settled_drop [of P r d _ k] idx
      by (auto simp: Let_def drop_entry_def split: option.splits)
  next
    case (EvictScan a i old)
    then show ?thesis using assms fold_older_index [of i "take 5 (shards d ! i)" old]
      by (fastforce split: if_splits option.splits prod.splits)
  next
    case (EvictRemove a i k)
    then show ?thesis using assms settled_drop [of P r d i k] by (auto simp: drop_entry_def split: option.splits)
  next
    case (Insert k e)
    then show ?thesis using assms settled_insert [of P r d k e clk p' d'] by (auto simp: Let_def split: option.splits)
  next
    case (MakeEntry a)
    then show ?thesis using assms by (auto split: prod.splits)
  next
    case (Sub i sz q)
    then have "settle (debt q + r) d' = settle (debt p + r) d" using assms(3) by (auto simp: settle_def algebra_simps)
    then show ?thesis using assms Sub client_pc_cong [of d' d P q] by auto
  next
    case (Add i sz q)
    then have "settle (debt q + r) d' = settle (debt p + r) d" using assms(3) by (auto simp: settle_def algebra_simps)
    then show ?thesis using assms Add client_pc_cong [of d' d P q] by auto
  qed (use assms in \<open>auto split: if_splits\<close>)
qed

section \<open>The pool\<close>

definition exclusive :: "pc list \<Rightarrow> bool" where
  "exclusive ths \<longleftrightarrow> (\<forall>t u. t < length ths \<and> u < length ths \<and> t \<noteq> u \<longrightarrow> holds (ths ! t) = None \<or> holds (ths ! t) \<noteq> holds (ths ! u))"

definition conc_inv :: "platform \<Rightarrow> pc list \<times> db \<Rightarrow> bool" where
  "conc_inv P s \<longleftrightarrow> db_inv P (settle (sum_list (map debt (fst s))) (snd s))
     \<and> (\<forall>p \<in> set (fst s). client_pc P (snd s) p) \<and> exclusive (fst s)"

lemma exclusive_update:
  assumes "exclusive ths" "t < length ths" "holds p \<in> {None, holds (ths ! t), w}" "w = None \<or> w \<notin> holds ` set ths"
  shows "exclusive (ths[t := p])"
proof -
  have free: "holds p = None \<or> holds p \<noteq> holds (ths ! u)" if "u < length ths" "u \<noteq> t" for u
    using assms that nth_mem [OF that(1)] unfolding exclusive_def by (metis empty_iff image_eqI insert_iff)
  have "holds (ths[t := p] ! a) = None \<or> holds (ths[t := p] ! a) \<noteq> holds (ths[t := p] ! u)"
    if "a < length ths" "u < length ths" "a \<noteq> u" for a u
    using that assms(1,2) free [of a] free [of u] by (cases "a = t"; cases "u = t") (auto simp: exclusive_def)
  then show ?thesis by (simp add: exclusive_def)
qed

lemma conc_inv_step:
  assumes "conc_step P s s'" "conc_inv P s"
  shows "conc_inv P s'"
  using assms
proof (induction rule: conc_step.induct)
  case (1 t ths d clk p d')
  define r where "r = sum_list (map debt ths) - debt (ths ! t)"
  have sums: "sum_list (map debt ths) = debt (ths ! t) + r" "sum_list (map debt (ths[t := p])) = debt p + r"
    using sum_list_update_group [OF 1(1), of debt p] by (simp_all add: r_def)
  have t: "ths ! t \<in> set ths" using 1(1) by simp
  have inv: "db_inv P (settle (debt (ths ! t) + r) d)" "client_pc P d (ths ! t)" "exclusive ths"
    using 1(5) t sums(1) by (simp_all add: conc_inv_def)
  note adv = advance_client [OF inv(1,2) 1(4)]
  have "exclusive (ths[t := p])" using exclusive_update [OF inv(3) 1(1) _ 1(3), of p] adv by blast
  moreover have "\<forall>q \<in> set (ths[t := p]). client_pc P d' q"
    using 1(5) adv client_pc_cong [of d' d P] by (auto simp: conc_inv_def dest!: set_update_subset_insert [THEN subsetD])
  ultimately show ?case using adv sums(2) by (simp add: conc_inv_def)
qed

lemma conc_inv_run: "conc_run P s s' \<Longrightarrow> conc_inv P s \<Longrightarrow> conc_inv P s'"
  by (induction rule: rtranclp_induct) (auto intro: conc_inv_step)

text \<open>A client operation that has not begun.\<close>

fun client_start :: "pc \<Rightarrow> bool" where
  "client_start (GetHit k) = True"
| "client_start (DelBegin k) = True"
| "client_start (SetBegin a) = True"
| "client_start _ = False"

lemma client_start_fresh: "client_start p \<Longrightarrow> client_pc P d p \<and> debt p = 0 \<and> holds p = None"
  by (cases p) auto

lemma conc_inv_start:
  assumes "db_inv P d" "list_all client_start ths"
  shows "conc_inv P (ths, d)"
proof -
  have "map debt ths = map (\<lambda>_. 0) ths" using assms(2) client_start_fresh by (auto simp: list_all_iff)
  then have "sum_list (map debt ths) = 0" by (metis sum_list_0)
  then show ?thesis using assms client_start_fresh by (auto simp: conc_inv_def exclusive_def list_all_iff)
qed

lemma finished_settled: "list_all finished ths \<Longrightarrow> sum_list (map debt ths) = 0"
proof (induction ths)
  case (Cons p ths)
  then show ?case by (cases p) auto
qed simp

section \<open>One thread alone\<close>

lemma solo_step:
  assumes "\<not> finished p" "holds p = None \<or> wants P d p = None" "advance P clk p d = (p', d')" "conc_run P ([p'], d') s"
  shows "conc_run P ([p], d) s"
proof -
  have "conc_step P ([p], d) ([p][0 := p'], d')"
    using assms(1-3) by (intro conc_step.intros) auto
  then show ?thesis using assms(4) by (simp add: converse_rtranclp_into_rtranclp)
qed

lemma solo_scan:
  "conc_run P ([EvictScan a (length (shards d)) (fold (\<lambda>(idx, shard) old. fold (older idx) (take 5 shard) old)
       (enumerate i (drop i (shards d))) old)], d) s \<Longrightarrow> i \<le> length (shards d) \<Longrightarrow> conc_run P ([EvictScan a i old], d) s"
proof (induction "length (shards d) - i" arbitrary: i old)
  case (Suc n)
  have i: "i < length (shards d)" using Suc.hyps(2) by simp
  then have "enumerate i (drop i (shards d)) = (i, shards d ! i) # enumerate (Suc i) (drop (Suc i) (shards d))"
    by (metis Cons_nth_drop_Suc enumerate_simps(2))
  then have "conc_run P ([EvictScan a (Suc i) (fold (older i) (take 5 (shards d ! i)) old)], d) s"
    using Suc.hyps(1) [of "Suc i"] Suc.hyps(2) Suc.prems i by simp
  then show ?case by (rule solo_step [rotated 3]) (use i in simp_all)
qed simp

lemma solo_evict:
  "conc_run P ([MakeEntry a], ensure_memory_capacity d) s \<Longrightarrow> conc_run P ([EvictLoad a], d) s"
proof (induction d rule: ensure_memory_capacity.induct)
  case (1 d)
  show ?case
  proof (cases "used_memory d \<ge> max_memory_bytes d")
    case full: True
    have "conc_run P ([EvictScan a (length (shards d)) (find_oldest (shards d))], d) s"
    proof (cases "find_oldest (shards d)")
      case None
      then have "conc_run P ([MakeEntry a], d) s" using "1.prems" full by (simp add: ensure_memory_capacity.simps [of d])
      then show ?thesis by (rule solo_step [rotated 3]) (simp_all add: None)
    next
      case (Some x)
      obtain i k t where x: "x = (i, k, t)" by (cases x)
      have "conc_run P ([EvictRemove a i k], d) s"
      proof (cases "hm_get (shards d ! i) k")
        case None
        then have "conc_run P ([MakeEntry a], d) s"
          using "1.prems" full Some x by (simp add: ensure_memory_capacity.simps [of d])
        then show ?thesis by (rule solo_step [rotated 3]) (simp_all add: None)
      next
        case e: (Some e)
        let ?d = "remove_entry i k (approx_size_bytes e) d"
        have "conc_run P ([EvictLoad a], ?d) s"
          using "1.IH" [OF full Some x [symmetric] refl e] "1.prems" full Some x e
          by (simp add: ensure_memory_capacity.simps [of d])
        then have "conc_run P ([Sub i (approx_size_bytes e) (EvictLoad a)], drop_entry i k d) s"
          by (rule solo_step [rotated 3]) (simp_all add: drop_entry_def remove_entry_def)
        then show ?thesis by (rule solo_step [rotated 3]) (simp_all add: e)
      qed
      then show ?thesis by (rule solo_step [rotated 3]) (simp_all add: Some x)
    qed
    then have "conc_run P ([EvictScan a 0 None], d) s" 
      using solo_scan [of P a d 0 None s] by (simp add: find_oldest_def)
    then show ?thesis by (rule solo_step [rotated 3]) (simp_all add: full)
  next
    case False
    then have "conc_run P ([MakeEntry a], d) s" using "1.prems" by (simp add: ensure_memory_capacity.simps [of d])
    then show ?thesis by (rule solo_step [rotated 3]) (simp_all add: False)
  qed
qed

lemma solo_insert:
  assumes "conc_run P ([Finished AnsUnit], set_insert P k e d) s"
  shows "conc_run P ([Insert k e], d) s"
proof -
  let ?i = "shard_index P d k"
  let ?d = "d\<lparr>shards := (shards d)[?i := hm_insert (bucket_order P) (shards d ! ?i) k e]\<rparr>"
  let ?add = "Add ?i (approx_size_bytes e) (Finished AnsUnit)"
  have add: "conc_run P ([?add], ?d\<lparr>used_memory := u\<rparr>) s" if "set_insert P k e d = ?d\<lparr>used_memory := u + approx_size_bytes e\<rparr>" for u
    by (rule solo_step [OF _ _ _ assms]) (simp_all add: that)
  show ?thesis
  proof (cases "hm_get (shards d ! ?i) k")
    case None
    have "?d = ?d\<lparr>used_memory := used_memory d\<rparr>" by simp
    moreover have "conc_run P ([?add], ?d\<lparr>used_memory := used_memory d\<rparr>) s" by (rule add) (simp add: set_insert_def Let_def None)
    ultimately have "conc_run P ([?add], ?d) s" by metis
    then show ?thesis by (rule solo_step [rotated 3]) (simp_all add: None Let_def)
  next
    case (Some old)
    have "conc_run P ([?add], ?d\<lparr>used_memory := used_memory d - approx_size_bytes old\<rparr>) s"
      by (rule add) (simp add: set_insert_def Let_def Some)
    then have "conc_run P ([Sub ?i (approx_size_bytes old) ?add], ?d) s" by (rule solo_step [rotated 3]) simp_all
    then show ?thesis by (rule solo_step [rotated 3]) (simp_all add: Some Let_def)
  qed
qed

lemma solo_set: "conc_run P ([SetBegin (k, v, x)], d) ([Finished AnsUnit], db_set P clk k v x d)"
proof -
  have make: "conc_run P ([MakeEntry (k, v, x)], d1) ([Finished AnsUnit], set_insert P k (entry_new P (clk 0) (length k) v x) d1)" for d1
    by (rule solo_step [where clk = clk, OF _ _ _ solo_insert [OF rtranclp.rtrancl_refl]]) simp_all
  show ?thesis
  proof (cases "max_memory_bytes d > 0")
    case True
    have "conc_run P ([EvictLoad (k, v, x)], d) ([Finished AnsUnit], db_set P clk k v x d)"
      using solo_evict [OF make [of "ensure_memory_capacity d"]] True by (simp add: db_set_def)
    then show ?thesis by (rule solo_step [rotated 3]) (simp_all add: True)
  next
    case False
    have "conc_run P ([MakeEntry (k, v, x)], d) ([Finished AnsUnit], db_set P clk k v x d)"
      using make [of d] False by (simp add: db_set_def)
    then show ?thesis by (rule solo_step [rotated 3]) (simp_all add: False)
  qed
qed

lemma solo_sub: "conc_run P ([Sub i sz (Finished a)], drop_entry i k d) ([Finished a], remove_entry i k sz d)"
  by (rule solo_step [OF _ _ _ rtranclp.rtrancl_refl]) (simp_all add: drop_entry_def remove_entry_def)

lemma solo_get:
  assumes "db_get P clk k d = (r, d')"
  shows "conc_run P ([GetHit k], d) ([Finished (AnsValue r)], d')"
proof -
  obtain o1 d1 where h: "get_hit P clk k d = (o1, d1)" by (metis surj_pair)
  show ?thesis
  proof (cases o1)
    case (Some r')
    then have "r' = r" "d1 = d'" using assms h by (simp_all add: db_get_def)
    then show ?thesis using h Some by (intro solo_step [OF _ _ _ rtranclp.rtrancl_refl, where clk = clk]) simp_all
  next
    case None
    then have r: "r = None" "d' = get_lazy P (clk 2) k d1" using assms h by (simp_all add: db_get_def)
    let ?i = "shard_index P d1 k"
    have "conc_run P ([GetLazy k], d1) ([Finished (AnsValue None)], get_lazy P (clk 2) k d1)"
    proof (cases "\<exists>e. hm_get (shards d1 ! ?i) k = Some e \<and> is_expired (clk 2) e")
      case True
      then obtain e where e: "hm_get (shards d1 ! ?i) k = Some e" "is_expired (clk 2) e" by blast
      have "conc_run P ([Sub ?i (approx_size_bytes e) (Finished (AnsValue None))], drop_entry ?i k d1)
          ([Finished (AnsValue None)], get_lazy P (clk 2) k d1)"
        using solo_sub e by (simp add: get_lazy_def Let_def)
      then show ?thesis by (rule solo_step [rotated 3, where clk = "\<lambda>_. clk 2"]) (simp_all add: e Let_def)
    next
      case False
      then have "get_lazy P (clk 2) k d1 = d1" by (auto simp: get_lazy_def Let_def split: option.split)
      then show ?thesis using False
        by (intro solo_step [OF _ _ _ rtranclp.rtrancl_refl, where clk = "\<lambda>_. clk 2"]) (auto simp: Let_def split: option.split)
    qed
    then have "conc_run P ([GetLazy k], d1) ([Finished (AnsValue r)], d')" using r by simp
    then show ?thesis by (rule solo_step [rotated 3, where clk = clk]) (simp_all add: h None)
  qed
qed

lemma solo_del:
  assumes "db_del P k d = (b, d')"
  shows "conc_run P ([DelBegin k], d) ([Finished (AnsBool b)], d')"
proof (cases "hm_get (shards d ! shard_index P d k) k")
  case None
  then show ?thesis using assms
    by (intro solo_step [OF _ _ _ rtranclp.rtrancl_refl]) (auto simp: db_del_def Let_def)
next
  case (Some e)
  then have "conc_run P ([Sub (shard_index P d k) (approx_size_bytes e) (Finished (AnsBool b))], drop_entry (shard_index P d k) k d)
      ([Finished (AnsBool b)], d')"
    using assms solo_sub [of P "shard_index P d k" "approx_size_bytes e" "AnsBool b" k d] by (auto simp: db_del_def Let_def)
  moreover have b using assms Some by (simp add: db_del_def Let_def)
  ultimately show ?thesis by (intro solo_step [where p = "DelBegin k"]) (auto simp: Let_def Some)
qed

lemma solo_hold:
  "conc_run P ([PurgeScan now sample (Suc i) (fst (purge_remove i keys (n, d)))], snd (purge_remove i keys (n, d))) s \<Longrightarrow>
     conc_run P ([PurgeHold now sample i n keys], d) s"
proof (induction keys arbitrary: n d)
  case Nil
  then have "conc_run P ([PurgeScan now sample (Suc i) n], d) s" by simp
  then show ?case by (rule solo_step [rotated 3]) simp_all
next
  case (Cons ksz keys)
  obtain k sz where ksz: "ksz = (k, sz)" by (cases ksz)
  show ?case
  proof (cases "hm_get (shards d ! i) k")
    case None
    then have "conc_run P ([PurgeHold now sample i n keys], d) s" using Cons ksz by simp
    then show ?thesis by (rule solo_step [rotated 3]) (simp_all add: ksz None)
  next
    case (Some e)
    then have "conc_run P ([PurgeHold now sample i (n + 1) keys], remove_entry i k sz d) s" using Cons ksz by simp
    then have "conc_run P ([Sub i sz (PurgeHold now sample i (n + 1) keys)], drop_entry i k d) s"
      by (rule solo_step [rotated 3]) (simp_all add: drop_entry_def remove_entry_def)
    then show ?thesis by (rule solo_step [rotated 3]) (simp_all add: ksz Some)
  qed
qed

lemma length_purge_remove: "length (shards (snd (purge_remove i keys (n, d)))) = length (shards d)"
  by (induction keys arbitrary: n d) (auto simp: remove_entry_def)

lemma solo_purge_from:
  "conc_run P ([Finished (AnsCount (fst (fold (purge_shard now sample) [i..<length (shards d)] (n, d))))],
       snd (fold (purge_shard now sample) [i..<length (shards d)] (n, d))) s \<Longrightarrow> conc_run P ([PurgeScan now sample i n], d) s"
proof (induction "length (shards d) - i" arbitrary: i n d)
  case 0
  then have "conc_run P ([Finished (AnsCount n)], d) s" by simp
  then show ?case using 0 by (elim solo_step [rotated 3]) simp_all
next
  case (Suc m)
  have i: "i < length (shards d)" using Suc.hyps(2) by simp
  let ?keys = "purge_scan now sample (shards d ! i)"
  obtain n1 d1 where r: "purge_remove i ?keys (n, d) = (n1, d1)" by (metis surj_pair)
  have len: "length (shards d1) = length (shards d)" using length_purge_remove [of i ?keys n d] r by simp
  have "purge_shard now sample i (n, d) = (n1, d1)" using r by (auto simp: purge_shard_def Let_def)
  then have next1: "conc_run P ([PurgeScan now sample (Suc i) n1], d1) s"
    using Suc.hyps(1) [of d1 "Suc i" n1] Suc.hyps(2) Suc.prems i len by (simp add: upt_conv_Cons)
  show ?case
  proof (cases "?keys = []")
    case True
    then have "n1 = n" "d1 = d" using r by simp_all
    then show ?thesis using next1 by (elim solo_step [rotated 3]) (simp_all add: i True)
  next
    case False
    have "conc_run P ([PurgeHold now sample i n ?keys], d) s" using solo_hold next1 r by simp
    then have "conc_run P ([PurgeWrite now sample i n ?keys], d) s" by (rule solo_step [rotated 3]) simp_all
    then show ?thesis by (rule solo_step [rotated 3]) (simp_all add: i False Let_def)
  qed
qed

section \<open>Properties\<close>

text \<open>
  C6. Concurrent clients.  Let any number of threads execute \<open>get\<close>, \<open>set\<close> (with eviction) and \<open>del\<close>, interleaved in any way.
  At every moment no two threads hold the write lock of the same shard, and \<open>used_memory\<close> differs from the sum of the
  stored sizes by exactly the updates still to be made under a lock; once all operations have returned
  it is that sum again and the whole storage invariant holds.
\<close>

theorem concurrent_accounting:
  assumes "conc_run P (starts, d0) (ths, d)" "db_inv P d0" "list_all client_start starts"
  shows "(\<forall>t < length ths. \<forall>u < length ths. t \<noteq> u \<longrightarrow> holds (ths ! t) = None \<or> holds (ths ! t) \<noteq> holds (ths ! u))
    \<and> memory_used d = total_size d + sum_list (map debt ths)
    \<and> (list_all finished ths \<longrightarrow> db_inv P d \<and> memory_used d = total_size d)"
proof -
  have inv: "conc_inv P (ths, d)" using conc_inv_run [OF assms(1)] conc_inv_start [OF assms(2,3)] by blast
  have "used_memory d - sum_list (map debt ths) = total_size d"
    using inv by (simp add: conc_inv_def db_inv_def settle_def total_size_def)
  then have "used_memory d = total_size d + sum_list (map debt ths)" by (simp add: algebra_simps)
  moreover have "list_all finished ths \<longrightarrow> db_inv P d" using inv finished_settled by (auto simp: conc_inv_def)
  ultimately show ?thesis using inv finished_settled by (auto simp: conc_inv_def exclusive_def memory_used_def)
qed

theorem concurrent_accounting_witness:
  "\<exists>d. conc_run sample_platform ([SetBegin (''b'', ''2'', None), GetHit ''a''], sample_db)
         ([EvictLoad (''b'', ''2'', None), GetHit ''a''], d)
     \<and> memory_used d = total_size d"
proof -
  let ?ths = "[SetBegin (''b'', ''2'', None), GetHit ''a'']"
  have "conc_step sample_platform (?ths, sample_db) (?ths[0 := EvictLoad (''b'', ''2'', None)], sample_db)"
    by (rule conc_step.intros) simp_all
  then have run: "conc_run sample_platform (?ths, sample_db) ([EvictLoad (''b'', ''2'', None), GetHit ''a''], sample_db)" by simp
  show ?thesis using concurrent_accounting [OF run db_inv_sample] run by auto
qed

text \<open>
  C26. No deadlock.  As long as an operation has not returned, some thread can take a step.
\<close>

theorem interleaving_progress:
  assumes "p \<in> set ths" "\<not> finished p"
  shows "\<exists>s'. conc_step P (ths, d) s'"
proof -
  obtain t where t: "t < length ths" "\<not> finished (ths ! t)"
    "wants P d (ths ! t) = None \<or> wants P d (ths ! t) \<notin> holds ` set ths"
  proof (cases "\<exists>q \<in> set ths. holds q \<noteq> None")
    case True
    then obtain t where t: "t < length ths" "holds (ths ! t) \<noteq> None" by (metis in_set_conv_nth)
    then show ?thesis using that [of t] by (cases "ths ! t") auto
  next
    case False
    obtain t where "t < length ths" "ths ! t = p" using assms(1) by (metis in_set_conv_nth)
    moreover have "x \<notin> holds ` set ths" if "x \<noteq> None" for x using False that by force
    ultimately show ?thesis using that [of t] assms(2) by blast
  qed
  obtain q d' where "advance P (\<lambda>_. 0) (ths ! t) d = (q, d')" by (metis surj_pair)
  then show ?thesis using conc_step.intros [OF t] by blast
qed

theorem interleaving_progress_witness:
  "\<exists>s'. conc_step sample_platform ([GetHit ''a'', Sub 0 1 (Finished AnsUnit)], sample_db) s'"
  using interleaving_progress [of "GetHit ''a''"] by simp

text \<open>
  C24. Alone, a thread computes the function.  The fine-grained steps of one thread with nobody else around produce the result and the database
  of the sequential definitions of \<open>get\<close>, \<open>set\<close>, \<open>del\<close> and of the expiry round, and return.
\<close>

theorem alone_equals_sequential:
  "conc_run P ([SetBegin (k, v, x)], d) ([Finished AnsUnit], db_set P clk k v x d)
   \<and> conc_run P ([GetHit k], d) ([Finished (AnsValue (fst (db_get P clk k d)))], snd (db_get P clk k d))
   \<and> conc_run P ([DelBegin k], d) ([Finished (AnsBool (fst (db_del P k d)))], snd (db_del P k d))
   \<and> conc_run P ([PurgeScan now sample 0 0], d)
       ([Finished (AnsCount (fst (purge_expired_sample now sample d)))], snd (purge_expired_sample now sample d))"
  using solo_set solo_get [of P clk k d] solo_del [of P k d]
    solo_purge_from [of P now sample 0 d 0] by (simp add: purge_expired_sample_def prod_eq_iff)

text \<open>A deterministic run of a given schedule, and the schedule of the race.\<close>

definition race_db :: db where
  "race_db = \<lparr>shards = [[(''k'', \<lparr>entry_value = ''x'', expires_at = Some 50, last_accessed = 0, approx_size_bytes = 82\<rparr>)]],
     shard_mask = 0, used_memory = 82, max_memory_bytes = 0\<rparr>"

fun schedule :: "platform \<Rightarrow> (nat \<times> clock) list \<Rightarrow> pc list \<times> db \<Rightarrow> (pc list \<times> db) option" where
  "schedule P [] s = Some s"
| "schedule P ((t, clk) # sch) (ths, d) =
     (if t < length ths \<and> \<not> finished (ths ! t) \<and> (wants P d (ths ! t) = None \<or> wants P d (ths ! t) \<notin> set (map holds ths))
      then (case advance P clk (ths ! t) d of (p, d') \<Rightarrow> schedule P sch (ths[t := p], d'))
      else None)"

lemma schedule_run: "schedule P sch s = Some s' \<Longrightarrow> conc_run P s s'"
proof (induction P sch s rule: schedule.induct)
  case (2 P t clk sch ths d)
  obtain p d' where a: "advance P clk (ths ! t) d = (p, d')" by (metis surj_pair)
  have ok: "t < length ths" "\<not> finished (ths ! t)" "wants P d (ths ! t) = None \<or> wants P d (ths ! t) \<notin> holds ` set ths"
    using "2.prems" by (auto split: if_splits)
  have "schedule P sch (ths[t := p], d') = Some s'" using "2.prems" a by (auto split: if_splits)
  then have "conc_run P (ths[t := p], d') s'" using "2.IH" [OF _ a [symmetric]] ok by auto
  then show ?case using conc_step.intros [OF ok a] by (meson converse_rtranclp_into_rtranclp)
qed simp

definition race_schedule :: "(nat \<times> clock) list" where
  "race_schedule = map (\<lambda>t. (t, \<lambda>_. 200)) [0, 1, 1, 1, 1, 1, 0, 0, 0, 0, 0]"

definition race_end :: db where
  "race_end = \<lparr>shards = [[]], shard_mask = 0, used_memory = 4, max_memory_bytes = 0\<rparr>"

lemma race_index: "shard_mask d = 0 \<Longrightarrow> shard_index P d k = 0"
  by (simp add: shard_index_def)

lemma race_run: "schedule sample_platform race_schedule ([PurgeScan 100 20 0 0, SetBegin (''k'', ''fresh'', None)], race_db)
    = Some ([Finished (AnsCount 1), Finished AnsUnit], race_end)"
  by (simp add: race_schedule_def race_db_def race_end_def race_index purge_scan_def Let_def drop_entry_def
      hm_get_def hm_remove_def hm_insert_def hm_put_def hm_arrange_def hm_keys_def entry_new_def sample_platform_def)

text \<open>
  C25. The expiry round races with writers.  Between finding an expired key under the read lock and removing it under the
  write lock, the round does not look again.  There is an interleaving in which a key is overwritten
  with a value that never expires, \<open>set\<close> returns, and the round then removes the fresh value and subtracts the
  size of the old one: the write is lost and \<open>used_memory\<close> no longer is the sum of the sizes.
\<close>

theorem purge_race:
  "\<exists>d. db_inv sample_platform race_db
     \<and> conc_run sample_platform ([PurgeScan 100 20 0 0, SetBegin (''k'', ''fresh'', None)], race_db)
         ([Finished (AnsCount 1), Finished AnsUnit], d)
     \<and> db_lookup sample_platform d ''k'' = None \<and> memory_used d = 4 \<and> total_size d = 0"
proof (intro exI [of _ race_end] conjI)
  have "db_shape race_db" by (auto simp: db_shape_def race_db_def intro: exI [of _ 0])
  then show "db_inv sample_platform race_db"
    by (simp add: db_inv_def total_size_def race_index shard_ok_def) 
       (simp add: race_db_def hm_wf_def hm_keys_def hm_sum_def entry_sized_def race_index)
qed (use schedule_run [OF race_run] in \<open>simp_all add: db_lookup_def race_end_def race_index hm_get_def memory_used_def total_size_def hm_sum_def\<close>)

end
