(* ===== verification/Command_Interleaving.thy ===== *)
theory Command_Interleaving
  imports Convergence
begin

text \<open>
  Writes of concurrent connections.  \<open>Command::execute\<close> applies a write to the database and afterwards
  hands the raw command to \<open>propagate_downstream\<close>; nothing keeps the two together, so the tasks of
  two connections can interleave between them, and \<open>DEL\<close> can be interrupted between its keys.  A task is the
  point it has reached in its command; a step is one operation on the database or one propagation.
\<close>

section \<open>Tasks\<close>

datatype write_pc =
    SetApply string bytes "u64 option" bytes
  | DelApply "string list" nat bytes
  | Propagate bytes Value
  | WriteDone Value

fun write_advance :: "platform \<Rightarrow> 'c sender \<Rightarrow> clock \<Rightarrow> write_pc \<Rightarrow> 'c exec_state \<Rightarrow> write_pc \<times> 'c exec_state" where
  "write_advance P send clk (SetApply k v px raw) x =
     (Propagate raw value_ok,
      x\<lparr>xs_db := (case px of
                 None \<Rightarrow> db_set P clk k v None (xs_db x)
               | Some ms \<Rightarrow> db_set P (\<lambda>i. clk (i + 1)) k v (Some (clk 0 + unat ms * 1000000)) (xs_db x))\<rparr>)"
| "write_advance P send clk (DelApply [] n raw) x =
     (if n > 0 then Propagate raw (Integer (int n)) else WriteDone (Integer (int n)), x)"
| "write_advance P send clk (DelApply (k # ks) n raw) x =
     (case db_del P k (xs_db x) of (b, d) \<Rightarrow> (DelApply ks (if b then n + 1 else n) raw, x\<lparr>xs_db := d\<rparr>))"
| "write_advance P send clk (Propagate raw v) x = (WriteDone v, propagate_raw send (Some raw) x)"
| "write_advance P send clk (WriteDone v) x = (WriteDone v, x)"

inductive write_step :: "platform \<Rightarrow> 'c sender \<Rightarrow> write_pc list \<times> 'c exec_state \<Rightarrow> write_pc list \<times> 'c exec_state \<Rightarrow> bool"
  for P send where
  "t < length ths \<Longrightarrow> write_advance P send clk (ths ! t) x = (p, x') \<Longrightarrow> write_step P send (ths, x) (ths[t := p], x')"

inductive_cases write_stepE: "write_step P send s s'"

abbreviation write_run :: "platform \<Rightarrow> 'c sender \<Rightarrow> write_pc list \<times> 'c exec_state \<Rightarrow> write_pc list \<times> 'c exec_state \<Rightarrow> bool" where
  "write_run P send \<equiv> (write_step P send)\<^sup>*\<^sup>*"

definition set_task :: "string \<Rightarrow> bytes \<Rightarrow> write_pc" where
  "set_task k v = SetApply k v None (wire (Set k v None))"

section \<open>Alone\<close>

lemma alone_step:
  assumes "write_advance P send clk p x = (p', x')" "write_run P send ([p'], x') s"
  shows "write_run P send ([p], x) s"
proof -
  have "write_step P send ([p], x) ([p][0 := p'], x')" using assms(1) by (intro write_step.intros) auto
  then show ?thesis using assms(2) by (simp add: converse_rtranclp_into_rtranclp)
qed

lemma alone_set:
  "exec_set P send clk k v px (Some raw) x = (Returned (Some r), x') \<Longrightarrow>
     write_run P send ([SetApply k v px raw], x) ([WriteDone r], x')"
  by (rule alone_step [where clk = clk, OF _ alone_step [OF _ rtranclp.rtrancl_refl]])
     (auto simp: exec_set_def Let_def split: option.splits)

lemma alone_del_loop:
  assumes "count_loop (db_del P) ks (xs_db x) = (m, d)"
    "write_run P send ([DelApply [] (n + m) raw], x\<lparr>xs_db := d\<rparr>) s"
  shows "write_run P send ([DelApply ks n raw], x) s"
  using assms
proof (induction ks arbitrary: n m x)
  case (Cons k ks)
  obtain b d1 where b: "db_del P k (xs_db x) = (b, d1)" by (metis surj_pair)
  obtain m' where m: "count_loop (db_del P) ks d1 = (m', d)" "m = (if b then 1 else 0) + m'"
    using Cons.prems(1) b by (auto split: prod.splits)
  have "write_run P send ([DelApply ks (if b then n + 1 else n) raw], x\<lparr>xs_db := d1\<rparr>) s"
    using Cons.IH [of "x\<lparr>xs_db := d1\<rparr>" m' "if b then n + 1 else n"] m Cons.prems(2) by (simp split: if_splits)
  then show ?case by (rule alone_step [rotated]) (simp add: b)
qed auto

lemma alone_del:
  assumes "exec_del P send ks (Some raw) x = (Returned (Some r), x')"
  shows "write_run P send ([DelApply ks 0 raw], x) ([WriteDone r], x')"
proof -
  obtain n d where n: "count_loop (db_del P) ks (xs_db x) = (n, d)" by (metis surj_pair)
  have r: "r = Integer (int n)" "x' = (if n > 0 then propagate_raw send (Some raw) (x\<lparr>xs_db := d\<rparr>) else x\<lparr>xs_db := d\<rparr>)"
    using assms n by (auto simp: exec_del_def Let_def)
  have "write_run P send ([DelApply [] (0 + n) raw], x\<lparr>xs_db := d\<rparr>) ([WriteDone r], x')"
  proof (cases "n > 0")
    case True
    have "write_run P send ([Propagate raw r], x\<lparr>xs_db := d\<rparr>) ([WriteDone r], x')"
      by (rule alone_step [OF _ rtranclp.rtrancl_refl]) (simp add: r True)
    then show ?thesis by (rule alone_step [rotated]) (use True r in simp)
  next
    case False
    then show ?thesis by (intro alone_step [OF _ rtranclp.rtrancl_refl]) (simp add: r)
  qed
  then show ?thesis by (rule alone_del_loop [OF n])
qed

section \<open>Interleaved\<close>

fun raw_of :: "write_pc \<Rightarrow> bytes" where
  "raw_of (SetApply k v px raw) = raw"
| "raw_of (DelApply ks n raw) = raw"
| "raw_of (Propagate raw v) = raw"
| "raw_of (WriteDone v) = []"

fun write_start :: "write_pc \<Rightarrow> bool" where
  "write_start (SetApply k v px raw) = True"
| "write_start (DelApply ks n raw) \<longleftrightarrow> n = 0"
| "write_start _ = False"

text \<open>The task answered that it changed something.\<close>

fun effective_done :: "write_pc \<Rightarrow> bool" where
  "effective_done (WriteDone v) \<longleftrightarrow> v \<noteq> Integer 0"
| "effective_done _ = False"

fun task_ok :: "bytes \<Rightarrow> write_pc \<Rightarrow> bool" where
  "task_ok raw (Propagate raw' v) \<longleftrightarrow> raw' = raw \<and> v \<noteq> Integer 0"
| "task_ok raw (WriteDone v) \<longleftrightarrow> True"
| "task_ok raw p \<longleftrightarrow> raw_of p = raw"

definition queued_inv :: "('c \<Rightarrow> conn_id \<Rightarrow> bytes list) \<Rightarrow> ('c \<Rightarrow> conn_id \<Rightarrow> bool) \<Rightarrow> conn_id \<Rightarrow> write_pc list \<Rightarrow> bytes list
    \<Rightarrow> write_pc list \<times> 'c exec_state \<Rightarrow> bool" where
  "queued_inv pending alive tx starts q s \<longleftrightarrow> (case s of (ths, x) \<Rightarrow>
     length ths = length starts \<and> (\<forall>t < length ths. task_ok (raw_of (starts ! t)) (ths ! t))
     \<and> alive (xs_chan x) tx \<and> count_list (downstream_senders (xs_repl x)) tx = 1 \<and> \<not> is_replica (xs_repl x)
     \<and> (\<exists>l. pending (xs_chan x) tx = q @ l
          \<and> (\<forall>r. count_list l r = card {t. t < length ths \<and> raw_of (starts ! t) = r \<and> effective_done (ths ! t)})))"

lemma write_advance_quiet:
  assumes "write_advance P send clk p x = (p', x')" "\<forall>raw v. p \<noteq> Propagate raw v" "task_ok raw p"
  shows "task_ok raw p' \<and> (effective_done p' \<longleftrightarrow> effective_done p) \<and> xs_chan x' = xs_chan x \<and> xs_repl x' = xs_repl x"
proof (cases p)
  case (DelApply ks n raw')
  then show ?thesis using assms by (cases ks) (auto split: prod.splits if_splits)
qed (use assms in \<open>auto simp: value_ok_def\<close>)

lemma card_effective_update:
  assumes "t < length ths" "\<not> effective_done (ths ! t)" "effective_done p"
  shows "card {u. u < length ths \<and> f u = r \<and> effective_done (ths[t := p] ! u)} =
    card {u. u < length ths \<and> f u = r \<and> effective_done (ths ! u)} + (if f t = r then 1 else 0)"
proof -
  let ?S = "{u. u < length ths \<and> f u = r \<and> effective_done (ths ! u)}"
  have "{u. u < length ths \<and> f u = r \<and> effective_done (ths[t := p] ! u)} = (if f t = r then insert t ?S else ?S)"
    using assms by (auto simp: nth_list_update)
  moreover have "finite ?S" "t \<notin> ?S" using assms(2) by simp_all
  ultimately show ?thesis by simp
qed

lemma queued_inv_step:
  assumes "channel_laws send pending alive" "write_step P send s s'" "queued_inv pending alive tx starts q s"
  shows "queued_inv pending alive tx starts q s'"
  using assms(2,3)
proof (induction rule: write_step.induct)
  case (1 t ths clk x p x')
  have ok: "task_ok (raw_of (starts ! t)) (ths ! t)" using 1(1,3) by (auto simp: queued_inv_def)
  show ?case
  proof (cases "\<exists>raw v. ths ! t = Propagate raw v")
    case False
    then have q: "task_ok (raw_of (starts ! t)) p" "effective_done p \<longleftrightarrow> effective_done (ths ! t)" "xs_chan x' = xs_chan x" "xs_repl x' = xs_repl x"
      using write_advance_quiet [OF 1(2) _ ok] by auto
    have "effective_done (ths[t := p] ! u) \<longleftrightarrow> effective_done (ths ! u)" if "u < length ths" for u
      using q(2) that by (cases "u = t") auto
    then have "{u. u < length ths \<and> raw_of (starts ! u) = r \<and> effective_done (ths[t := p] ! u)}
        = {u. u < length ths \<and> raw_of (starts ! u) = r \<and> effective_done (ths ! u)}" for r by blast
    moreover have "task_ok (raw_of (starts ! u)) (ths[t := p] ! u)" if "u < length ths" for u
      using q(1) that 1(3) by (cases "u = t") (auto simp: queued_inv_def)
    ultimately show ?thesis using 1(3) q(3,4) unfolding queued_inv_def by auto
  next
    case True
    then obtain v where v: "ths ! t = Propagate (raw_of (starts ! t)) v" "v \<noteq> Integer 0" using ok by auto
    have master: "\<not> is_replica (xs_repl x)" using 1(3) by (simp add: queued_inv_def)
    let ?raw = "raw_of (starts ! t)"
    obtain r c where pr: "propagate_downstream send ?raw (xs_repl x, xs_chan x) = (r, c)" by (metis surj_pair)
    have p: "p = WriteDone v" "xs_repl x' = r" "xs_chan x' = c" using 1(2) v(1) master pr by (auto simp: propagate_raw_def)
    have "\<not> effective_done (ths ! t)" "effective_done p" using v p(1) by simp_all
    note card = card_effective_update [OF 1(1) this, of "\<lambda>u. raw_of (starts ! u)"]
    have tasks: "task_ok (raw_of (starts ! u)) (ths[t := p] ! u)" if "u < length ths" for u
      using that 1(3) p(1) by (cases "u = t") (auto simp: queued_inv_def)
    obtain l where l: "pending (xs_chan x) tx = q @ l"
      "\<forall>r. count_list l r = card {t. t < length ths \<and> raw_of (starts ! t) = r \<and> effective_done (ths ! t)}"
      using 1(3) by (auto simp: queued_inv_def)
    have "pending c tx = q @ (l @ [?raw])" "alive c tx" "count_list (downstream_senders r) tx = 1" "\<not> is_replica r"
      using 1(3) propagate_spec [OF assms(1) pr] l(1) by (auto simp: queued_inv_def count_list_filter is_replica_def)
    moreover have "count_list (l @ [?raw]) r' =
        card {u. u < length ths \<and> raw_of (starts ! u) = r' \<and> effective_done (ths[t := p] ! u)}" for r'
      using l(2) card [of r'] by simp
    ultimately show ?thesis using 1(3) tasks p by (auto simp: queued_inv_def)
  qed
qed

lemma queued_inv_run:
  "write_run P send s s' \<Longrightarrow> channel_laws send pending alive \<Longrightarrow> queued_inv pending alive tx starts q s \<Longrightarrow>
     queued_inv pending alive tx starts q s'"
  by (induction rule: rtranclp_induct) (auto intro: queued_inv_step)

lemma write_advance_inv:
  assumes "write_advance P send clk p x = (p', x')" "xs_inv P x"
  shows "xs_inv P x'"
proof (cases p)
  case (SetApply k v px raw)
  then show ?thesis using assms by (auto simp: db_inv_set xs_inv_db split: option.splits)
next
  case (DelApply ks n raw)
  then show ?thesis using assms db_inv_del [OF xs_inv_db [OF assms(2)]] by (cases ks) (auto simp: case_prod_beta)
qed (use assms in auto)

lemma queued_inv_start:
  assumes "list_all write_start starts" "alive (xs_chan x) tx" "count_list (downstream_senders (xs_repl x)) tx = 1" "\<not> is_replica (xs_repl x)"
  shows "queued_inv pending alive tx starts (pending (xs_chan x) tx) (starts, x)"
proof -
  have "task_ok (raw_of p) p \<and> \<not> effective_done p" if "p \<in> set starts" for p
    using assms(1) that by (cases p) (auto simp: list_all_iff)
  then have "\<forall>t < length starts. task_ok (raw_of (starts ! t)) (starts ! t) \<and> \<not> effective_done (starts ! t)" by simp
  then have "{t. t < length starts \<and> raw_of (starts ! t) = r \<and> effective_done (starts ! t)} = {}" for r by blast
  then show ?thesis using assms \<open>\<forall>t < length starts. _ t\<close> by (auto simp: queued_inv_def)
qed

lemma write_run_inv: "write_run P send s s' \<Longrightarrow> xs_inv P (snd s) \<Longrightarrow> xs_inv P (snd s')"
proof (induction rule: rtranclp_induct)
  case (step y z)
  from step(2) show ?case using step(3,4) by (elim write_stepE) (auto dest: write_advance_inv)
qed simp

section \<open>Properties\<close>

text \<open>
  C21. Concurrent writes.  Let the tasks of any number of connections execute \<open>SET\<close> and \<open>DEL\<close> on a master, interleaved in any way
  between their operations on the database and their propagation.  The storage invariant holds throughout, and for a registered live replica
  the queue only grows, by exactly the commands of the tasks that returned having changed something, each once.
\<close>

theorem writes_queued_once:
  assumes "channel_laws send pending alive" "write_run P send (starts, x) (ths, x')" "xs_inv P x" "list_all write_start starts"
    "alive (xs_chan x) tx" "count_list (downstream_senders (xs_repl x)) tx = 1" "\<not> is_replica (xs_repl x)"
  shows "xs_inv P x' \<and> (\<exists>l. pending (xs_chan x') tx = pending (xs_chan x) tx @ l
    \<and> (\<forall>r. count_list l r = card {t. t < length ths \<and> raw_of (starts ! t) = r \<and> effective_done (ths ! t)}))"
  using queued_inv_run [OF assms(2,1) queued_inv_start [where pending = pending and alive = alive and x = x and tx = tx, OF assms(4-7)]] write_run_inv [OF assms(2)] assms(3)
  by (auto simp: queued_inv_def)

lemma sample_master_facts:
  "xs_inv sample_platform sample_master" "snd (xs_chan sample_master) 1" "fst (xs_chan sample_master) 1 = []"
  "count_list (downstream_senders (xs_repl sample_master)) 1 = 1" "\<not> is_replica (xs_repl sample_master)"
  using durableD(1) [of sample_platform "with_config 4 0"] durable_with_config [of 4]
  by (simp_all add: sample_master_def xs_inv_def register_downstream_def new_master_def is_replica_def)

theorem writes_queued_once_witness:
  "\<exists>x' l. write_run sample_platform queue_send ([set_task ''k'' ''1''], sample_master) ([WriteDone value_ok], x')
     \<and> fst (xs_chan x') 1 = l \<and> count_list l (wire (Set ''k'' ''1'' None)) = 1"
proof -
  obtain x' where e: "exec_set sample_platform queue_send (\<lambda>_. 9) ''k'' ''1'' None (Some (wire (Set ''k'' ''1'' None))) sample_master
      = (Returned (Some value_ok), x')" by (simp add: exec_set_def Let_def)
  have run: "write_run sample_platform queue_send ([set_task ''k'' ''1''], sample_master) ([WriteDone value_ok], x')"
    using alone_set [OF e] by (simp add: set_task_def)
  have "{t. t < length [WriteDone value_ok] \<and> raw_of ([set_task ''k'' ''1''] ! t) = wire (Set ''k'' ''1'' None)
      \<and> effective_done ([WriteDone value_ok] ! t)} = {0}" by (auto simp: set_task_def value_ok_def)
  then show ?thesis
    using writes_queued_once [OF queue_send_laws run sample_master_facts(1) _ sample_master_facts(2,4,5)] sample_master_facts(3) run
    by (auto simp: set_task_def)
qed

lemma race_step:
  "t < length ths \<Longrightarrow> write_run P send (ths[t := fst (write_advance P send clk (ths ! t) x)], snd (write_advance P send clk (ths ! t) x)) s \<Longrightarrow>
     write_run P send (ths, x) s"
  by (rule converse_rtranclp_into_rtranclp) (auto intro!: write_step.intros [where clk = clk])

text \<open>
  C22. The order of concurrent writes is not the order of propagation.  Two connections set the same key on a master; both
  return, the master holds the value of the second write, and the replica's queue holds the two commands
  in the other order: a replica that processes it holds the first value, for good.
\<close>

theorem propagation_order_race:
  "\<exists>x' st'. write_run sample_platform queue_send ([set_task ''k'' ''1'', set_task ''k'' ''2''], sample_master) ([WriteDone value_ok, WriteDone value_ok], x')
     \<and> content sample_platform (xs_db x') ''k'' = Some ''2''
     \<and> stream_drain sample_platform queue_send (\<lambda>_ _. True) (\<lambda>_ i. i) (concat (fst (xs_chan x') 1)) sample_stream = (StreamMore, st')
     \<and> content sample_platform (xs_db (st_xs st')) ''k'' = Some ''1''"
proof -
  let ?P = sample_platform and ?clk = "\<lambda>_. 9 :: nat"
  let ?w1 = "wire (Set ''k'' ''1'' None)" and ?w2 = "wire (Set ''k'' ''2'' None)"
  define d where "d = db_set ?P ?clk ''k'' ''2'' None (db_set ?P ?clk ''k'' ''1'' None (xs_db sample_master))"
  define x' where "x' = propagate_raw queue_send (Some ?w1) (propagate_raw queue_send (Some ?w2) (sample_master\<lparr>xs_db := d\<rparr>))"
  have run: "write_run ?P queue_send ([set_task ''k'' ''1'', set_task ''k'' ''2''], sample_master) ([WriteDone value_ok, WriteDone value_ok], x')"
    by (rule race_step [where t = 0 and clk = ?clk], simp, rule race_step [where t = 1 and clk = ?clk], simp,
        rule race_step [where t = 1 and clk = ?clk], simp, rule race_step [where t = 0 and clk = ?clk], simp)
       (simp add: set_task_def x'_def d_def)
  have "durable ?P (xs_db sample_master)" using durable_with_config [of 4] by (simp add: sample_master_def)
  then have "content ?P d ''k'' = Some ''2''" using durable_set [of ?P] by (simp add: d_def)
  moreover have x': "xs_db x' = d" "fst (xs_chan x') 1 = [?w2, ?w1]"
    by (simp_all add: x'_def propagate_raw_def propagate_downstream_def sample_master_def register_downstream_def new_master_def
        is_replica_def queue_send_def)
  moreover have "\<forall>cmd \<in> set [Set ''k'' ''2'' None, Set ''k'' ''1'' None]. plain ?P cmd \<and> is_write cmd \<and> untimed cmd"
    by (simp add: plain_def is_write_def command_value_def sample_platform_def is_utf8_ascii byte_def)
  moreover have "durable ?P (xs_db (st_xs sample_stream))" using durable_with_config [of 2] by (simp add: sample_stream_def)
  ultimately show ?thesis
    using stream_writes [of "[Set ''k'' ''2'' None, Set ''k'' ''1'' None]" ?P sample_stream queue_send "\<lambda>_ _. True" "\<lambda>_ i. i"] run
    by auto
qed

end
