(* ===== verification/Spec2Isabelle.thy ===== *)
theory Spec2Isabelle
  imports Startup Storage_Interleaving Command_Interleaving
begin

text \<open>
  RustiCache, a Redis-compatible cache server in Rust, as executable definitions with the
  theorems that make it correct.

  \<^bold>\<open>The program.\<close>  A process (\<open>src/main.rs\<close>) reads a \<open>.env\<close> file and the command line, builds a
  configuration and starts a server (\<open>src/server.rs\<close>).  The server accepts TCP connections, each served by a
  task (\<open>src/connection.rs\<close>) that cuts the byte stream into RESP frames (\<open>src/protocol/resp.rs\<close>), recognises
  commands and executes them (\<open>src/commands/mod.rs\<close>) on a sharded in-memory database
  (\<open>src/storage\<close>), redirects commands on slots of other cluster nodes (\<open>src/cluster\<close>), and, on a master,
  sends writes to the replicas that registered with \<open>PSYNC\<close> (\<open>src/replication/state.rs\<close>).  A replica runs a
  task (\<open>src/replication/replica.rs\<close>) that performs the handshake with its master and applies the stream.
  A background task removes expired keys (\<open>src/storage/ttl.rs\<close>).

  \<^bold>\<open>The theories.\<close>

  \<^item> \<open>Prelude\<close>: machine types, the \<open>platform\<close> record (what the toolchain fixes and the sources do not: the hash of
    \<open>DefaultHasher\<close>, layout sizes, the order of a \<open>HashMap\<close>, whether arithmetic overflow panics), generic list and word facts.
  \<^item> \<open>Rust_Std\<close>, \<open>Hash_Map\<close>: the parts of the standard library the program uses: printing and parsing of integers, UTF-8, trimming and
    splitting, hash maps whose iteration order is a parameter (interface \<open>string_map\<close>).
  \<^item> \<open>Resp\<close>, \<open>Framing\<close>: values, serializer, and the incremental parser with its errors and its capacity panic.  Round trip, prefix
    stability, totality; the interface \<open>frame_codec\<close> is what the two byte-stream loops use of the parser.
  \<^item> \<open>Slot\<close>, \<open>Topology\<close>, \<open>Topology_Reports\<close>: CRC16 and hash tags, the slot table (interface \<open>slot_table\<close>), slot specifications, the
    \<open>CLUSTER\<close> reports.  The table-driven CRC equals the bitwise one; the reports describe the table exactly.
  \<^item> \<open>Storage\<close> to \<open>Storage_Contract\<close>: entries, sharding, \<open>get\<close>/\<open>set\<close>/\<open>del\<close>/\<open>exists\<close>/\<open>keys\<close>, memory accounting, LRU eviction, expiry.  \<open>db_inv\<close> is the
    invariant, the interface \<open>kv_store\<close> what the command layer relies on; eviction refines least-recently-used removal.
  \<^item> \<open>Storage_Concurrent\<close>, \<open>Storage_Interleaving\<close>: the same operations as threads that take shard locks and update the memory counter in
    atomic steps.  Alone a thread computes the sequential function; client threads keep the accounting exact and
    cannot deadlock; an expiry round can undo a concurrent write.
  \<^item> \<open>Storage_Drift\<close>: the storage invariant without the accounting, \<open>storage_ok\<close>, and the error of the memory counter, \<open>drift\<close>, which client
    operations neither increase nor reduce.
  \<^item> \<open>Repl_State\<close>: role, offsets, registration and propagation, the empty snapshot.
  \<^item> \<open>Commands\<close>, \<open>Command_Facts\<close>, \<open>Command_Wire\<close>: recognition and execution of every command on the record \<open>exec_state\<close>, the authentication
    gate, exact propagation, the one reachable panic, and the encoding of every command that is recognised as that command.
  \<^item> \<open>Connection\<close>, \<open>Connection_Facts\<close>: one \<open>select!\<close> iteration per event (\<open>conn_step\<close>) and the loop over the frames in the buffer (\<open>drain\<close>):
    fragmentation, pipelining, payload limit, redirection, authentication (an unauthenticated client that does not send \<open>PSYNC\<close> neither
    changes the shared state nor learns anything of it).
  \<^item> \<open>Replica\<close>, \<open>Replica_Facts\<close>, \<open>Convergence\<close>, \<open>Replica_Handshake\<close>: handshake, snapshot, stream, offsets and acknowledgements; replication refines the
    update of a plain map and converges; the handshake completes against the program's own master.
  \<^item> \<open>Command_Interleaving\<close>: the steps of \<open>SET\<close> and \<open>DEL\<close> of concurrent connections interleaved between the database and the propagation: every effective
    write reaches a replica's queue exactly once, but the order of two writes can be inverted.
  \<^item> \<open>Server\<close>, \<open>Server_Facts\<close>, \<open>Server_Invariant\<close>, \<open>Server_Replication\<close>: configuration, construction, and the running server as a state machine
    (\<open>server_step\<close> on \<open>system\<close>, reachable states \<open>sys_reach\<close>): its invariant under every interleaving of the tasks (the interface
    \<open>task_effects\<close> is what each task guarantees to the others), shutdown, delivery of the stream, replication end to end.
  \<^item> \<open>Startup\<close>: the \<open>.env\<close> file, the options with their defaults, and the configuration built from them, with its panics: a round trip from a
    configuration to the options that spell it and back.

  \<^bold>\<open>Conventions.\<close>  A Rust string or byte buffer is a list of characters, one per byte.  \<open>usize\<close>, \<open>u64\<close> and \<open>u16\<close> are words and wrap; where a
  checked build panics the model has an outcome for it.  Fallible functions return sums or options.  Each reading of
  \<open>Instant::now()\<close> takes the next value of a clock; theorems that compare instants assume it monotone.
  An index out of range is an error of its own where the source indexes a table with a number it received
  (\<open>IndexPanic\<close> in the slot table).
  Functions are total: the parser recurses to a nesting depth and has the outcome \<open>TooDeep\<close> beyond it, which nothing else produces;
  the length of the buffer is depth enough, because every array header consumes bytes, and \<open>parse_total\<close> proves that
  \<open>TooDeep\<close> does not occur.  The frame loops recurse on the length of the buffer, and the eviction loop on the number of entries.

  \<^bold>\<open>Parameters.\<close>  Sockets are the events and the predicate \<open>sink\<close> (does the next write succeed).  The tokio channels are the record \<open>channels\<close>;
  what tokio documents of them is \<open>channel_laws\<close> and \<open>fifo_laws\<close>, which the concrete \<open>queue_channels\<close> satisfies.  The command-line parser is
  the function \<open>parse_cli\<close>.  The scheduler is the choice of the next \<open>sys_event\<close>, or of the next thread in \<open>conc_step\<close>.

  \<^bold>\<open>Granularity.\<close>  In \<open>server_step\<close> a connection acts one \<open>select!\<close> iteration at a time, and the expiry task one critical section at a time: the scan of a
  shard under its read lock and the removal of what it found under the write lock are two events, and anything can happen
  in between.  Therefore \<open>server_invariant\<close> claims the structure of the storage and not exact accounting, and says which event can put the counter
  off; without interruption the events of the task are a round of \<open>run_active_ttl_eviction\<close> (\<open>ttl_round_alone\<close>).  Inside the database, \<open>conc_step\<close> interleaves single critical sections; there the
  accounting invariant is proved for client operations, and \<open>purge_race\<close> shows that it does not extend to a concurrent expiry round.
  Between the database and the replication state, \<open>write_step\<close> interleaves the operations of write commands, and
  \<open>propagation_order_race\<close> shows what is lost there; \<open>replication_end_to_end\<close> is about one writing connection at a time.

  \<^bold>\<open>Not modelled.\<close>  Logging, \<open>TCP_NODELAY\<close>, the construction of the tokio runtime and the exit code; the depth of the native stack, which deeply nested arrays can
  exhaust (\<open>nested_headers_deep\<close>); the prefix of its data that a failing socket write may have sent; allocation failure other than the capacity check of \<open>Vec\<close>; shard counts above \<open>2 ^ 63\<close> and connection limits above
  tokio's maximum number of permits; interleavings of a topology update with the redirection test of another connection.  Tests, benchmarks and documentation are not part of the implementation.
\<close>

end
